(* ===== verification/Prelude.thy ===== *)
theory Prelude
  imports "HOL-Library.Word" "HOL-Library.Monad_Syntax"
begin

text \<open>
  Shared ground of the development: the machine integer types of the C code, the
  result codes and alert numbers the components return, the fact collections, and the
  generic lemmas on words, byte lists and options that the component theories use.

  Conventions.  A C byte buffer is a \<open>u8 list\<close>; a pointer into a buffer that may be
  \<open>NULL\<close> is an option of the byte list it points at; \<open>size_t\<close> is \<open>nat\<close>, and where the
  C code subtracts two of them the wrap-around is written out (\<open>size_sub\<close>).  A C
  function that can stop in \<open>CH_ASSERT\<close> returns an option, with \<open>None\<close> for the stop.
\<close>

unbundle bit_operations_syntax

section \<open>Machine integers\<close>

type_synonym u8 = "8 word"
type_synonym u16 = "16 word"
type_synonym u32 = "32 word"
type_synonym u64 = "64 word"
type_synonym bytes = "u8 list"

text \<open>
  \<open>size_t\<close> subtraction.  Below zero it wraps modulo the width of the type; the width
  chosen is 64 bits, and no statement of the development depends on it.
\<close>

definition size_sub :: "nat \<Rightarrow> nat \<Rightarrow> nat" where
  "size_sub a b = (if b \<le> a then a - b else 2 ^ 64 + a - b)"

lemma size_sub_le [simp]: "b \<le> a \<Longrightarrow> size_sub a b = a - b"
  by (simp add: size_sub_def)

text \<open>The bytes of a C character or string literal, without its NUL.\<close>

definition ascii :: "string \<Rightarrow> bytes" where
  "ascii s = map of_char s"

lemma length_ascii: "length (ascii s) = length s"
  by (simp add: ascii_def)

section \<open>Result codes and alerts\<close>

text \<open>
  The result codes of \<open>include/chapulin/result.h\<close>, as an enumeration: the code compares
  them with \<open>CH_OK\<close> and returns them, and does no arithmetic on them.
\<close>

datatype rc = CH_OK | CH_EIO | CH_EPROTO | CH_EAUTH | CH_EINVAL | CH_ECAP | CH_ECLOSED
  | CH_KEY_UPDATE_LIMIT

section \<open>Fact collections\<close>

named_theorems unat_simps \<open>unat of the word operations, as arithmetic on nat\<close>
named_theorems enc_simps \<open>byte encodings of integers and their lengths\<close>

section \<open>Words\<close>

lemma numeral_pow2_8: "(2 :: nat) ^ 8 = 256" by simp

lemma unat_and_mask_eq [unat_simps]:
  "unat (x AND mask n) = unat (x :: 'a::len word) mod 2 ^ n"
  unfolding take_bit_eq_mask [symmetric] unsigned_take_bit_eq by (rule take_bit_eq_mod)

lemma unat_drop_bit [unat_simps]: "unat (drop_bit n x) = unat (x :: 'a::len word) div 2 ^ n"
  unfolding unat_drop_bit_eq by (rule drop_bit_eq_div)

lemma unat_push_bit [unat_simps]:
  "unat (push_bit n x) = (unat (x :: 'a::len word) * 2 ^ n) mod 2 ^ LENGTH('a)"
  unfolding unsigned_push_bit_eq by (simp add: take_bit_eq_mod push_bit_eq_mult)

lemma unat_take_bit [unat_simps]: "unat (take_bit n x) = unat (x :: 'a::len word) mod 2 ^ n"
  unfolding unsigned_take_bit_eq by (rule take_bit_eq_mod)

lemma unat_ucast_mod [unat_simps]:
  "unat (ucast (x :: 'a::len word) :: 'b::len word) = unat x mod 2 ^ LENGTH('b)"
  by (simp add: unsigned_ucast_eq take_bit_eq_mod)

lemma unat_ucast_up:
  "LENGTH('a::len) \<le> LENGTH('b::len) \<Longrightarrow> unat (ucast (x :: 'a word) :: 'b word) = unat x"
proof -
  assume "LENGTH('a) \<le> LENGTH('b)"
  then have "(2 :: nat) ^ LENGTH('a) \<le> 2 ^ LENGTH('b)" by simp
  then have "unat x < 2 ^ LENGTH('b)" using unsigned_less [of x] by (rule order_less_le_trans [rotated])
  then show ?thesis by (simp add: unat_ucast_mod)
qed

lemma unat_byte_less [simp]: "unat (x :: u8) < 256"
  and unat_u16_less [simp]: "unat (y :: u16) < 65536"
  and unat_u32_less [simp]: "unat (z :: u32) < 4294967296"
  and unat_u64_less [simp]: "unat (v :: u64) < 18446744073709551616"
  using unsigned_less [of x] unsigned_less [of y] unsigned_less [of z] unsigned_less [of v]
  by simp_all

lemma unat_ucast_widen [simp]:
  "unat (ucast (x :: u8) :: u16) = unat x"
  "unat (ucast (x :: u8) :: u32) = unat x"
  "unat (ucast (x :: u8) :: u64) = unat x"
  "unat (ucast (y :: u16) :: u32) = unat y"
  "unat (ucast (y :: u16) :: u64) = unat y"
  "unat (ucast (z :: u32) :: u64) = unat z"
  by (simp_all add: unat_ucast_up)

lemma unat_less_pow: "unat (x :: 'a::len word) < 2 ^ LENGTH('a)"
  by (rule unsigned_less)

lemma unat_or_disjoint:
  assumes "a AND b = (0 :: 'a::len word)" and "unat a + unat b < 2 ^ LENGTH('a)"
  shows "unat (a OR b) = unat a + unat b"
proof -
  have "a OR b = a + b" using assms(1) by (simp add: disjunctive_add_eq_or)
  then show ?thesis using assms(2) by (simp add: unat_word_ariths)
qed

text \<open>Joining a high part shifted by \<open>n\<close> bits with a low part below \<open>2^n\<close>.\<close>

lemma and_push_bit_low:
  assumes "unat (b :: 'a::len word) < 2 ^ n"
  shows "push_bit n a AND b = 0"
proof (rule bit_word_eqI)
  fix k assume k: "k < LENGTH('a)"
  have "\<not> bit b k" if "n \<le> k"
  proof -
    have "b = take_bit n b"
      using assms by (metis take_bit_nat_eq_self unsigned_take_bit_eq word_unat_eq_iff)
    then show ?thesis using that by (metis bit_take_bit_iff not_less)
  qed
  then show "bit (push_bit n a AND b) k = bit (0 :: 'a word) k"
    by (auto simp: bit_and_iff bit_push_bit_iff)
qed

lemma unat_join:
  assumes "unat (b :: 'a::len word) < 2 ^ n" and "n \<le> LENGTH('a)"
  shows "unat (push_bit n a OR b) = (unat a * 2 ^ n) mod 2 ^ LENGTH('a) + unat b"
proof -
  let ?m = "(unat a * 2 ^ n) mod 2 ^ LENGTH('a)"
  have d: "2 ^ n dvd (2 ^ LENGTH('a) :: nat)"
    using assms(2) by (simp add: le_imp_power_dvd)
  then have dm: "2 ^ n dvd ?m" by (simp add: dvd_mod)
  have lt: "?m < 2 ^ LENGTH('a)" by simp
  have "?m + 2 ^ n \<le> 2 ^ LENGTH('a)"
    using d dm lt by (metis add.commute dvd_diff_nat dvd_imp_le le_diff_conv2
        less_imp_le_nat zero_less_diff)
  then have "?m + unat b < 2 ^ LENGTH('a)" using assms(1) by linarith
  then show ?thesis
    using unat_or_disjoint [OF and_push_bit_low [OF assms(1)]] by (simp add: unat_push_bit)
qed

section \<open>Lists\<close>

lemma upt_join: "i \<le> j \<Longrightarrow> j \<le> k \<Longrightarrow> [i..<k] = [i..<j] @ [j..<k]"
  using upt_add_eq_append [of i j "k - j"] by simp

end
