(* ===== verification/Ct.thy ===== *)
theory Ct
  imports Prelude
begin

text \<open>
  The constant-time byte and multiply primitives: \<open>src/ct.c\<close>, \<open>src/ct_wipe.c\<close>, the
  inline multiplies of \<open>src/ct.h\<close> (the decomposed forms a device build runs) and the
  software multiply of \<open>src/softmul.c\<close>.  The lemmas show that each routine computes the
  exact value its contract names: a byte compare, a wipe that writes its bytes and
  nothing else, the full 64-bit product out of 16-bit halves, signed and unsigned.
\<close>

section \<open>Model\<close>

subsection \<open>Compare and wipe\<close>

definition ct_memeq :: "bytes \<Rightarrow> bytes \<Rightarrow> nat \<Rightarrow> u32" where
  "ct_memeq a b n =
     (let diff = foldl (\<lambda>diff i. diff OR ucast (a ! i XOR b ! i)) (0 :: u32) [0..<n]
      in 1 AND drop_bit 8 (diff - 1))"

definition ct_memeq_public :: "bytes \<Rightarrow> bytes \<Rightarrow> nat \<Rightarrow> u32" where
  "ct_memeq_public a b n = (let verdict = ct_memeq a b n in verdict)"

text \<open>
  \<open>word_size\<close> is \<open>sizeof(ct_wipe_word)\<close>, 16 or 4; \<open>addr\<close> is \<open>(uintptr_t)p\<close>.  A store
  through the word lvalue writes \<open>word_size\<close> consecutive bytes.
\<close>

definition store_zero :: "bytes \<Rightarrow> nat \<Rightarrow> bytes" where
  "store_zero m i = m[i := 0]"

definition ct_wipe :: "nat \<Rightarrow> nat \<Rightarrow> bytes \<Rightarrow> nat \<Rightarrow> bytes" where
  "ct_wipe word_size addr p n =
     (let head = (2 ^ 64 - addr mod 2 ^ 64) mod 2 ^ 64 mod word_size;
          head = (if head > n then n else head);
          word_count = (n - head) div word_size;
          tail = head + word_count * word_size;
          p = foldl store_zero p [0..<head];
          p = foldl (\<lambda>p i. foldl store_zero p [head + i * word_size ..< head + (i + 1) * word_size])
                p [0..<word_count]
      in foldl store_zero p [tail..<n])"

subsection \<open>Widening multiplies\<close>

definition ct_widemul :: "u32 \<Rightarrow> u32 \<Rightarrow> u64" where
  "ct_widemul a b =
     (let al = a AND 0xFFFF;
          ah = drop_bit 16 a;
          bl = b AND 0xFFFF;
          bh = drop_bit 16 b;
          ll = al * bl;
          lh = al * bh;
          hl = ah * bl;
          hh = ah * bh;
          t = hl + drop_bit 16 ll;
          w1 = (t AND 0xFFFF) + lh;
          hi = hh + drop_bit 16 t + drop_bit 16 w1;
          lo = push_bit 16 w1 OR (ll AND 0xFFFF)
      in push_bit 32 (ucast hi) OR ucast lo)"

definition ct_widemul_opaque :: "u32 \<Rightarrow> u32 \<Rightarrow> u64" where
  "ct_widemul_opaque a b =
     (let al = a AND 0xFFFF;
          ah = drop_bit 16 a;
          bl = b AND 0xFFFF;
          bh = drop_bit 16 b;
          ll = al * bl;
          lh = al * bh;
          hl = ah * bl;
          hh = ah * bh;
          mid = lh + hl;
          mid_carry = (if mid < lh then 1 else 0 :: u32);
          lo = ll + push_bit 16 mid;
          lo_carry = (if lo < ll then 1 else 0 :: u32);
          hi = hh + drop_bit 16 mid + push_bit 16 mid_carry + lo_carry
      in push_bit 32 (ucast hi) OR ucast lo)"

definition ct_mulsmall :: "u64 \<Rightarrow> u32 \<Rightarrow> u64" where
  "ct_mulsmall a k =
     (let lo = ct_widemul (ucast a) k;
          hi = ucast (drop_bit 32 a) * k
      in lo + push_bit 32 (ucast hi))"

text \<open>An \<open>int32_t\<close> is its two's complement word, read with \<open>sint\<close>; \<open>>>\<close> on it is arithmetic.\<close>

definition ct_widemul_s :: "u32 \<Rightarrow> u32 \<Rightarrow> u64" where
  "ct_widemul_s a b =
     (let al = a AND 0xFFFF;
          ah = signed_drop_bit 16 a;
          bl = b AND 0xFFFF;
          bh = signed_drop_bit 16 b;
          ll = al * bl;
          lh = al * bh;
          hl = ah * bl;
          hh = ah * bh;
          t = hl + drop_bit 16 ll;
          w1 = (t AND 0xFFFF) + lh;
          hi = hh + signed_drop_bit 16 t + signed_drop_bit 16 w1;
          lo = push_bit 16 w1 OR (ll AND 0xFFFF)
      in push_bit 32 (ucast hi) OR ucast lo)"

subsection \<open>Software multiply\<close>

text \<open>One pass of the loop, on \<open>(acc, a, b)\<close>.\<close>

definition softmul_step :: "'a::len word \<times> 'a word \<times> 'a word \<Rightarrow> 'a word \<times> 'a word \<times> 'a word" where
  "softmul_step s =
     (case s of (acc, a, b) \<Rightarrow>
        let mask = signed_drop_bit (LENGTH('a) - 1) (push_bit (LENGTH('a) - 1) b)
        in (acc + (a AND mask), push_bit 1 a, drop_bit 1 b))"

definition mulsi3 :: "u32 \<Rightarrow> u32 \<Rightarrow> u32" where
  "mulsi3 a b = fst ((softmul_step ^^ 32) (0, a, b))"

definition muldi3 :: "u64 \<Rightarrow> u64 \<Rightarrow> u64" where
  "muldi3 a b = fst ((softmul_step ^^ 64) (0, a, b))"

text \<open>The value a pass of the loop keeps: the partial sum plus what the remaining bits add.\<close>

definition softmul_value :: "'a::len word \<times> 'a word \<times> 'a word \<Rightarrow> 'a word" where
  "softmul_value s = (case s of (acc, a, b) \<Rightarrow> acc + a * b)"

section \<open>Compare and wipe\<close>

lemma foldl_or_zero_iff:
  "foldl (\<lambda>d i. d OR f i) (d :: 'a::len word) is = 0 \<longleftrightarrow> d = 0 \<and> (\<forall>i \<in> set is. f i = 0)"
  by (induction "is" arbitrary: d) (auto simp: or_eq_0_iff)

lemma foldl_or_take_bit:
  assumes "take_bit n d = (d :: 'a::len word)" and "\<And>i. take_bit n (f i) = f i"
  shows "take_bit n (foldl (\<lambda>d i. d OR f i) d is) = foldl (\<lambda>d i. d OR f i) d is"
  using assms(1) by (induction "is" arbitrary: d) (simp_all add: take_bit_or assms(2))

lemma byte_xor_eq_0_iff: "(ucast ((x :: u8) XOR y) :: u32) = 0 \<longleftrightarrow> x = y"
proof -
  have "(ucast (x XOR y) :: u32) = 0 \<longleftrightarrow> x XOR y = 0"
    by (simp add: word_unat_eq_iff)
  also have "\<dots> \<longleftrightarrow> x = y"
    by (simp add: bit_eq_iff bit_xor_iff)
  finally show ?thesis .
qed

lemma byte_flag:
  assumes "take_bit 8 d = (d :: u32)"
  shows "1 AND drop_bit 8 (d - 1) = (if d = 0 then 1 else 0)"
proof (cases "d = 0")
  case True
  have "1 AND drop_bit 8 (- 1 :: u32) = 1" by (simp add: mask_numeral)
  then show ?thesis using True by simp
next
  case False
  have "unat d mod 256 = unat d" using assms by (metis numeral_pow2_8 unat_take_bit)
  then have lt: "unat d < 256" by (metis mod_less_divisor zero_less_numeral)
  have "unat (d - 1) = unat d - 1"
    using False by (simp add: unat_minus_one)
  then have "unat (drop_bit 8 (d - 1)) = 0"
    using lt by (simp add: unat_drop_bit)
  then have "drop_bit 8 (d - 1) = 0" by (simp add: unat_eq_zero)
  then show ?thesis using False by simp
qed

lemma ct_memeq_iff:
  assumes "n \<le> length a" and "n \<le> length b"
  shows "ct_memeq a b n = (if take n a = take n b then 1 else 0)"
proof -
  let ?f = "\<lambda>i. ucast (a ! i XOR b ! i) :: u32"
  let ?d = "foldl (\<lambda>d i. d OR ?f i) 0 [0..<n]"
  have "take_bit 8 (?f i) = ?f i" for i
    unfolding word_unat_eq_iff unat_take_bit by simp
  then have "take_bit 8 ?d = ?d" by (intro foldl_or_take_bit) simp_all
  then have "ct_memeq a b n = (if ?d = 0 then 1 else 0)"
    by (simp add: ct_memeq_def Let_def byte_flag)
  moreover have "?d = 0 \<longleftrightarrow> (\<forall>i < n. a ! i = b ! i)"
    unfolding foldl_or_zero_iff byte_xor_eq_0_iff by auto
  moreover have "\<dots> \<longleftrightarrow> take n a = take n b"
    using assms by (auto simp: list_eq_iff_nth_eq)
  ultimately show ?thesis by simp
qed


lemma length_store_zeros [simp]: "length (foldl store_zero m is) = length m"
  by (induction "is" arbitrary: m) (simp_all add: store_zero_def)

lemma nth_store_zeros:
  "k < length m \<Longrightarrow> foldl store_zero m is ! k = (if k \<in> set is then 0 else m ! k)"
  by (induction "is" arbitrary: m) (auto simp: store_zero_def nth_list_update)

text \<open>The nested word loop writes one run of consecutive bytes.\<close>

lemma foldl_concat_upt:
  "foldl (\<lambda>p i. foldl f p [h + i * w ..< h + (i + 1) * w]) p [0..<c] = foldl f p [h ..< h + c * w]"
proof (induction c)
  case (Suc c)
  have "[h ..< h + Suc c * w] = [h ..< h + c * w] @ [h + c * w ..< h + (c + 1) * w]"
    by (simp add: upt_join)
  then show ?case using Suc by simp
qed simp

lemma ct_wipe_eq:
  assumes "n \<le> length p" and "0 < word_size"
  shows "ct_wipe word_size addr p n = replicate n 0 @ drop n p"
proof -
  define h0 where "h0 = (2 ^ 64 - addr mod 2 ^ 64) mod 2 ^ 64 mod word_size"
  define h where "h = (if h0 > n then n else h0)"
  define c where "c = (n - h) div word_size"
  have h: "h \<le> n" by (simp add: h_def)
  have t: "h + c * word_size \<le> n"
    using h div_times_less_eq_dividend [of "n - h" word_size] unfolding c_def by linarith
  have "[0..<n] = [0..<h] @ [h..<h + c * word_size] @ [h + c * word_size..<n]"
    using h t upt_join [of 0 h n] upt_join [of h "h + c * word_size" n] by simp
  then have "ct_wipe word_size addr p n = foldl store_zero p [0..<n]"
    unfolding ct_wipe_def Let_def foldl_concat_upt h0_def [symmetric] h_def [symmetric] c_def [symmetric]
    by simp
  also have "\<dots> = replicate n 0 @ drop n p"
    using assms(1) by (intro nth_equalityI) (auto simp: nth_store_zeros nth_append)
  finally show ?thesis .
qed

section \<open>Widening multiplies\<close>

lemma mask16: "(0xFFFF :: 'a::len word) = mask 16"
  by (simp add: mask_eq_exp_minus_1)

lemma unat_low16 [unat_simps]: "unat (x AND 0xFFFF) = unat (x :: 'a::len word) mod 65536"
  unfolding mask16 unat_and_mask_eq by simp

text \<open>A product of two 16-bit halves fits 32 bits.\<close>

lemma half_product:
  assumes "x < 65536" and "y < (65536 :: nat)"
  shows "x * y \<le> 4294836225"
proof -
  have "x * y \<le> 65535 * 65535" using assms by (intro mult_le_mono) simp_all
  then show ?thesis by simp
qed

lemma half_less: "unat (x :: u32) div 65536 < 65536"
  using unat_u32_less [of x] by linarith

lemma unat_half_product:
  "unat (x :: u32) < 65536 \<Longrightarrow> unat y < 65536 \<Longrightarrow> unat (x * y) = unat x * unat y"
  using half_product [of "unat x" "unat y"] by (simp add: unat_word_ariths)

lemma unat_join_words: "unat (push_bit 32 (ucast (hi :: u32)) OR ucast (lo :: u32) :: u64) =
    unat hi * 4294967296 + unat lo"
proof -
  have "unat (ucast lo :: u64) < 2 ^ 32" using unat_u32_less [of lo] by simp
  then have "unat (push_bit 32 (ucast hi) OR ucast lo :: u64) =
      (unat (ucast hi :: u64) * 2 ^ 32) mod 2 ^ 64 + unat (ucast lo :: u64)"
    by (subst unat_join) simp_all
  moreover have "unat hi * 4294967296 < 18446744073709551616"
    using unat_u32_less [of hi] by linarith
  ultimately show ?thesis by simp
qed

lemma unat_join_halves: "unat (push_bit 16 (w :: u32) OR (l AND 0xFFFF)) =
    (unat w mod 65536) * 65536 + unat l mod 65536"
proof -
  have "unat (l AND 0xFFFF) < 2 ^ 16" by (simp add: unat_low16)
  then have "unat (push_bit 16 w OR (l AND 0xFFFF)) =
      (unat w * 2 ^ 16) mod 2 ^ 32 + unat (l AND 0xFFFF)"
    by (subst unat_join) simp_all
  moreover have "(unat w * 65536) mod 4294967296 = (unat w mod 65536) * 65536"
    using mult_mod_left [of "unat w" 65536 65536] by simp
  ultimately show ?thesis by (simp add: unat_low16)
qed

lemma split_product:
  "((ah :: 'a::comm_semiring_1) * 65536 + al) * (bh * 65536 + bl) =
     ah * bh * 4294967296 + (al * bh + ah * bl) * 65536 + al * bl"
  by (simp add: algebra_simps)

lemma product_of_halves:
  "(a :: nat) * b = (a div 65536) * (b div 65536) * 4294967296
     + ((a mod 65536) * (b div 65536) + (a div 65536) * (b mod 65536)) * 65536
     + (a mod 65536) * (b mod 65536)"
  unfolding split_product [symmetric] by (simp only: div_mult_mod_eq)

text \<open>The recombination of the four half products, on \<open>nat\<close>: no sum passes 32 bits.\<close>

lemma ladder_fits:
  assumes "ll \<le> 4294836225" and "lh \<le> 4294836225" and "hl \<le> (4294836225 :: nat)"
  shows "hl + ll div 65536 < 4294967296" and "(t :: nat) mod 65536 + lh < 4294967296"
proof -
  have "ll div 65536 \<le> 65535" using assms(1) by linarith
  then show "hl + ll div 65536 < 4294967296" using assms(3) by linarith
  have "t mod 65536 < 65536" by simp
  then show "t mod 65536 + lh < 4294967296" using assms(2) by linarith
qed

lemma regroup: "(a + b + c) * 4294967296 + (d * 65536 + e) =
    a * 4294967296 + (b * 65536 + (c * 65536 + d)) * 65536 + (e :: nat)"
  by (simp add: algebra_simps)

lemma high_word_fits: "x * 4294967296 + y < 18446744073709551616 \<Longrightarrow> x < (4294967296 :: nat)"
  by linarith

lemma ladder:
  assumes t: "t = hl + ll div (65536 :: nat)" and w: "w = t mod 65536 + lh"
  shows "(hh + t div 65536 + w div 65536) * 4294967296 + ((w mod 65536) * 65536 + ll mod 65536) =
    hh * 4294967296 + (lh + hl) * 65536 + ll"
proof -
  have "(hh + t div 65536 + w div 65536) * 4294967296 + ((w mod 65536) * 65536 + ll mod 65536) =
      hh * 4294967296 + ((t div 65536) * 65536 + ((w div 65536) * 65536 + w mod 65536)) * 65536 + ll mod 65536"
    by (rule regroup)
  also have "(w div 65536) * 65536 + w mod 65536 = w" by simp
  also have "(t div 65536) * 65536 + w = t + lh" unfolding w by simp
  also have "hh * 4294967296 + (t + lh) * 65536 + ll mod 65536 =
      hh * 4294967296 + (lh + hl) * 65536 + ((ll div 65536) * 65536 + ll mod 65536)"
    unfolding t by (simp only: distrib_right add.assoc add.commute add.left_commute)
  finally show ?thesis by simp
qed

lemma unat_ct_widemul: "unat (ct_widemul a b) = unat a * unat b"
proof -
  define al ah bl bh where h: "al = a AND 0xFFFF" "ah = drop_bit 16 a" "bl = b AND 0xFFFF" "bh = drop_bit 16 b"
  have lt: "unat al < 65536" "unat ah < 65536" "unat bl < 65536" "unat bh < 65536"
    by (simp_all add: h unat_simps half_less)
  note pr = unat_half_product [OF lt(1) lt(3)] unat_half_product [OF lt(1) lt(4)]
    unat_half_product [OF lt(2) lt(3)] unat_half_product [OF lt(2) lt(4)]
  define t where "t = ah * bl + drop_bit 16 (al * bl)"
  define w where "w = (t AND 0xFFFF) + al * bh"
  define hi where "hi = ah * bh + drop_bit 16 t + drop_bit 16 w"
  note bnd = half_product [OF lt(1) lt(3)] half_product [OF lt(1) lt(4)]
    half_product [OF lt(2) lt(3)] half_product [OF lt(2) lt(4)]
  have t: "unat t = unat ah * unat bl + (unat al * unat bl) div 65536"
    using ladder_fits(1) [OF bnd(1) bnd(2) bnd(3)] by (simp add: t_def unat_word_ariths(1) pr unat_drop_bit)
  have w: "unat w = unat t mod 65536 + unat al * unat bh"
    using ladder_fits(2) [OF bnd(1) bnd(2) bnd(3)] by (simp add: w_def unat_word_ariths(1) pr unat_low16)
  note lad = ladder [OF t w, of "unat ah * unat bh"]
  have eq: "unat a * unat b = (unat ah * unat bh) * 4294967296
      + (unat al * unat bh + unat ah * unat bl) * 65536 + unat al * unat bl"
    using product_of_halves [of "unat a" "unat b"] by (simp add: h unat_simps)
  have ab: "unat a * unat b < 18446744073709551616"
    using mult_strict_mono [of "unat a" 4294967296 "unat b" 4294967296] by simp
  have "unat ah * unat bh + unat t div 65536 + unat w div 65536 < 4294967296"
    using high_word_fits [of _ "unat w mod 65536 * 65536 + unat al * unat bl mod 65536"] ab
    unfolding eq lad [symmetric] by blast
  then have hi: "unat hi = unat ah * unat bh + unat t div 65536 + unat w div 65536"
    by (simp add: hi_def unat_word_ariths(1) pr unat_drop_bit)
  have "unat (ct_widemul a b) =
      unat hi * 4294967296 + ((unat w mod 65536) * 65536 + unat (al * bl) mod 65536)"
    unfolding ct_widemul_def Let_def h [symmetric] t_def [symmetric] w_def [symmetric] hi_def [symmetric]
    by (simp add: unat_join_words unat_join_halves)
  then show ?thesis using lad unfolding eq hi pr by simp
qed


text \<open>A sum taken modulo \<open>2^32\<close> and its carry, read off by the compare the code makes.\<close>

lemma carry_of_sum:
  "unat ((x :: u32) + y) + (if x + y < x then 4294967296 else 0) = unat x + unat y"
proof (cases "unat x + unat y < 4294967296")
  case True
  then have "unat (x + y) = unat x + unat y" by (simp add: unat_word_ariths)
  then show ?thesis by (simp add: word_less_nat_alt)
next
  case False
  have "unat x + unat y < 4294967296 + 4294967296"
    using unat_u32_less [of x] unat_u32_less [of y] by linarith
  then have "unat (x + y) = unat x + unat y - 4294967296"
    using False by (simp add: unat_word_ariths le_mod_geq)
  moreover have "unat x + unat y - 4294967296 < unat x"
    using False unat_u32_less [of y] by linarith
  ultimately show ?thesis using False by (simp add: word_less_nat_alt)
qed

lemma carry_regroup:
  assumes mid: "m + (if c then 4294967296 else 0) = lh + hl"
    and lo: "l + (if d then 4294967296 else 0) = ll + (m mod 65536) * 65536"
  shows "(hh + m div 65536 + (if c then 65536 else 0) + (if d then 1 else 0)) * 4294967296 + l =
    hh * 4294967296 + (lh + hl) * 65536 + (ll :: nat)"
proof -
  have "m = (m div 65536) * 65536 + m mod 65536" by simp
  then obtain q r where m: "m = q * 65536 + r" and q: "m div 65536 = q" and r: "m mod 65536 = r" by blast
  show ?thesis using mid lo unfolding q r by (cases c; cases d) (simp_all add: m)
qed

lemma unat_ct_widemul_opaque: "unat (ct_widemul_opaque a b) = unat a * unat b"
proof -
  define al ah bl bh where h: "al = a AND 0xFFFF" "ah = drop_bit 16 a" "bl = b AND 0xFFFF" "bh = drop_bit 16 b"
  have lt: "unat al < 65536" "unat ah < 65536" "unat bl < 65536" "unat bh < 65536"
    by (simp_all add: h unat_simps half_less)
  note pr = unat_half_product [OF lt(1) lt(3)] unat_half_product [OF lt(1) lt(4)]
    unat_half_product [OF lt(2) lt(3)] unat_half_product [OF lt(2) lt(4)]
  define mid where "mid = al * bh + ah * bl"
  define lo where "lo = al * bl + push_bit 16 mid"
  define c d where cd: "c = (mid < al * bh)" "d = (lo < al * bl)"
  define hi where "hi = ah * bh + drop_bit 16 mid + push_bit 16 (if c then 1 else 0) + (if d then 1 else 0)"
  have mid: "unat mid + (if c then 4294967296 else 0) = unat al * unat bh + unat ah * unat bl"
    using carry_of_sum [of "al * bh" "ah * bl"] by (simp add: mid_def cd pr)
  have sh: "unat (push_bit 16 mid) = (unat mid mod 65536) * 65536"
    using mult_mod_left [of "unat mid" 65536 65536] by (simp add: unat_push_bit)
  have lo: "unat lo + (if d then 4294967296 else 0) = unat al * unat bl + (unat mid mod 65536) * 65536"
    using carry_of_sum [of "al * bl" "push_bit 16 mid"] by (simp add: lo_def cd pr sh)
  note grp = carry_regroup [OF mid lo, of "unat ah * unat bh"]
  have eq: "unat a * unat b = (unat ah * unat bh) * 4294967296
      + (unat al * unat bh + unat ah * unat bl) * 65536 + unat al * unat bl"
    using product_of_halves [of "unat a" "unat b"] by (simp add: h unat_simps)
  have ab: "unat a * unat b < 18446744073709551616"
    using mult_strict_mono [of "unat a" 4294967296 "unat b" 4294967296] by simp
  have "unat ah * unat bh + unat mid div 65536 + (if c then 65536 else 0) + (if d then 1 else 0) < 4294967296"
    using high_word_fits [of _ "unat lo"] ab unfolding eq grp [symmetric] by blast
  then have hi: "unat hi = unat ah * unat bh + unat mid div 65536 + (if c then 65536 else 0) + (if d then 1 else 0)"
    by (cases c; cases d) (simp_all add: hi_def unat_word_ariths(1) pr unat_drop_bit)
  have "ct_widemul_opaque a b = push_bit 32 (ucast hi) OR ucast lo"
    unfolding ct_widemul_opaque_def Let_def h [symmetric] mid_def [symmetric] lo_def [symmetric] cd [symmetric]
    by (simp add: hi_def)
  then have "unat (ct_widemul_opaque a b) = unat hi * 4294967296 + unat lo"
    by (simp add: unat_join_words)
  then show ?thesis using grp unfolding eq hi by simp
qed

lemma ct_widemul_eq: "ct_widemul a b = ucast a * ucast b"
proof -
  have "unat a * unat b < 18446744073709551616"
    using mult_strict_mono [of "unat a" 4294967296 "unat b" 4294967296] by simp
  then show ?thesis
    by (simp add: word_unat_eq_iff unat_ct_widemul unat_word_ariths)
qed

lemma ct_mulsmall_eq: "ct_mulsmall a k = a * ucast k"
proof -
  define l h where lh: "l = (ucast a :: u32)" "h = (ucast (drop_bit 32 a) :: u32)"
  have l: "unat l = unat a mod 4294967296" by (simp add: lh unat_ucast_mod)
  have "unat a div 4294967296 < 4294967296" using unat_u64_less [of a] by linarith
  then have h: "unat h = unat a div 4294967296" by (simp add: lh unat_ucast_mod unat_drop_bit)
  have a: "unat a = unat h * 4294967296 + unat l" by (simp add: l h)
  have "ct_mulsmall a k = ct_widemul l k + push_bit 32 (ucast (h * k))"
    by (simp add: ct_mulsmall_def lh Let_def)
  also have "unat \<dots> = (unat l * unat k + ((unat h * unat k) mod 4294967296) * 4294967296) mod 18446744073709551616"
    by (simp add: unat_word_ariths unat_ct_widemul unat_push_bit mod_add_right_eq)
  also have "((unat h * unat k) mod 4294967296) * 4294967296 =
      ((unat h * unat k) * 4294967296) mod 18446744073709551616"
    using mult_mod_left [of "unat h * unat k" 4294967296 4294967296] by simp
  also have "(unat l * unat k + \<dots>) mod 18446744073709551616 =
      (unat l * unat k + unat h * unat k * 4294967296) mod 18446744073709551616"
    by (rule mod_add_right_eq)
  also have "unat l * unat k + unat h * unat k * 4294967296 = unat a * unat k"
    unfolding a by (simp only: distrib_right mult.assoc mult.commute [of 4294967296] add.commute)
  finally have "unat (ct_mulsmall a k) = unat (a * ucast k)" by (simp add: unat_word_ariths)
  then show ?thesis by (simp add: word_unat_eq_iff)
qed


subsection \<open>The signed product\<close>

text \<open>Each step of the signed ladder, on words given as the integers they stand for.\<close>

lemma sint_of_int: "- 2147483648 \<le> k \<Longrightarrow> k < 2147483648 \<Longrightarrow> sint (of_int k :: u32) = k"
  by (simp add: int_word_sint)

lemma of_int_sint_low: "(a :: u32) AND 0xFFFF = of_int (sint a mod 65536)"
proof -
  have "a AND 0xFFFF = take_bit 16 a" by (simp add: mask16 take_bit_eq_mask)
  also have "\<dots> = take_bit 16 (of_int (sint a))" by simp
  also have "\<dots> = of_int (take_bit 16 (sint a))" by (simp only: take_bit_of_int)
  finally show ?thesis by (simp add: take_bit_eq_mod)
qed

lemma of_int_sint_high: "signed_drop_bit 16 (a :: u32) = of_int (sint a div 65536)"
proof -
  have "sint (signed_drop_bit 16 a) = sint a div 65536"
    by (simp add: sint_signed_drop_bit_eq drop_bit_eq_div)
  then have "of_int (sint (signed_drop_bit 16 a)) = (of_int (sint a div 65536) :: u32)" by simp
  then show ?thesis by simp
qed

lemma sint_range: "- 2147483648 \<le> sint (a :: u32)" "sint (a :: u32) < 2147483648"
  using sint_ge [of a] sint_lt [of a] by simp_all

lemma mul_range:
  assumes "- 32768 \<le> h" and "h < 32768" and "0 \<le> l" and "l < (65536 :: int)"
  shows "- 2147450880 \<le> h * l" and "h * l \<le> 2147385345"
proof -
  have "h * l \<le> 32767 * l" using assms by (intro mult_right_mono) simp_all
  then show "h * l \<le> 2147385345" using assms by linarith
  have "- 32768 * l \<le> h * l" using assms by (intro mult_right_mono) simp_all
  then show "- 2147450880 \<le> h * l" using assms by linarith
qed


lemma uint_of_int_less: "0 \<le> k \<Longrightarrow> k < 4294967296 \<Longrightarrow> uint (of_int k :: u32) = k"
  by (simp add: uint_word_of_int)

lemma drop_bit_of_int:
  "0 \<le> k \<Longrightarrow> k < 4294967296 \<Longrightarrow> drop_bit 16 (of_int k :: u32) = of_int (k div 65536)"
  unfolding word_unat_eq_iff unat_drop_bit
  by (simp add: uint_of_int_less nat_div_distrib pos_imp_zdiv_nonneg_iff unat_eq_nat_uint)

lemma join_of_int:
  assumes "0 \<le> lo" and "lo < 4294967296"
  shows "(push_bit 32 (ucast (of_int hi :: u32)) OR ucast (of_int lo :: u32) :: u64) =
    of_int (hi * 4294967296 + lo)"
proof -
  have "int (unat (push_bit 32 (ucast (of_int hi :: u32)) OR ucast (of_int lo :: u32) :: u64)) =
      uint (of_int hi :: u32) * 4294967296 + uint (of_int lo :: u32)"
    unfolding unat_join_words by simp
  then have "uint (push_bit 32 (ucast (of_int hi :: u32)) OR ucast (of_int lo :: u32) :: u64) =
      (hi mod 4294967296) * 4294967296 + lo"
    using assms by (simp add: uint_word_of_int)
  also have "(hi mod 4294967296) * 4294967296 = (hi * 4294967296) mod 18446744073709551616"
    using mult_mod_left [of hi 4294967296 4294967296] by simp
  finally have "uint (push_bit 32 (ucast (of_int hi :: u32)) OR ucast (of_int lo :: u32) :: u64) mod 18446744073709551616 =
      (hi * 4294967296 + lo) mod 18446744073709551616"
    by (simp add: mod_add_left_eq)
  then have "(of_int (uint (push_bit 32 (ucast (of_int hi :: u32)) OR ucast (of_int lo :: u32) :: u64)) :: u64) =
      of_int (hi * 4294967296 + lo)"
    unfolding word_of_int_eq_iff take_bit_eq_mod by simp
  then show ?thesis by (simp only: word_of_int_uint)
qed

lemma low_of_int: "push_bit 16 (of_int w :: u32) OR (of_int l AND 0xFFFF) =
    of_int ((w mod 65536) * 65536 + l mod 65536)"
proof -
  have "int (unat (push_bit 16 (of_int w :: u32) OR (of_int l AND 0xFFFF))) =
      (w mod 4294967296) mod 65536 * 65536 + (l mod 4294967296) mod 65536"
    unfolding unat_join_halves by (simp add: zmod_int uint_word_of_int)
  also have "\<dots> = (w mod 65536) * 65536 + l mod 65536"
    by (simp add: mod_mod_cancel)
  finally have "uint (push_bit 16 (of_int w :: u32) OR (of_int l AND 0xFFFF)) =
      (w mod 65536) * 65536 + l mod 65536" by simp
  then have "(of_int (uint (push_bit 16 (of_int w :: u32) OR (of_int l AND 0xFFFF))) :: u32) =
      of_int ((w mod 65536) * 65536 + l mod 65536)" by (rule arg_cong)
  then show ?thesis by (simp only: word_of_int_uint)
qed

lemma low_range:
  "0 \<le> ((w :: int) mod 65536) * 65536 + l mod 65536" "((w :: int) mod 65536) * 65536 + l mod 65536 < 4294967296"
proof -
  have "0 \<le> w mod 65536" "w mod 65536 < 65536" "0 \<le> l mod 65536" "l mod 65536 < 65536" by simp_all
  then show "0 \<le> (w mod 65536) * 65536 + l mod 65536" "(w mod 65536) * 65536 + l mod 65536 < 4294967296"
    by linarith+
qed

lemma ladder_int:
  assumes t: "t = hl + ll div (65536 :: int)" and w: "w = t mod 65536 + lh"
  shows "(hh + t div 65536 + w div 65536) * 4294967296 + ((w mod 65536) * 65536 + ll mod 65536) =
    hh * 4294967296 + (lh + hl) * 65536 + ll"
proof -
  have "(a + b + c) * 4294967296 + (d * 65536 + e) =
      a * 4294967296 + (b * 65536 + (c * 65536 + d)) * 65536 + e" for a b c d e :: int
    by (simp add: algebra_simps)
  then have "(hh + t div 65536 + w div 65536) * 4294967296 + ((w mod 65536) * 65536 + ll mod 65536) =
      hh * 4294967296 + ((t div 65536) * 65536 + ((w div 65536) * 65536 + w mod 65536)) * 65536 + ll mod 65536" .
  also have "(w div 65536) * 65536 + w mod 65536 = w" by simp
  also have "(t div 65536) * 65536 + w = t + lh" unfolding w by simp
  also have "hh * 4294967296 + (t + lh) * 65536 + ll mod 65536 =
      hh * 4294967296 + (lh + hl) * 65536 + ((ll div 65536) * 65536 + ll mod 65536)"
    unfolding t by (simp only: distrib_right add.assoc add.commute add.left_commute)
  finally show ?thesis by simp
qed

lemma ct_widemul_s_of_int: "ct_widemul_s a b = of_int (sint a * sint b)"
proof -
  define AH AL BH BL where d: "AH = sint a div 65536" "AL = sint a mod 65536"
    "BH = sint b div 65536" "BL = sint b mod 65536"
  have r: "- 32768 \<le> AH" "AH < 32768" "0 \<le> AL" "AL < 65536" "- 32768 \<le> BH" "BH < 32768" "0 \<le> BL" "BL < 65536"
    using sint_range [of a] sint_range [of b] unfolding d by linarith+
  have "AL * BL \<le> 65535 * 65535" using r by (intro mult_mono) simp_all
  then have ll: "0 \<le> AL * BL" "AL * BL < 4294967296" using r by simp_all
  define Q where Q: "Q = AL * BL div 65536"
  define T W where T': "T = AH * BL + Q" and W: "W = T mod 65536 + AL * BH"
  note T = T' [unfolded Q]
  have q: "0 \<le> Q" "Q < 65536" using ll unfolding Q by linarith+
  have Tr: "- 2147483648 \<le> T" "T < 2147483648"
    using mul_range [OF r(1,2,7,8)] q unfolding T' by linarith+
  have Tm: "0 \<le> T mod 65536" "T mod 65536 < 65536" by simp_all
  have Wr: "- 2147483648 \<le> W" "W < 2147483648"
    using mul_range [OF r(5,6,3,4)] Tm unfolding W mult.commute [of AL BH] by linarith+
  have "0 \<le> (W mod 65536) * 65536 + (AL * BL) mod 65536"
    "(W mod 65536) * 65536 + (AL * BL) mod 65536 < 4294967296"
    by (rule low_range)+
  note join = join_of_int [OF this, of "AH * BH + T div 65536 + W div 65536"]
  have t: "of_int AH * of_int BL + drop_bit 16 (of_int AL * of_int BL) = (of_int T :: u32)"
    using drop_bit_of_int [OF ll] by (simp add: T)
  have w: "((of_int T :: u32) AND 0xFFFF) + of_int AL * of_int BH = of_int W"
    by (simp add: of_int_sint_low sint_of_int [OF Tr] W)
  have "ct_widemul_s a b = push_bit 32 (ucast (of_int (AH * BH + T div 65536 + W div 65536) :: u32))
      OR ucast (of_int ((W mod 65536) * 65536 + (AL * BL) mod 65536) :: u32)"
    unfolding ct_widemul_s_def Let_def of_int_sint_low [of a] of_int_sint_low [of b]
      of_int_sint_high [of a] of_int_sint_high [of b] d [symmetric] t w
    unfolding of_int_sint_high sint_of_int [OF Tr] sint_of_int [OF Wr]
    by (simp only: of_int_mult [symmetric] of_int_add [symmetric] low_of_int)
  also have "\<dots> = of_int (AH * BH * 4294967296 + (AL * BH + AH * BL) * 65536 + AL * BL)"
    unfolding join ladder_int [OF T W] ..
  also have "AH * BH * 4294967296 + (AL * BH + AH * BL) * 65536 + AL * BL = sint a * sint b"
    unfolding split_product [symmetric] d by (simp only: div_mult_mod_eq)
  finally show ?thesis .
qed

lemma sint_ct_widemul_s: "sint (ct_widemul_s a b) = sint a * sint b"
proof -
  have "\<bar>sint a * sint b\<bar> \<le> 2147483648 * 2147483648"
    using sint_range [of a] sint_range [of b] by (simp only: abs_mult) (intro mult_mono, auto)
  then have "- 9223372036854775808 \<le> sint a * sint b" "sint a * sint b < 9223372036854775808"
    by linarith+
  then show ?thesis unfolding ct_widemul_s_of_int int_word_sint by simp
qed

section \<open>Software multiply\<close>

text \<open>The mask is the multiplier's low bit in every position.\<close>

lemma softmul_mask:
  "signed_drop_bit (LENGTH('a) - 1) (push_bit (LENGTH('a) - 1) (b :: 'a::len word)) =
     (if odd b then - 1 else 0)"
proof (rule bit_word_eqI)
  fix k assume "k < LENGTH('a)"
  then show "bit (signed_drop_bit (LENGTH('a) - 1) (push_bit (LENGTH('a) - 1) b)) k =
      bit (if odd b then - 1 else 0 :: 'a word) k"
    by (auto simp: bit_signed_drop_bit_iff bit_push_bit_iff bit_0)
qed

text \<open>The loop keeps \<open>acc + a * b\<close>, and shifts \<open>b\<close> out.\<close>

lemma softmul_step_eq:
  "softmul_step (acc, a, b) = (if odd b then acc + a else acc, 2 * a, drop_bit 1 b)"
  unfolding softmul_step_def Let_def prod.case softmul_mask by (simp add: push_bit_eq_mult)

lemma word_halve: "(b :: 'a::len word) = of_bool (odd b) + 2 * drop_bit 1 b"
  using mult_div_mod_eq [of 2 b] by (simp add: drop_bit_eq_div mod_2_eq_odd [symmetric] add.commute)

lemma softmul_step_value: "softmul_value (softmul_step s) = softmul_value s"
proof (cases s)
  case (fields acc a b)
  have "a * b = a * (of_bool (odd b) + 2 * drop_bit 1 b)" using word_halve [of b] by simp
  then show ?thesis
    by (simp add: fields softmul_value_def softmul_step_eq algebra_simps)
qed

lemma softmul_steps:
  "softmul_value ((softmul_step ^^ n) (0, a, b)) = a * b"
  "snd (snd ((softmul_step ^^ n) (0, a, b))) = drop_bit n b"
proof (induction n)
  case 0
  show "softmul_value ((softmul_step ^^ 0) (0, a, b)) = a * b"
    and "snd (snd ((softmul_step ^^ 0) (0, a, b))) = drop_bit 0 b" by (simp_all add: softmul_value_def)
next
  case (Suc n)
  obtain x y z where s: "(softmul_step ^^ n) (0, a, b) = (x, y, z)" by (metis prod_cases3)
  show "softmul_value ((softmul_step ^^ Suc n) (0, a, b)) = a * b"
    using Suc(1) by (simp add: softmul_step_value)
  show "snd (snd ((softmul_step ^^ Suc n) (0, a, b))) = drop_bit (Suc n) b"
    using Suc(2) by (simp add: s softmul_step_eq)
qed

lemma softmul_all: "fst ((softmul_step ^^ LENGTH('a)) (0, a, b)) = a * (b :: 'a::len word)"
proof -
  obtain x y z where s: "(softmul_step ^^ LENGTH('a)) (0, a, b) = (x, y, z)" by (metis prod_cases3)
  have "z = 0" using softmul_steps(2) [of "LENGTH('a)" a b] by (simp add: s)
  then show ?thesis using softmul_steps(1) [of "LENGTH('a)" a b] by (simp add: s softmul_value_def)
qed

lemma mulsi3_eq: "mulsi3 a b = a * b"
  using softmul_all [of a b] by (simp add: mulsi3_def)

lemma muldi3_eq: "muldi3 a b = a * b"
  using softmul_all [of a b] by (simp add: muldi3_def)

section \<open>Properties\<close>

text \<open>C33: The constant-time compare returns 1 exactly when the first \<open>n\<close> bytes agree, and 0
  otherwise; the public-verdict wrapper returns the same.\<close>

theorem ct_memeq_exact:
  assumes "n \<le> length a" and "n \<le> length b"
  shows "ct_memeq a b n = (if take n a = take n b then 1 else 0) \<and>
    ct_memeq_public a b n = (if take n a = take n b then 1 else 0)"
  using assms by (simp add: ct_memeq_iff ct_memeq_public_def)

theorem ct_memeq_exact_witness:
  "ct_memeq [1, 2, 3] [1, 2, 4] 2 = 1 \<and> ct_memeq [1, 2, 3] [1, 2, 4] 3 = 0"
  using ct_memeq_exact [of 2 "[1, 2, 3]" "[1, 2, 4]"] ct_memeq_exact [of 3 "[1, 2, 3]" "[1, 2, 4]"]
  by simp

text \<open>The wipe zeroes the first \<open>n\<close> bytes and no other byte, whatever the alignment of the
  buffer and whichever of the two word sizes the build stores with.\<close>

theorem ct_wipe_exact:
  assumes "n \<le> length p" and "word_size = 16 \<or> word_size = 4"
  shows "ct_wipe word_size addr p n = replicate n 0 @ drop n p"
  using assms by (auto intro: ct_wipe_eq)

theorem ct_wipe_exact_witness:
  "ct_wipe 4 1001 (replicate 14 7) 13 = replicate 13 0 @ [7]"
  using ct_wipe_exact [of 13 "replicate 14 7" 4 1001] by (simp add: numeral_eq_Suc)

text \<open>C34: The multiplies decomposed into 16-bit halves are exact: the full product unsigned and
  signed, in both the portable form and the one a compiler cannot fuse, and the
  64-by-32-bit product modulo \<open>2^64\<close>; the shift-and-add replacements of the
  compiler's multiply are multiplication at 32 and 64 bits.\<close>

theorem multiplies_exact:
  "unat (ct_widemul a b) = unat a * unat b \<and>
   unat (ct_widemul_opaque a b) = unat a * unat b \<and>
   sint (ct_widemul_s a b) = sint a * sint b \<and>
   ct_mulsmall x a = x * ucast a \<and>
   mulsi3 a b = a * b \<and> muldi3 x y = x * y"
  by (simp add: unat_ct_widemul unat_ct_widemul_opaque sint_ct_widemul_s ct_mulsmall_eq mulsi3_eq muldi3_eq)

end
