(* ===== verification/Buf.thy ===== *)
theory Buf
  imports Prelude
begin

text \<open>
  The bounds-checked reader and writer of \<open>src/buf.c\<close>.  \<open>rbuf\<close> and \<open>wbuf\<close> are the two
  structs; a call on one is a function that returns it updated.  \<open>rb_view\<close> and \<open>wb_view\<close>
  abstract them to the bytes still to read and the bytes written, with \<open>None\<close> for the
  sticky error, and the lemmas show that every call is the list operation its contract
  names, that nothing outside the buffer is read or written, and that what the writer
  puts the reader gets back.
\<close>

section \<open>Model\<close>

subsection \<open>Writer\<close>

record wbuf =
  wb_p :: bytes
  wb_cap :: nat
  wb_len :: nat
  wb_err :: bool

definition wb_init :: "bytes \<Rightarrow> nat \<Rightarrow> wbuf" where
  "wb_init p cap = \<lparr>wb_p = p, wb_cap = cap, wb_len = 0, wb_err = False\<rparr>"

definition wb_room :: "wbuf \<Rightarrow> nat \<Rightarrow> bool \<times> wbuf" where
  "wb_room w n =
     (if wb_err w \<or> n > size_sub (wb_cap w) (wb_len w)
      then (False, w\<lparr>wb_err := True\<rparr>)
      else (True, w))"

definition wb_u8 :: "wbuf \<Rightarrow> u8 \<Rightarrow> wbuf" where
  "wb_u8 w v =
     (let (ok, w) = wb_room w 1
      in if ok then w\<lparr>wb_p := (wb_p w)[wb_len w := v], wb_len := wb_len w + 1\<rparr> else w)"

definition wb_u16 :: "wbuf \<Rightarrow> u16 \<Rightarrow> wbuf" where
  "wb_u16 w v =
     (let w = wb_u8 w (ucast (drop_bit 8 v))
      in wb_u8 w (ucast v))"

definition wb_u24 :: "wbuf \<Rightarrow> u32 \<Rightarrow> wbuf" where
  "wb_u24 w v =
     (let w = wb_u8 w (ucast (drop_bit 16 v));
          w = wb_u8 w (ucast (drop_bit 8 v))
      in wb_u8 w (ucast v))"

definition mem_put :: "bytes \<Rightarrow> nat \<Rightarrow> bytes \<Rightarrow> bytes" where
  "mem_put p off src = take off p @ src @ drop (off + length src) p"

definition wb_bytes :: "wbuf \<Rightarrow> bytes \<Rightarrow> nat \<Rightarrow> wbuf" where
  "wb_bytes w src n =
     (let (ok, w) = wb_room w n
      in if ok then w\<lparr>wb_p := mem_put (wb_p w) (wb_len w) (take n src), wb_len := wb_len w + n\<rparr>
         else w)"

definition wb_mark :: "wbuf \<Rightarrow> nat \<Rightarrow> nat \<times> wbuf" where
  "wb_mark w n =
     (let off = wb_len w; (ok, w) = wb_room w n
      in (off,
          if ok then w\<lparr>wb_p := mem_put (wb_p w) (wb_len w) (replicate n 0), wb_len := wb_len w + n\<rparr>
          else w))"

definition wb_patch16 :: "wbuf \<Rightarrow> nat \<Rightarrow> wbuf" where
  "wb_patch16 w off =
     (if wb_err w then w
      else let n = size_sub (size_sub (wb_len w) off) 2
           in w\<lparr>wb_p := (wb_p w)[off := of_nat (n div 2 ^ 8), off + 1 := of_nat n]\<rparr>)"

definition wb_patch24 :: "wbuf \<Rightarrow> nat \<Rightarrow> wbuf" where
  "wb_patch24 w off =
     (if wb_err w then w
      else let n = size_sub (size_sub (wb_len w) off) 3
           in w\<lparr>wb_p := (wb_p w)[off := of_nat (n div 2 ^ 16), off + 1 := of_nat (n div 2 ^ 8),
                              off + 2 := of_nat n]\<rparr>)"

subsection \<open>Reader\<close>

record rbuf =
  rb_p :: bytes
  rb_len :: nat
  rb_off :: nat
  rb_err :: bool

definition rb_init :: "bytes \<Rightarrow> nat \<Rightarrow> rbuf" where
  "rb_init p len = \<lparr>rb_p = p, rb_len = len, rb_off = 0, rb_err = False\<rparr>"

definition rb_have :: "rbuf \<Rightarrow> nat \<Rightarrow> bool \<times> rbuf" where
  "rb_have r n =
     (if rb_err r \<or> n > size_sub (rb_len r) (rb_off r)
      then (False, r\<lparr>rb_err := True\<rparr>)
      else (True, r))"

definition rb_u8 :: "rbuf \<Rightarrow> u8 \<times> rbuf" where
  "rb_u8 r =
     (let (ok, r) = rb_have r 1
      in if \<not> ok then (0, r) else (rb_p r ! rb_off r, r\<lparr>rb_off := rb_off r + 1\<rparr>))"

definition rb_u16 :: "rbuf \<Rightarrow> u16 \<times> rbuf" where
  "rb_u16 r =
     (let (hi, r) = rb_u8 r; (lo, r) = rb_u8 r
      in (push_bit 8 (ucast hi) OR ucast lo, r))"

definition rb_u24 :: "rbuf \<Rightarrow> u32 \<times> rbuf" where
  "rb_u24 r =
     (let (b, r) = rb_u8 r; v = ucast b;
          (b, r) = rb_u8 r; v = push_bit 8 v OR ucast b;
          (b, r) = rb_u8 r
      in (push_bit 8 v OR ucast b, r))"

text \<open>The pointer \<open>rb_bytes\<close> returns is the run of \<open>n\<close> bytes at it; \<open>NULL\<close> is \<open>None\<close>.\<close>

definition rb_bytes :: "rbuf \<Rightarrow> nat \<Rightarrow> bytes option \<times> rbuf" where
  "rb_bytes r n =
     (let (ok, r) = rb_have r n
      in if \<not> ok then (None, r)
         else (Some (take n (drop (rb_off r) (rb_p r))), r\<lparr>rb_off := rb_off r + n\<rparr>))"

definition rb_skip :: "rbuf \<Rightarrow> nat \<Rightarrow> rbuf" where
  "rb_skip r n = snd (rb_bytes r n)"

definition rb_left :: "rbuf \<Rightarrow> nat" where
  "rb_left r = (if rb_err r then 0 else size_sub (rb_len r) (rb_off r))"

subsection \<open>Specification\<close>

text \<open>
  A well-formed writer stays inside its buffer; \<open>wb_view\<close> is what it has written.  A
  well-formed reader likewise, and \<open>rb_view\<close> is what is left to read.
\<close>

definition wb_wf :: "wbuf \<Rightarrow> bool" where
  "wb_wf w \<longleftrightarrow> wb_len w \<le> wb_cap w \<and> wb_cap w \<le> length (wb_p w)"

definition wb_view :: "wbuf \<Rightarrow> bytes option" where
  "wb_view w = (if wb_err w then None else Some (take (wb_len w) (wb_p w)))"

definition rb_wf :: "rbuf \<Rightarrow> bool" where
  "rb_wf r \<longleftrightarrow> rb_off r \<le> rb_len r \<and> rb_len r \<le> length (rb_p r)"

definition rb_view :: "rbuf \<Rightarrow> bytes option" where
  "rb_view r = (if rb_err r then None else Some (drop (rb_off r) (take (rb_len r) (rb_p r))))"

text \<open>Big-endian encodings, as the values the wire formats of the protocol name.\<close>

definition be16 :: "u16 \<Rightarrow> bytes" where
  "be16 v = [ucast (drop_bit 8 v), ucast v]"

definition be24 :: "u32 \<Rightarrow> bytes" where
  "be24 v = [ucast (drop_bit 16 v), ucast (drop_bit 8 v), ucast v]"

text \<open>Big-endian value of a byte run.\<close>

definition be_nat :: "bytes \<Rightarrow> nat" where
  "be_nat bs = foldl (\<lambda>v b. v * 256 + unat b) 0 bs"

text \<open>What writing a run of bytes does to the view, given the room left.\<close>

definition view_put :: "nat \<Rightarrow> bytes \<Rightarrow> bytes option \<Rightarrow> bytes option" where
  "view_put cap bs v =
     (case v of None \<Rightarrow> None
      | Some out \<Rightarrow> if length out + length bs \<le> cap then Some (out @ bs) else None)"

text \<open>What every writer call keeps: the room, the buffer past it and the bytes already written.\<close>

definition wb_kept :: "wbuf \<Rightarrow> wbuf \<Rightarrow> bool" where
  "wb_kept w w' \<longleftrightarrow>
     wb_wf w' \<and> wb_cap w' = wb_cap w \<and> length (wb_p w') = length (wb_p w) \<and>
     drop (wb_cap w) (wb_p w') = drop (wb_cap w) (wb_p w) \<and>
     wb_len w \<le> wb_len w' \<and> take (wb_len w) (wb_p w') = take (wb_len w) (wb_p w)"

text \<open>
  A run of writer calls, the bytes each stands for, and the reads that undo them: a read
  of the same kind as the call, which returns the value it read as a call.
\<close>

datatype wb_call = W8 u8 | W16 u16 | W24 u32 | WBytes bytes

fun wb_do :: "wbuf \<Rightarrow> wb_call \<Rightarrow> wbuf" where
  "wb_do w (W8 v) = wb_u8 w v"
| "wb_do w (W16 v) = wb_u16 w v"
| "wb_do w (W24 v) = wb_u24 w v"
| "wb_do w (WBytes bs) = wb_bytes w bs (length bs)"

fun call_bytes :: "wb_call \<Rightarrow> bytes" where
  "call_bytes (W8 v) = [v]"
| "call_bytes (W16 v) = be16 v"
| "call_bytes (W24 v) = be24 v"
| "call_bytes (WBytes bs) = bs"

fun call_fits :: "wb_call \<Rightarrow> bool" where
  "call_fits (W24 v) = (unat v < 2 ^ 24)"
| "call_fits _ = True"

fun rb_do :: "rbuf \<Rightarrow> wb_call \<Rightarrow> wb_call option \<times> rbuf" where
  "rb_do r (W8 _) = (let (v, r) = rb_u8 r in (Some (W8 v), r))"
| "rb_do r (W16 _) = (let (v, r) = rb_u16 r in (Some (W16 v), r))"
| "rb_do r (W24 _) = (let (v, r) = rb_u24 r in (Some (W24 v), r))"
| "rb_do r (WBytes bs) = (let (v, r) = rb_bytes r (length bs) in (map_option WBytes v, r))"

fun rb_dos :: "rbuf \<Rightarrow> wb_call list \<Rightarrow> wb_call option list \<times> rbuf" where
  "rb_dos r [] = ([], r)"
| "rb_dos r (c # cs) = (let (v, r) = rb_do r c; (vs, r) = rb_dos r cs in (v # vs, r))"

named_theorems wb_laws \<open>the view after each writer call\<close>
named_theorems rb_laws \<open>the value and the view of each reader call\<close>

section \<open>Encodings\<close>

lemma length_be16 [simp]: "length (be16 v) = 2"
  and length_be24 [simp]: "length (be24 z) = 3"
  by (simp_all add: be16_def be24_def)

lemma be_nat_Nil [simp]: "be_nat [] = 0"
  by (simp add: be_nat_def)

lemma be_nat_foldl: "foldl (\<lambda>v b. v * 256 + unat b) a bs = a * 256 ^ length bs + be_nat bs"
proof (induction bs arbitrary: a)
  case (Cons b bs)
  show ?case
    using Cons [of "a * 256 + unat b"] Cons [of "unat b"] by (simp add: be_nat_def algebra_simps)
qed simp

lemma be_nat_append: "be_nat (as @ bs) = be_nat as * 256 ^ length bs + be_nat bs"
  unfolding be_nat_def [of "as @ bs"] foldl_append by (simp add: be_nat_foldl)

lemma be_nat_Cons: "be_nat (b # bs) = unat b * 256 ^ length bs + be_nat bs"
  using be_nat_append [of "[b]" bs] by (simp add: be_nat_def)

lemma be_nat_less: "be_nat bs < 256 ^ length bs"
proof (induction bs)
  case (Cons b bs)
  have "unat b * 256 ^ length bs + be_nat bs < (unat b + 1) * 256 ^ length bs"
    using Cons by simp
  also have "\<dots> \<le> 256 * 256 ^ length bs"
    using unat_byte_less [of b] by (intro mult_le_mono1) linarith
  finally show ?case by (simp add: be_nat_Cons)
qed simp

lemma be_nat_be16: "be_nat (be16 v) = unat v"
proof -
  have "unat v div 256 < 256" by (simp add: less_mult_imp_div_less)
  then show ?thesis
    by (simp add: be16_def be_nat_Cons unat_ucast_mod unat_drop_bit)
qed

lemma be_nat_be24:
  assumes "unat v < 2 ^ 24"
  shows "be_nat (be24 v) = unat v"
proof -
  have "unat v div 65536 < 256" using assms by (simp add: less_mult_imp_div_less)
  moreover have "unat v div 256 mod 256 * 256 + unat v mod 256 = unat v mod 65536"
    using mod_mult2_eq [of "unat v" 256 256] by simp
  ultimately show ?thesis
    by (simp add: be24_def be_nat_Cons unat_ucast_mod unat_drop_bit)
qed

lemma unat_join_byte:
  assumes "unat x * 256 + unat b < 2 ^ LENGTH('a)" and "8 \<le> LENGTH('a::len)"
  shows "unat (push_bit 8 (x :: 'a word) OR ucast (b :: u8)) = unat x * 256 + unat b"
proof -
  have b: "unat (ucast b :: 'a word) = unat b" using assms(2) by (simp add: unat_ucast_up)
  then have "unat (push_bit 8 x OR ucast b) = (unat x * 2 ^ 8) mod 2 ^ LENGTH('a) + unat b"
    using assms(2) by (subst unat_join) simp_all
  then show ?thesis using assms(1) by simp
qed

lemma unat_join16: "unat (push_bit 8 (ucast (a :: u8)) OR ucast (b :: u8) :: u16) = be_nat [a, b]"
  using be_nat_less [of "[a, b]"] by (subst unat_join_byte) (simp_all add: be_nat_Cons)

lemma unat_join24:
  "unat (push_bit 8 (push_bit 8 (ucast (a :: u8)) OR ucast (b :: u8)) OR ucast (c :: u8) :: u32) =
   be_nat [a, b, c]"
proof -
  have ab: "unat (push_bit 8 (ucast a) OR ucast b :: u32) = be_nat [a, b]"
    using be_nat_less [of "[a, b]"] by (subst unat_join_byte) (simp_all add: be_nat_Cons)
  show ?thesis
    using be_nat_less [of "[a, b, c]"]
    by (subst unat_join_byte) (simp_all add: ab, simp_all add: be_nat_Cons)
qed

section \<open>The reader and writer contracts\<close>

text \<open>
  What a byte reader promises: one call takes the first byte of what is left, and an
  empty or failed reader returns zero and is failed from then on.
\<close>

locale byte_reader =
  fixes get :: "'r \<Rightarrow> u8 \<times> 'r" and view :: "'r \<Rightarrow> bytes option" and wf :: "'r \<Rightarrow> bool"
  assumes get_wf: "wf r \<Longrightarrow> wf (snd (get r))"
    and get_value: "wf r \<Longrightarrow> fst (get r) = (case view r of Some (b # bs) \<Rightarrow> b | _ \<Rightarrow> 0)"
    and get_view: "wf r \<Longrightarrow> view (snd (get r)) = (case view r of Some (b # bs) \<Rightarrow> Some bs | _ \<Rightarrow> None)"
begin

primrec gets :: "nat \<Rightarrow> 'r \<Rightarrow> bytes \<times> 'r" where
  "gets 0 r = ([], r)"
| "gets (Suc k) r = (let (b, r) = get r; (bs, r) = gets k r in (b # bs, r))"

lemma gets_wf: "wf r \<Longrightarrow> wf (snd (gets k r))"
proof (induction k arbitrary: r)
  case (Suc k)
  show ?case
    using Suc.IH [OF get_wf [OF Suc.prems]] by (simp add: case_prod_beta)
qed simp

lemma gets_failed: "wf r \<Longrightarrow> view r = None \<Longrightarrow> gets k r = (replicate k 0, snd (gets k r)) \<and> view (snd (gets k r)) = None"
proof (induction k arbitrary: r)
  case (Suc k)
  have "view (snd (get r)) = None" and "fst (get r) = 0"
    using get_view [OF Suc.prems(1)] get_value [OF Suc.prems(1)] Suc.prems(2) by simp_all
  then show ?case
    using Suc.IH [OF get_wf [OF Suc.prems(1)]] by (simp add: case_prod_beta prod_eq_iff)
qed simp

lemma gets_enough:
  "wf r \<Longrightarrow> view r = Some (bs @ rest) \<Longrightarrow> k = length bs \<Longrightarrow>
   fst (gets k r) = bs \<and> view (snd (gets k r)) = Some rest"
proof (induction bs arbitrary: r k)
  case (Cons b bs)
  have "view (snd (get r)) = Some (bs @ rest)" and "fst (get r) = b"
    using get_view [OF Cons.prems(1)] get_value [OF Cons.prems(1)] Cons.prems(2) by simp_all
  then show ?case
    using Cons.IH [OF get_wf [OF Cons.prems(1)]] Cons.prems(3) by (simp add: case_prod_beta)
qed simp

lemma gets_short:
  "wf r \<Longrightarrow> view r = Some bs \<Longrightarrow> length bs < k \<Longrightarrow> view (snd (gets k r)) = None"
proof (induction bs arbitrary: r k)
  case Nil
  then obtain j where k: "k = Suc j" by (cases k) auto
  have "view (snd (get r)) = None" using get_view [OF Nil(1)] Nil(2) by simp
  then show ?case using gets_failed [OF get_wf [OF Nil(1)]] k by (simp add: case_prod_beta)
next
  case (Cons b bs)
  then obtain j where k: "k = Suc j" "length bs < j" by (cases k) auto
  have "view (snd (get r)) = Some bs" using get_view [OF Cons.prems(1)] Cons.prems(2) by simp
  then show ?case
    using Cons.IH [OF get_wf [OF Cons.prems(1)]] k by (simp add: case_prod_beta)
qed

lemma gets_view:
  assumes "wf r"
  shows "view (snd (gets k r)) =
    (case view r of None \<Rightarrow> None | Some bs \<Rightarrow> if k \<le> length bs then Some (drop k bs) else None)"
proof (cases "view r")
  case None
  then show ?thesis using gets_failed [OF assms] by simp
next
  case (Some bs)
  show ?thesis
  proof (cases "k \<le> length bs")
    case True
    then have "length (take k bs) = k" and "view r = Some (take k bs @ drop k bs)"
      using Some by simp_all
    then show ?thesis using gets_enough [OF assms, of "take k bs" "drop k bs" k] Some True by simp
  next
    case False
    then show ?thesis using gets_short [OF assms Some] Some by simp
  qed
qed

end

text \<open>What a byte writer promises: one call appends its byte, or fails for good when it is full.\<close>

locale byte_writer =
  fixes put :: "'w \<Rightarrow> u8 \<Rightarrow> 'w" and out :: "'w \<Rightarrow> bytes option" and cap :: "'w \<Rightarrow> nat"
    and ok :: "'w \<Rightarrow> bool"
  assumes put_ok: "ok w \<Longrightarrow> ok (put w b)"
    and put_cap: "ok w \<Longrightarrow> cap (put w b) = cap w"
    and put_out: "ok w \<Longrightarrow> out (put w b) = view_put (cap w) [b] (out w)"
begin

lemma puts:
  "ok w \<Longrightarrow> ok (foldl put w bs) \<and> cap (foldl put w bs) = cap w \<and>
   (bs \<noteq> [] \<longrightarrow> out (foldl put w bs) = view_put (cap w) bs (out w))"
proof (induction bs rule: rev_induct)
  case (snoc b bs)
  then have ih: "ok (foldl put w bs)" "cap (foldl put w bs) = cap w" by auto
  show ?case
  proof (cases "bs = []")
    case True
    then show ?thesis using put_ok put_cap put_out snoc.prems by simp
  next
    case False
    then have "out (foldl put w bs) = view_put (cap w) bs (out w)" using snoc by simp
    then show ?thesis
      using ih put_ok [OF ih(1)] put_cap [OF ih(1)] put_out [OF ih(1), of b]
      by (auto simp: view_put_def split: option.splits)
  qed
qed simp

lemmas puts_ok = puts [THEN conjunct1]
lemmas puts_cap = puts [THEN conjunct2, THEN conjunct1]
lemmas puts_out = puts [THEN conjunct2, THEN conjunct2, rule_format]

end

section \<open>The writer\<close>

lemma wb_kept_refl: "wb_wf w \<Longrightarrow> wb_kept w w"
  by (simp add: wb_kept_def)

lemma wb_kept_trans:
  assumes "wb_kept a b" and "wb_kept b c"
  shows "wb_kept a c"
proof -
  have le: "wb_len a \<le> wb_len b" and eq: "take (wb_len b) (wb_p c) = take (wb_len b) (wb_p b)"
    using assms by (simp_all add: wb_kept_def)
  have "take (wb_len a) (wb_p c) = take (wb_len a) (wb_p b)"
    using arg_cong [OF eq, of "take (wb_len a)"] le by (simp add: min_absorb1)
  then show ?thesis using assms by (simp add: wb_kept_def)
qed

lemma wb_kept_wf: "wb_kept w w' \<Longrightarrow> wb_wf w'"
  and wb_kept_cap: "wb_kept w w' \<Longrightarrow> wb_cap w' = wb_cap w"
  by (simp_all add: wb_kept_def)

lemma wb_view_length: "wb_wf w \<Longrightarrow> wb_view w = Some out \<Longrightarrow> length out = wb_len w"
  by (auto simp: wb_view_def wb_wf_def split: if_splits)

lemma mem_put_append:
  assumes "off + length src \<le> length p"
  shows "length (mem_put p off src) = length p"
    and "take off (mem_put p off src) = take off p"
    and "take (off + length src) (mem_put p off src) = take off p @ src"
    and "off + length src \<le> k \<Longrightarrow> drop k (mem_put p off src) = drop k p"
  using assms by (simp_all add: mem_put_def add.commute)

lemma wb_put_run:
  assumes "wb_wf w"
  shows "wb_kept w (let (ok, w) = wb_room w (length bs)
      in if ok then w\<lparr>wb_p := mem_put (wb_p w) (wb_len w) bs, wb_len := wb_len w + length bs\<rparr> else w)"
    and "wb_view (let (ok, w) = wb_room w (length bs)
      in if ok then w\<lparr>wb_p := mem_put (wb_p w) (wb_len w) bs, wb_len := wb_len w + length bs\<rparr> else w) =
      view_put (wb_cap w) bs (wb_view w)"
  using assms
  by (auto simp: wb_room_def wb_kept_def wb_wf_def wb_view_def view_put_def mem_put_append
      split: option.splits)

lemma mem_put_one: "off < length p \<Longrightarrow> mem_put p off [v] = p[off := v]"
  by (simp add: mem_put_def upd_conv_take_nth_drop)

lemma wb_u8_run:
  assumes "wb_wf w"
  shows "wb_u8 w v = (let (ok, w) = wb_room w (length [v])
      in if ok then w\<lparr>wb_p := mem_put (wb_p w) (wb_len w) [v], wb_len := wb_len w + length [v]\<rparr> else w)"
proof (cases "fst (wb_room w 1)")
  case True
  then have "wb_len w < length (wb_p w)" and "snd (wb_room w 1) = w"
    using assms by (auto simp: wb_room_def wb_wf_def split: if_splits)
  then show ?thesis using True by (simp add: wb_u8_def case_prod_beta mem_put_one)
qed (simp add: wb_u8_def case_prod_beta)

lemma wb_u8_kept: "wb_wf w \<Longrightarrow> wb_kept w (wb_u8 w v)"
  and wb_u8_view: "wb_wf w \<Longrightarrow> wb_view (wb_u8 w v) = view_put (wb_cap w) [v] (wb_view w)"
  using wb_put_run [of w "[v]"] by (simp_all only: wb_u8_run)

interpretation wb: byte_writer wb_u8 wb_view wb_cap wb_wf
  by unfold_locales (blast intro: wb_u8_kept wb_kept_wf wb_kept_cap wb_u8_view)+

lemma wb_u8s_kept: "wb_wf w \<Longrightarrow> wb_kept w (foldl wb_u8 w bs)"
proof (induction bs arbitrary: w)
  case (Cons b bs)
  show ?case
    using Cons.IH [OF wb_kept_wf [OF wb_u8_kept [OF Cons.prems]]] wb_u8_kept [OF Cons.prems]
    by (auto intro: wb_kept_trans)
qed (simp add: wb_kept_refl)

lemma wb_u16_puts: "wb_u16 w v = foldl wb_u8 w (be16 v)"
  and wb_u24_puts: "wb_u24 w z = foldl wb_u8 w (be24 z)"
  by (simp_all add: wb_u16_def wb_u24_def be16_def be24_def)

lemma wb_bytes_run:
  assumes "n \<le> length src"
  shows "wb_bytes w src n = (let (ok, w) = wb_room w (length (take n src))
      in if ok then w\<lparr>wb_p := mem_put (wb_p w) (wb_len w) (take n src),
                      wb_len := wb_len w + length (take n src)\<rparr> else w)"
  using assms by (simp add: wb_bytes_def case_prod_beta min_absorb2)

lemma wb_bytes_kept: "wb_wf w \<Longrightarrow> n \<le> length src \<Longrightarrow> wb_kept w (wb_bytes w src n)"
  and wb_bytes_view: "wb_wf w \<Longrightarrow> n \<le> length src \<Longrightarrow>
    wb_view (wb_bytes w src n) = view_put (wb_cap w) (take n src) (wb_view w)"
  using wb_put_run [of w "take n src"] by (simp_all only: wb_bytes_run)

lemma wb_mark_run:
  "snd (wb_mark w n) = (let (ok, w) = wb_room w (length (replicate n (0 :: u8)))
      in if ok then w\<lparr>wb_p := mem_put (wb_p w) (wb_len w) (replicate n 0),
                      wb_len := wb_len w + length (replicate n (0 :: u8))\<rparr> else w)"
  by (simp add: wb_mark_def case_prod_beta Let_def)

lemma wb_mark_kept: "wb_wf w \<Longrightarrow> wb_kept w (snd (wb_mark w n))"
  and wb_mark_view: "wb_wf w \<Longrightarrow>
    wb_view (snd (wb_mark w n)) = view_put (wb_cap w) (replicate n 0) (wb_view w)"
  using wb_put_run [of w "replicate n 0"] by (simp_all only: wb_mark_run)

lemma wb_mark_off: "fst (wb_mark w n) = wb_len w"
  by (simp add: wb_mark_def case_prod_beta Let_def)

lemma wb_u16_kept: "wb_wf w \<Longrightarrow> wb_kept w (wb_u16 w v)"
  and wb_u16_view: "wb_wf w \<Longrightarrow> wb_view (wb_u16 w v) = view_put (wb_cap w) (be16 v) (wb_view w)"
  and wb_u24_kept: "wb_wf w \<Longrightarrow> wb_kept w (wb_u24 w z)"
  and wb_u24_view: "wb_wf w \<Longrightarrow> wb_view (wb_u24 w z) = view_put (wb_cap w) (be24 z) (wb_view w)"
  using wb.puts_out [of w "be16 v"] wb.puts_out [of w "be24 z"]
  by (simp_all add: wb_u16_puts wb_u24_puts wb_u8s_kept) (simp_all add: be16_def be24_def)

lemmas wb_kept_intros [intro] =
  wb_u8_kept wb_u16_kept wb_u24_kept wb_bytes_kept wb_mark_kept

lemmas wb_call_views [wb_laws] =
  wb_u8_view wb_u16_view wb_u24_view wb_bytes_view wb_mark_view

lemma wb_init_wf: "cap \<le> length p \<Longrightarrow> wb_wf (wb_init p cap)"
  and wb_init_view: "wb_view (wb_init p cap) = Some []"
  and wb_init_cap: "wb_cap (wb_init p cap) = cap"
  and wb_init_p: "wb_p (wb_init p cap) = p"
  by (simp_all add: wb_init_def wb_wf_def wb_view_def)

text \<open>Patching the length field at a mark writes the number of bytes written since.\<close>

lemma patched_take:
  assumes "off + length f \<le> k" and "k \<le> length p"
  shows "take k (mem_put p off f) = mem_put (take k p) off f"
  using assms by (simp add: mem_put_def take_drop add.commute min_absorb1 min_absorb2)

lemma mem_put_two: "off + 2 \<le> length p \<Longrightarrow> p[off := a, off + 1 := b] = mem_put p off [a, b]"
  by (rule nth_equalityI)
    (auto simp: mem_put_def nth_append nth_list_update nth_Cons intro!: arg_cong [of _ _ "(!) p"] split: nat.splits)

lemma mem_put_three:
  "off + 3 \<le> length p \<Longrightarrow> p[off := a, off + 1 := b, off + 2 := c] = mem_put p off [a, b, c]"
  by (rule nth_equalityI)
    (auto simp: mem_put_def nth_append nth_list_update nth_Cons intro!: arg_cong [of _ _ "(!) p"] split: nat.splits)

lemma be16_of_nat: "be16 (of_nat n) = [of_nat (n div 256), of_nat n]"
proof -
  have "n mod 65536 div 256 = n div 256 mod 256"
    using mod_mult2_eq [of n 256 256] by simp
  then show ?thesis
    by (simp add: be16_def word_unat_eq_iff unat_ucast_mod unat_drop_bit unat_of_nat mod_mod_cancel)
qed

lemma be24_of_nat: "be24 (of_nat n) = [of_nat (n div 65536), of_nat (n div 256), of_nat n]"
proof -
  have "n mod 4294967296 div 65536 = n div 65536 mod 65536"
    using mod_mult2_eq [of n 65536 65536] by simp
  moreover have "n mod 4294967296 div 256 = n div 256 mod 16777216"
    using mod_mult2_eq [of n 256 16777216] by simp
  ultimately show ?thesis
    by (simp add: be24_def word_unat_eq_iff unat_ucast_mod unat_drop_bit unat_of_nat mod_mod_cancel)
qed

lemma wb_patch16_put:
  assumes "wb_wf w" and "\<not> wb_err w" and "off + 2 \<le> wb_len w"
  shows "wb_patch16 w off = w\<lparr>wb_p := mem_put (wb_p w) off (be16 (of_nat (wb_len w - off - 2)))\<rparr>"
proof -
  obtain n where n: "wb_len w = off + 2 + n" using assms(3) by (auto simp: le_iff_add)
  have "off + 2 \<le> length (wb_p w)" using assms by (simp add: wb_wf_def)
  then show ?thesis
    using assms(2) mem_put_two [of off "wb_p w"] by (simp add: wb_patch16_def n be16_of_nat)
qed

lemma wb_patch24_put:
  assumes "wb_wf w" and "\<not> wb_err w" and "off + 3 \<le> wb_len w"
  shows "wb_patch24 w off = w\<lparr>wb_p := mem_put (wb_p w) off (be24 (of_nat (wb_len w - off - 3)))\<rparr>"
proof -
  obtain n where n: "wb_len w = off + 3 + n" using assms(3) by (auto simp: le_iff_add)
  have "off + 3 \<le> length (wb_p w)" using assms by (simp add: wb_wf_def)
  then show ?thesis
    using assms(2) mem_put_three [of off "wb_p w"] by (simp add: wb_patch24_def n be24_of_nat)
qed

lemma wb_put_kept:
  assumes "wb_kept w w'" and "wb_len w \<le> off" and "off + length f \<le> wb_len w'"
  shows "wb_kept w (w'\<lparr>wb_p := mem_put (wb_p w') off f\<rparr>)"
proof -
  have le: "off + length f \<le> length (wb_p w')" "off + length f \<le> wb_cap w"
    using assms by (auto simp: wb_kept_def wb_wf_def)
  have "take (wb_len w) (mem_put (wb_p w') off f) = take (wb_len w) (take off (mem_put (wb_p w') off f))"
    using assms(2) by (simp add: min_absorb1)
  also have "\<dots> = take (wb_len w) (wb_p w')"
    using assms(2) le by (simp add: mem_put_append min_absorb1)
  finally show ?thesis
    using assms le by (simp add: wb_kept_def wb_wf_def mem_put_append)
qed

lemma wb_patch16_kept:
  assumes "wb_kept w w'" and "wb_len w \<le> off" and "off + 2 \<le> wb_len w'"
  shows "wb_kept w (wb_patch16 w' off)"
proof (cases "wb_err w'")
  case False
  then show ?thesis
    using assms wb_put_kept [OF assms(1,2), of "be16 (of_nat (wb_len w' - off - 2))"]
    by (simp add: wb_patch16_put wb_kept_wf)
qed (simp add: wb_patch16_def assms(1))

lemma wb_patch24_kept:
  assumes "wb_kept w w'" and "wb_len w \<le> off" and "off + 3 \<le> wb_len w'"
  shows "wb_kept w (wb_patch24 w' off)"
proof (cases "wb_err w'")
  case False
  then show ?thesis
    using assms wb_put_kept [OF assms(1,2), of "be24 (of_nat (wb_len w' - off - 3))"]
    by (simp add: wb_patch24_put wb_kept_wf)
qed (simp add: wb_patch24_def assms(1))

lemma mem_put_field:
  "length f = length g \<Longrightarrow> mem_put (out @ g @ body) (length out) f = out @ f @ body"
  by (simp add: mem_put_def)

lemma wb_put_view:
  assumes "wb_wf w" and "wb_view w = Some (out @ g @ body)" and "length f = length g"
  shows "wb_view (w\<lparr>wb_p := mem_put (wb_p w) (length out) f\<rparr>) = Some (out @ f @ body)"
proof -
  have v: "take (wb_len w) (wb_p w) = out @ g @ body" and e: "\<not> wb_err w"
    using assms(2) by (auto simp: wb_view_def split: if_splits)
  have l: "wb_len w = length out + length g + length body" "wb_len w \<le> length (wb_p w)"
    using wb_view_length [OF assms(1,2)] assms(1) by (simp_all add: wb_wf_def)
  show ?thesis
    using v e l assms(3) by (simp add: wb_view_def patched_take mem_put_field)
qed

lemma wb_patch16_view [wb_laws]:
  assumes "wb_wf w" and "wb_view w = Some (out @ [x, y] @ body)"
  shows "wb_view (wb_patch16 w (length out)) = Some (out @ be16 (of_nat (length body)) @ body)"
proof -
  have "wb_len w = length out + 2 + length body" and "\<not> wb_err w"
    using wb_view_length [OF assms] assms(2) by (auto simp: wb_view_def split: if_splits)
  then show ?thesis
    using wb_put_view [OF assms, of "be16 (of_nat (length body))"] assms(1) by (simp add: wb_patch16_put)
qed

lemma wb_patch24_view [wb_laws]:
  assumes "wb_wf w" and "wb_view w = Some (out @ [x, y, z] @ body)"
  shows "wb_view (wb_patch24 w (length out)) = Some (out @ be24 (of_nat (length body)) @ body)"
proof -
  have "wb_len w = length out + 3 + length body" and "\<not> wb_err w"
    using wb_view_length [OF assms] assms(2) by (auto simp: wb_view_def split: if_splits)
  then show ?thesis
    using wb_put_view [OF assms, of "be24 (of_nat (length body))"] assms(1) by (simp add: wb_patch24_put)
qed

section \<open>The reader\<close>

lemma rb_init_wf: "len \<le> length p \<Longrightarrow> rb_wf (rb_init p len)"
  and rb_init_view: "rb_view (rb_init p len) = Some (take len p)"
  by (simp_all add: rb_init_def rb_wf_def rb_view_def)

lemma rb_view_length: "rb_wf r \<Longrightarrow> rb_view r = Some bs \<Longrightarrow> length bs = rb_len r - rb_off r"
  by (auto simp: rb_view_def rb_wf_def split: if_splits)

lemma rb_left_view: "rb_wf r \<Longrightarrow> rb_left r = (case rb_view r of None \<Rightarrow> 0 | Some bs \<Rightarrow> length bs)"
  by (auto simp: rb_left_def rb_view_def rb_wf_def)

lemma rb_err_view: "rb_err r \<longleftrightarrow> rb_view r = None"
  by (simp add: rb_view_def)

lemma rb_bytes_wf: "rb_wf r \<Longrightarrow> rb_wf (snd (rb_bytes r n))"
  by (auto simp: rb_bytes_def rb_have_def rb_wf_def)

lemma rb_bytes_value: "rb_wf r \<Longrightarrow> fst (rb_bytes r n) =
    (case rb_view r of None \<Rightarrow> None | Some bs \<Rightarrow> if n \<le> length bs then Some (take n bs) else None)"
  by (auto simp: rb_bytes_def rb_have_def rb_wf_def rb_view_def take_drop min_absorb1 add.commute)

lemma rb_bytes_view: "rb_wf r \<Longrightarrow> rb_view (snd (rb_bytes r n)) =
    (case rb_view r of None \<Rightarrow> None | Some bs \<Rightarrow> if n \<le> length bs then Some (drop n bs) else None)"
  by (auto simp: rb_bytes_def rb_have_def rb_wf_def rb_view_def add.commute)

lemma rb_u8_wf: "rb_wf r \<Longrightarrow> rb_wf (snd (rb_u8 r))"
  by (auto simp: rb_u8_def rb_have_def rb_wf_def)

lemma rb_u8_value: "rb_wf r \<Longrightarrow> fst (rb_u8 r) = (case rb_view r of Some (b # bs) \<Rightarrow> b | _ \<Rightarrow> 0)"
  by (auto simp: rb_u8_def rb_have_def rb_wf_def rb_view_def split: list.splits)
    (metis drop_all linorder_not_less nth_take nth_via_drop drop_eq_Nil length_take min.absorb2)+

lemma rb_u8_view: "rb_wf r \<Longrightarrow>
    rb_view (snd (rb_u8 r)) = (case rb_view r of Some (b # bs) \<Rightarrow> Some bs | _ \<Rightarrow> None)"
  by (auto simp: rb_u8_def rb_have_def rb_wf_def rb_view_def drop_Suc tl_drop [symmetric] split: list.splits)

interpretation rb: byte_reader rb_u8 rb_view rb_wf
  by unfold_locales (simp_all add: rb_u8_wf rb_u8_value rb_u8_view)

lemma rb_u16_gets:
  "rb_u16 r = (let (bs, r) = rb.gets 2 r in (push_bit 8 (ucast (bs ! 0)) OR ucast (bs ! 1), r))"
  by (simp add: rb_u16_def numeral_2_eq_2 case_prod_beta Let_def)

lemma rb_u24_gets:
  "rb_u24 r = (let (bs, r) = rb.gets 3 r
     in (push_bit 8 (push_bit 8 (ucast (bs ! 0)) OR ucast (bs ! 1)) OR ucast (bs ! 2), r))"
  by (simp add: rb_u24_def numeral_2_eq_2 numeral_3_eq_3 case_prod_beta Let_def)

lemma rb_u16_wf: "rb_wf r \<Longrightarrow> rb_wf (snd (rb_u16 r))"
  and rb_u24_wf: "rb_wf r \<Longrightarrow> rb_wf (snd (rb_u24 r))"
  using rb.gets_wf [of r 2] rb.gets_wf [of r 3] by (simp_all add: rb_u16_gets rb_u24_gets case_prod_beta Let_def)

lemma rb_u16_view: "rb_wf r \<Longrightarrow> rb_view (snd (rb_u16 r)) =
    (case rb_view r of None \<Rightarrow> None | Some bs \<Rightarrow> if 2 \<le> length bs then Some (drop 2 bs) else None)"
  and rb_u24_view: "rb_wf r \<Longrightarrow> rb_view (snd (rb_u24 r)) =
    (case rb_view r of None \<Rightarrow> None | Some bs \<Rightarrow> if 3 \<le> length bs then Some (drop 3 bs) else None)"
  using rb.gets_view [of r 2] rb.gets_view [of r 3]
  by (simp_all add: rb_u16_gets rb_u24_gets case_prod_beta Let_def)

lemma rb_u16_value:
  assumes "rb_wf r" and "rb_view r = Some (a # b # rest)"
  shows "unat (fst (rb_u16 r)) = be_nat [a, b]"
  using rb.gets_enough [of r "[a, b]" rest 2] assms
  by (simp add: rb_u16_gets case_prod_beta Let_def unat_join16)

lemma rb_u24_value:
  assumes "rb_wf r" and "rb_view r = Some (a # b # c # rest)"
  shows "unat (fst (rb_u24 r)) = be_nat [a, b, c]"
  using rb.gets_enough [of r "[a, b, c]" rest 3] assms unat_join24 [of a b c]
  by (simp add: rb_u24_gets case_prod_beta Let_def)

lemma rb_u16_be16:
  assumes "rb_wf r" and "rb_view r = Some (be16 v @ rest)"
  shows "fst (rb_u16 r) = v"
  using rb_u16_value [OF assms(1)] assms(2) be_nat_be16 [of v] by (simp add: be16_def word_unat_eq_iff)

lemma rb_u24_be24:
  assumes "rb_wf r" and "rb_view r = Some (be24 v @ rest)" and "unat v < 2 ^ 24"
  shows "fst (rb_u24 r) = v"
  using rb_u24_value [OF assms(1)] assms(2) be_nat_be24 [OF assms(3)] by (simp add: be24_def word_unat_eq_iff)

lemma rb_skip_wf: "rb_wf r \<Longrightarrow> rb_wf (rb_skip r n)"
  and rb_skip_view: "rb_wf r \<Longrightarrow> rb_view (rb_skip r n) =
    (case rb_view r of None \<Rightarrow> None | Some bs \<Rightarrow> if n \<le> length bs then Some (drop n bs) else None)"
  by (simp_all add: rb_skip_def rb_bytes_wf rb_bytes_view)

lemma rb_u8_left: "rb_left r \<noteq> 0 \<Longrightarrow> (b, r') = rb_u8 r \<Longrightarrow> rb_left r' < rb_left r"
  by (auto simp: rb_u8_def rb_left_def rb_have_def size_sub_def split: if_splits)

lemmas rb_wfs [rb_laws] = rb_u8_wf rb_u16_wf rb_u24_wf rb_bytes_wf rb_skip_wf
lemmas rb_views [rb_laws] = rb_u8_view rb_u16_view rb_u24_view rb_bytes_view rb_skip_view
lemmas rb_values [rb_laws] = rb_u8_value rb_bytes_value rb_left_view

section \<open>Runs of calls\<close>

lemma view_put_append: "view_put cap bs (view_put cap as v) = view_put cap (as @ bs) v"
  by (auto simp: view_put_def split: option.splits)

lemma wb_do_kept: "wb_wf w \<Longrightarrow> wb_kept w (wb_do w c)"
  by (cases c) (auto simp: wb_bytes_kept)

lemma wb_do_view: "wb_wf w \<Longrightarrow> wb_view (wb_do w c) = view_put (wb_cap w) (call_bytes c) (wb_view w)"
  by (cases c) (simp_all add: wb_laws)

lemma wb_dos_kept: "wb_wf w \<Longrightarrow> wb_kept w (foldl wb_do w cs)"
proof (induction cs arbitrary: w)
  case (Cons c cs)
  show ?case
    using Cons.IH [OF wb_kept_wf [OF wb_do_kept [OF Cons.prems]]] wb_do_kept [OF Cons.prems, of c]
    by (auto intro: wb_kept_trans)
qed (simp add: wb_kept_refl)

lemma view_put_Nil: "wb_wf w \<Longrightarrow> view_put (wb_cap w) [] (wb_view w) = wb_view w"
  by (auto simp: view_put_def wb_view_def wb_wf_def)

lemma wb_dos_view:
  "wb_wf w \<Longrightarrow> wb_view (foldl wb_do w cs) = view_put (wb_cap w) (concat (map call_bytes cs)) (wb_view w)"
proof (induction cs arbitrary: w)
  case (Cons c cs)
  show ?case
    using Cons.IH [OF wb_kept_wf [OF wb_do_kept [OF Cons.prems]]] wb_kept_cap [OF wb_do_kept [OF Cons.prems]]
    by (simp add: wb_do_view Cons.prems view_put_append)
qed (simp add: view_put_Nil)

lemma rb_do_call:
  assumes "rb_wf r" and "rb_view r = Some (call_bytes c @ rest)" and "call_fits c"
  shows "fst (rb_do r c) = Some c \<and> rb_wf (snd (rb_do r c)) \<and> rb_view (snd (rb_do r c)) = Some rest"
  using assms by (cases c) (simp_all add: case_prod_beta rb_laws rb_u16_be16 rb_u24_be24)

lemma rb_dos_calls:
  "rb_wf r \<Longrightarrow> rb_view r = Some (concat (map call_bytes cs) @ rest) \<Longrightarrow> list_all call_fits cs \<Longrightarrow>
   fst (rb_dos r cs) = map Some cs \<and> rb_view (snd (rb_dos r cs)) = Some rest"
proof (induction cs arbitrary: r)
  case (Cons c cs)
  then show ?case
    using rb_do_call [of r c "concat (map call_bytes cs) @ rest"] by (simp add: case_prod_beta)
qed simp

section \<open>Properties\<close>

text \<open>C31: A run of writer calls on a buffer of \<open>cap\<close> bytes writes the encodings one after another
  when they fit and ends in the sticky error when they do not, and either way leaves the buffer
  past \<open>cap\<close> as it was.\<close>

theorem wb_run_in_bounds:
  assumes "cap \<le> length p"
  shows "wb_view (foldl wb_do (wb_init p cap) cs) =
      (if length (concat (map call_bytes cs)) \<le> cap then Some (concat (map call_bytes cs)) else None) \<and>
    length (wb_p (foldl wb_do (wb_init p cap) cs)) = length p \<and>
    drop cap (wb_p (foldl wb_do (wb_init p cap) cs)) = drop cap p"
  using wb_dos_kept [OF wb_init_wf [OF assms], of cs] wb_dos_view [OF wb_init_wf [OF assms], of cs]
  by (simp add: wb_kept_def wb_init_view wb_init_cap wb_init_p view_put_def)

theorem wb_run_in_bounds_witness:
  "wb_view (foldl wb_do (wb_init [1, 2, 3, 4, 5] 4) [W8 7, W24 258]) = Some [7, 0, 1, 2] \<and>
   drop 4 (wb_p (foldl wb_do (wb_init [1, 2, 3, 4, 5] 4) [W8 7, W24 258])) = [5] \<and>
   wb_view (foldl wb_do (wb_init [1, 2, 3, 4, 5] 4) [W24 258, W16 1]) = None"
  using wb_run_in_bounds [of 4 "[1, 2, 3, 4, 5]" "[W8 7, W24 258]"]
    wb_run_in_bounds [of 4 "[1, 2, 3, 4, 5]" "[W24 258, W16 1]"]
  by (simp add: be24_def be16_def)

text \<open>C32: What a run of writer calls wrote, the matching run of reader calls returns, value by value,
  and the reader ends with no byte left and no error.\<close>

theorem buf_roundtrip:
  assumes "cap \<le> length p" and "length (concat (map call_bytes cs)) \<le> cap" and "list_all call_fits cs"
    and "w = foldl wb_do (wb_init p cap) cs"
  shows "fst (rb_dos (rb_init (wb_p w) (wb_len w)) cs) = map Some cs \<and>
    rb_view (snd (rb_dos (rb_init (wb_p w) (wb_len w)) cs)) = Some []"
proof -
  have k: "wb_kept (wb_init p cap) w"
    unfolding assms(4) by (rule wb_dos_kept [OF wb_init_wf [OF assms(1)]])
  have "wb_view w = Some (concat (map call_bytes cs))"
    using wb_dos_view [OF wb_init_wf [OF assms(1)], of cs] assms(2,4)
    by (simp add: wb_init_view wb_init_cap view_put_def)
  then have "take (wb_len w) (wb_p w) = concat (map call_bytes cs) @ []"
    by (simp add: wb_view_def split: if_splits)
  then show ?thesis
    using k assms(3) by (intro rb_dos_calls) (simp_all add: rb_init_wf rb_init_view wb_kept_def wb_wf_def)
qed

theorem buf_roundtrip_witness:
  "fst (rb_dos (rb_init [7, 2, 88, 1, 17, 112, 9] 6) [W8 7, W16 600, W24 70000]) =
     [Some (W8 7), Some (W16 600), Some (W24 70000)]"
proof -
  let ?w = "foldl wb_do (wb_init (replicate 7 9) 7) [W8 7, W16 600, W24 70000]"
  have "wb_len ?w = 6 \<and> wb_p ?w = [7, 2, 88, 1, 17, 112, 9]" by code_simp
  then show ?thesis
    using buf_roundtrip [of 7 "replicate 7 9" "[W8 7, W16 600, W24 70000]" ?w] by simp
qed

end
