(* ===== verification/Streaming.thy ===== *)
theory Streaming
  imports Prelude
begin

text \<open>
  The contract of an incremental digest: a state that stands for the bytes absorbed so far,
  an update that appends (the locale \<open>absorber\<close>), and a final call whose result depends on those bytes alone.
  \<open>None\<close> is a stop in an assertion, which the contract rules out.
\<close>

text \<open>A run of update calls; it stops where one stops.\<close>

primrec run_updates :: "('s \<Rightarrow> bytes \<Rightarrow> 's option) \<Rightarrow> 's \<Rightarrow> bytes list \<Rightarrow> 's option" where
  "run_updates update s [] = Some s"
| "run_updates update s (a # as) = Option.bind (update s a) (\<lambda>s. run_updates update s as)"

locale absorber =
  fixes init :: "'k \<Rightarrow> 's" and update :: "'s \<Rightarrow> bytes \<Rightarrow> 's option"
    and holds :: "'s \<Rightarrow> 'k \<Rightarrow> bytes \<Rightarrow> bool" and valid :: "'k \<Rightarrow> bool"
  assumes init_holds: "valid k \<Longrightarrow> holds (init k) k []"
    and update_holds: "holds s k m \<Longrightarrow> \<exists>s'. update s a = Some s' \<and> holds s' k (m @ a)"
begin

lemma updates_holds: "holds s k m \<Longrightarrow> \<exists>s'. run_updates update s as = Some s' \<and> holds s' k (m @ concat as)"
proof (induction as arbitrary: s m)
  case (Cons a as)
  then obtain s1 where "update s a = Some s1" "holds s1 k (m @ a)" using update_holds by blast
  then show ?case using Cons.IH [of s1 "m @ a"] by auto
qed auto

lemma absorbed: "valid k \<Longrightarrow> \<exists>s. run_updates update (init k) as = Some s \<and> holds s k (concat as)"
  using updates_holds [OF init_holds, of k as] by simp

end

locale streaming = absorber init update holds valid
  for init :: "'k \<Rightarrow> 's" and update :: "'s \<Rightarrow> bytes \<Rightarrow> 's option"
    and holds :: "'s \<Rightarrow> 'k \<Rightarrow> bytes \<Rightarrow> bool" and valid :: "'k \<Rightarrow> bool" +
  fixes final :: "'s \<Rightarrow> 'o option" and spec :: "'k \<Rightarrow> bytes \<Rightarrow> 'o"
  assumes final_holds: "holds s k m \<Longrightarrow> final s = Some (spec k m)"
begin

lemma digest: "valid k \<Longrightarrow> Option.bind (run_updates update (init k) as) final = Some (spec k (concat as))"
  using absorbed [of k as] final_holds by auto

lemma digest_split: "valid k \<Longrightarrow> concat as = concat bs \<Longrightarrow>
    Option.bind (run_updates update (init k) as) final = Option.bind (run_updates update (init k) bs) final"
  by (simp add: digest)

end

end
