(* ===== verification/Block_Hash.thy ===== *)
theory Block_Hash
  imports Streaming
begin

text \<open>
  The buffering that \<open>src/sha256.c\<close>, \<open>src/sha1.c\<close> and \<open>src/sha512.c\<close> write once each, over
  their own compression function and block length: the context, the update loop, and the
  padding of the last one or two blocks.  The locale \<open>block_hash\<close> shows that a context stands
  for the bytes absorbed, whatever the pieces they came in; the three hashes interpret it.

  A write at or past the end of the block array would be out of bounds in C; the byte loops
  without a bound of their own return \<open>None\<close> there.
\<close>

section \<open>Model\<close>

record 'w hash_ctx =
  hc_h :: "'w list"
  hc_total :: u64
  hc_block :: bytes
  hc_fill :: nat

text \<open>The guarded byte loop that completes a partial block, and what is left of the input.\<close>

fun fill_loop :: "nat \<Rightarrow> 'w hash_ctx \<Rightarrow> bytes \<Rightarrow> 'w hash_ctx \<times> bytes" where
  "fill_loop blk s [] = (s, [])"
| "fill_loop blk s (b # inp) =
     (if hc_fill s < blk
      then fill_loop blk (s\<lparr>hc_block := (hc_block s)[hc_fill s := b], hc_fill := hc_fill s + 1\<rparr>) inp
      else (s, b # inp))"

text \<open>Whole blocks straight from the input.\<close>

function whole_loop :: "('w list \<Rightarrow> bytes \<Rightarrow> 'w list) \<Rightarrow> nat \<Rightarrow> 'w list \<Rightarrow> bytes \<Rightarrow> 'w list \<times> bytes" where
  "whole_loop compress blk h inp =
     (if 0 < blk \<and> blk \<le> length inp then whole_loop compress blk (compress h (take blk inp)) (drop blk inp)
      else (h, inp))"
  by pat_completeness auto

termination whole_loop
  by (relation "measure (\<lambda>(compress, blk, h, inp). length inp)") auto

declare whole_loop.simps [simp del]

text \<open>The tail loop, which has no bound of its own.\<close>

fun tail_loop :: "nat \<Rightarrow> 'w hash_ctx \<Rightarrow> bytes \<Rightarrow> 'w hash_ctx option" where
  "tail_loop blk s [] = Some s"
| "tail_loop blk s (b # inp) =
     (if hc_fill s < blk
      then tail_loop blk (s\<lparr>hc_block := (hc_block s)[hc_fill s := b], hc_fill := hc_fill s + 1\<rparr>) inp
      else None)"

definition block_update :: "('w list \<Rightarrow> bytes \<Rightarrow> 'w list) \<Rightarrow> nat \<Rightarrow> 'w hash_ctx \<Rightarrow> bytes \<Rightarrow> 'w hash_ctx option" where
  "block_update compress blk s inp =
     (let s = s\<lparr>hc_total := hc_total s + of_nat (length inp)\<rparr>;
          (s, inp) =
            (if hc_fill s > 0 then
               let (s, inp) = fill_loop blk s inp
               in if hc_fill s = blk then (s\<lparr>hc_h := compress (hc_h s) (hc_block s), hc_fill := 0\<rparr>, inp)
                  else (s, inp)
             else (s, inp));
          (h, inp) = whole_loop compress blk (hc_h s) inp
      in tail_loop blk (s\<lparr>hc_h := h\<rparr>) inp)"

text \<open>Zero bytes from one position up to another, by \<open>memset\<close> or by a loop.\<close>

definition zero_fill :: "bytes \<Rightarrow> nat \<Rightarrow> nat \<Rightarrow> bytes" where
  "zero_fill block i j = take i block @ replicate (j - i) 0 @ drop j block"

text \<open>
  The padding written into the block: the \<open>0x80\<close> byte, zeros, a block more where no room for
  the \<open>l\<close> length bytes is left, and the length bytes.
\<close>

definition block_finalize :: "('w list \<Rightarrow> bytes \<Rightarrow> 'w list) \<Rightarrow> nat \<Rightarrow> bytes \<Rightarrow> 'w hash_ctx \<Rightarrow> 'w hash_ctx option" where
  "block_finalize compress blk len s =
     (if \<not> hc_fill s < blk then None
      else
        let s = s\<lparr>hc_block := (hc_block s)[hc_fill s := 0x80], hc_fill := hc_fill s + 1\<rparr>;
            s = (if hc_fill s > blk - length len
                 then s\<lparr>hc_h := compress (hc_h s) (zero_fill (hc_block s) (hc_fill s) blk),
                        hc_block := zero_fill (hc_block s) (hc_fill s) blk, hc_fill := 0\<rparr>
                 else s);
            block = take (blk - length len) (zero_fill (hc_block s) (hc_fill s) (blk - length len)) @ len
        in Some (s\<lparr>hc_block := block, hc_h := compress (hc_h s) block, hc_fill := 0\<rparr>))"

text \<open>A local context starts with contents the init call overwrites, but for the block bytes, which are not read.\<close>

definition ctx_fresh :: "'w list \<Rightarrow> nat \<Rightarrow> 'w hash_ctx" where
  "ctx_fresh h blk = \<lparr>hc_h = h, hc_total = 0, hc_block = replicate blk 0, hc_fill = 0\<rparr>"

subsection \<open>Specification\<close>

text \<open>FIPS 180-4: the padded message, and the compression function chained over its blocks.\<close>

definition be_bytes :: "nat \<Rightarrow> nat \<Rightarrow> bytes" where
  "be_bytes k n = map (\<lambda>i. of_nat (n div 256 ^ (k - 1 - i))) [0..<k]"

definition pad_zeros :: "nat \<Rightarrow> nat \<Rightarrow> nat \<Rightarrow> nat" where
  "pad_zeros blk l n = (2 * blk - 1 - l - n mod blk) mod blk"

definition hash_pad :: "nat \<Rightarrow> nat \<Rightarrow> bytes \<Rightarrow> bytes" where
  "hash_pad blk l m = m @ 0x80 # replicate (pad_zeros blk l (length m)) 0 @ be_bytes l (8 * length m)"

definition chain :: "('w list \<Rightarrow> bytes \<Rightarrow> 'w list) \<Rightarrow> nat \<Rightarrow> 'w list \<Rightarrow> bytes \<Rightarrow> 'w list" where
  "chain compress blk h m = fst (whole_loop compress blk h m)"

text \<open>
  What a context stands for: \<open>w\<close> whole blocks compressed from the initial value and \<open>t\<close> waiting
  in the block array.
\<close>

definition ctx_parts ::
    "('w list \<Rightarrow> bytes \<Rightarrow> 'w list) \<Rightarrow> nat \<Rightarrow> 'w list \<Rightarrow> 'w hash_ctx \<Rightarrow> bytes \<Rightarrow> bytes \<Rightarrow> bool" where
  "ctx_parts compress blk iv s w t \<longleftrightarrow>
     length (hc_block s) = blk \<and> hc_fill s = length t \<and> take (length t) (hc_block s) = t \<and>
     length w mod blk = 0 \<and> hc_h s = chain compress blk iv w"

definition ctx_holds ::
    "('w list \<Rightarrow> bytes \<Rightarrow> 'w list) \<Rightarrow> nat \<Rightarrow> 'w list \<Rightarrow> 'w hash_ctx \<Rightarrow> bytes \<Rightarrow> bool" where
  "ctx_holds compress blk iv s m \<longleftrightarrow> hc_total s = of_nat (length m) \<and>
     (\<exists>w t. m = w @ t \<and> length t < blk \<and> ctx_parts compress blk iv s w t)"

section \<open>Buffering\<close>

lemma length_be_bytes [simp]: "length (be_bytes k n) = k"
  by (simp add: be_bytes_def)

lemma whole_loop_short [simp]: "length inp < blk \<Longrightarrow> whole_loop compress blk h inp = (h, inp)"
  by (simp add: whole_loop.simps [of compress blk h inp])

lemma whole_loop_block [simp]:
  "0 < blk \<Longrightarrow> length b = blk \<Longrightarrow> whole_loop compress blk h (b @ m) = whole_loop compress blk (compress h b) m"
  by (subst whole_loop.simps) simp

lemma take_zero_fill: "i \<le> j \<Longrightarrow> j \<le> length b \<Longrightarrow> take j (zero_fill b i j) = take i b @ replicate (j - i) 0"
  by (simp add: zero_fill_def)

locale block_hash =
  fixes compress :: "'w list \<Rightarrow> bytes \<Rightarrow> 'w list" and blk :: nat and iv :: "'w list"
  assumes blk_pos: "0 < blk"
begin

lemma whole_loop_left: "snd (whole_loop compress blk h m) = drop (length m - length m mod blk) m"
proof (induction m arbitrary: h rule: length_induct)
  case (1 m)
  show ?case
  proof (cases "blk \<le> length m")
    case True
    then have "length (drop blk m) < length m" using blk_pos by auto
    moreover have "(length m - blk) mod blk = length m mod blk" using True by (metis le_mod_geq)
    moreover have "length m mod blk \<le> length m - blk"
      using calculation(2) by (metis mod_less_eq_dividend)
    ultimately show ?thesis
      using 1 True blk_pos by (subst whole_loop.simps) simp
  qed simp
qed

lemma chain_short [simp]: "length m < blk \<Longrightarrow> chain compress blk h m = h"
  by (simp add: chain_def)

lemma chain_step [simp]: "length b = blk \<Longrightarrow> chain compress blk h (b @ m) = chain compress blk (compress h b) m"
  using blk_pos by (simp add: chain_def)

lemma chain_append:
  "length m mod blk = 0 \<Longrightarrow> chain compress blk h (m @ m') = chain compress blk (chain compress blk h m) m'"
proof (induction m arbitrary: h rule: length_induct)
  case (1 m)
  show ?case
  proof (cases "m = []")
    case True
    then show ?thesis using blk_pos by simp
  next
    case False
    then have le: "blk \<le> length m" using 1(2) by (metis dvd_imp_le length_greater_0_conv mod_0_imp_dvd)
    define b where "b = take blk m"
    define r where "r = drop blk m"
    have m: "m = b @ r" and l: "length b = blk" using le by (simp_all add: b_def r_def)
    have "length r mod blk = 0" "length r < length m" using 1(2) l blk_pos by (simp_all add: m)
    then have "chain compress blk (compress h b) (r @ m') = chain compress blk (chain compress blk (compress h b) r) m'"
      by (rule 1(1) [rule_format, rotated])
    then show ?thesis by (simp add: m l)
  qed
qed

lemma chain_block: "length b = blk \<Longrightarrow> chain compress blk h b = compress h b"
  using chain_step [of b h "[]"] blk_pos by simp

abbreviation parts :: "'w hash_ctx \<Rightarrow> bytes \<Rightarrow> bytes \<Rightarrow> bool" where
  "parts \<equiv> ctx_parts compress blk iv"

abbreviation holds :: "'w hash_ctx \<Rightarrow> bytes \<Rightarrow> bool" where
  "holds \<equiv> ctx_holds compress blk iv"

lemma parts_byte:
  "parts s w t \<Longrightarrow> length t < blk \<Longrightarrow>
   parts (s\<lparr>hc_block := (hc_block s)[length t := b], hc_fill := Suc (length t)\<rparr>) w (t @ [b])"
  by (simp add: ctx_parts_def take_Suc_conv_app_nth)

lemma parts_compress:
  "parts s w t \<Longrightarrow> length t = blk \<Longrightarrow> parts (s\<lparr>hc_h := compress (hc_h s) (hc_block s), hc_fill := 0\<rparr>) (w @ t) []"
  by (auto simp: ctx_parts_def chain_append chain_block)

lemma parts_fill:
  assumes "parts s w t" and "length t \<le> blk" and "fill_loop blk s inp = (s', rest)"
  shows "hc_total s' = hc_total s \<and> (\<exists>u. inp = u @ rest \<and> parts s' w (t @ u) \<and> length (t @ u) \<le> blk \<and>
    (length (t @ u) = blk \<or> rest = []))"
  using assms
proof (induction inp arbitrary: s t)
  case (Cons b inp)
  have f: "hc_fill s = length t" using Cons.prems(1) by (simp add: ctx_parts_def)
  show ?case
  proof (cases "length t < blk")
    case True
    let ?s = "s\<lparr>hc_block := (hc_block s)[length t := b], hc_fill := Suc (length t)\<rparr>"
    have "fill_loop blk ?s inp = (s', rest)" using Cons.prems(3) True f by simp
    then obtain u where "hc_total s' = hc_total s" "inp = u @ rest" "parts s' w ((t @ [b]) @ u)"
        "length ((t @ [b]) @ u) \<le> blk" "length ((t @ [b]) @ u) = blk \<or> rest = []"
      using Cons.IH [OF parts_byte [OF Cons.prems(1) True, of b]] True by auto
    then show ?thesis by (intro conjI exI [of _ "b # u"]) auto
  next
    case False
    then show ?thesis using Cons.prems f by auto
  qed
qed auto

lemma parts_tail:
  "parts s w t \<Longrightarrow> length t + length inp \<le> blk \<Longrightarrow>
   \<exists>s'. tail_loop blk s inp = Some s' \<and> hc_total s' = hc_total s \<and> parts s' w (t @ inp)"
proof (induction inp arbitrary: s t)
  case (Cons b inp)
  have f: "hc_fill s = length t" using Cons.prems(1) by (simp add: ctx_parts_def)
  show ?case using Cons.IH [OF parts_byte [OF Cons.prems(1), of b]] Cons.prems(2) f by auto
qed auto

lemma parts_whole:
  assumes "parts s w []" and "whole_loop compress blk (hc_h s) inp = (h, rest)"
  shows "length rest < blk \<and> (\<exists>u. inp = u @ rest \<and> parts (s\<lparr>hc_h := h\<rparr>) (w @ u) [])"
proof -
  have "rest = drop (length inp - length inp mod blk) inp" using whole_loop_left [of "hc_h s" inp] assms(2) by simp
  moreover define u where "u = take (length inp - length inp mod blk) inp"
  ultimately have u: "inp = u @ rest" "length rest < blk" "length u mod blk = 0"
    using blk_pos by (auto simp: minus_mod_eq_mult_div minus_mult_div_eq_mod)
  have "h = chain compress blk (hc_h s) (u @ rest)" using assms(2) u(1) by (simp add: chain_def)
  then have "h = chain compress blk iv (w @ u)"
    using assms(1) u by (simp add: ctx_parts_def chain_append)
  then show ?thesis using assms(1) u by (auto simp: ctx_parts_def)
qed

lemma update_holds:
  assumes "holds s m"
  shows "\<exists>s'. block_update compress blk s inp = Some s' \<and> holds s' (m @ inp)"
proof -
  obtain w t where m: "m = w @ t" "length t < blk" "parts s w t" "hc_total s = of_nat (length m)"
    using assms by (auto simp: ctx_holds_def)
  let ?s = "s\<lparr>hc_total := hc_total s + of_nat (length inp)\<rparr>"
  define r where "r = (if hc_fill ?s > 0 then
      let (s, inp) = fill_loop blk ?s inp
      in if hc_fill s = blk then (s\<lparr>hc_h := compress (hc_h s) (hc_block s), hc_fill := 0\<rparr>, inp) else (s, inp)
    else (?s, inp))"
  have p: "parts ?s w t" using m(3) by (simp add: ctx_parts_def)
  obtain u w1 t1 where r: "inp = u @ snd r" "m @ u = w1 @ t1" "length t1 < blk" "parts (fst r) w1 t1"
      "t1 = [] \<or> snd r = []" "hc_total (fst r) = hc_total ?s"
  proof (cases "t = []")
    case True
    then show ?thesis using that [of "[]" m "[]"] m p by (simp add: r_def ctx_parts_def)
  next
    case False
    obtain s1 rest where f: "fill_loop blk ?s inp = (s1, rest)" by fastforce
    obtain u where u: "hc_total s1 = hc_total ?s" "inp = u @ rest" "parts s1 w (t @ u)" "length (t @ u) \<le> blk"
        "length (t @ u) = blk \<or> rest = []"
      using parts_fill [OF p less_imp_le [OF m(2)] f] by auto
    have fill: "hc_fill ?s > 0" "hc_fill s1 = length (t @ u)" using False m(3) u(3) by (simp_all add: ctx_parts_def)
    show ?thesis
    proof (cases "length (t @ u) = blk")
      case full: True
      then have "r = (s1\<lparr>hc_h := compress (hc_h s1) (hc_block s1), hc_fill := 0\<rparr>, rest)"
        using fill f by (simp add: r_def)
      then show ?thesis using that [of u "w @ t @ u" "[]"] u m parts_compress [OF u(3) full] by simp
    next
      case not: False
      then have "r = (s1, rest)" using fill f by (simp add: r_def)
      then show ?thesis using that [of u w "t @ u"] u m not by simp
    qed
  qed
  obtain h rest where wl: "whole_loop compress blk (hc_h (fst r)) (snd r) = (h, rest)" by fastforce
  obtain w2 t2 where x: "length (t2 @ rest) < blk" "parts ((fst r)\<lparr>hc_h := h\<rparr>) w2 t2" "m @ inp = w2 @ t2 @ rest"
  proof (cases "t1 = []")
    case True
    then have p1: "parts (fst r) w1 []" using r(4) by simp
    show ?thesis using that [of "[]"] parts_whole [OF p1 wl] r True by auto
  next
    case False
    then have "snd r = []" using r(5) by simp
    moreover from this have "parts ((fst r)\<lparr>hc_h := h\<rparr>) w1 t1" using wl r(4) blk_pos by (simp add: ctx_parts_def)
    ultimately show ?thesis using that [of t1 w1] wl r m blk_pos by simp
  qed
  have "block_update compress blk s inp =
      (case r of (s, inp) \<Rightarrow> case whole_loop compress blk (hc_h s) inp of (h, inp) \<Rightarrow> tail_loop blk (s\<lparr>hc_h := h\<rparr>) inp)"
    unfolding r_def block_update_def Let_def ..
  then have "block_update compress blk s inp = tail_loop blk ((fst r)\<lparr>hc_h := h\<rparr>) rest"
    using wl by (simp add: case_prod_beta)
  then obtain s' where s': "block_update compress blk s inp = Some s'" "parts s' w2 (t2 @ rest)" "hc_total s' = hc_total (fst r)"
    using parts_tail [OF x(2), of rest] x by auto
  then have "hc_total s' = of_nat (length (m @ inp))" using r(6) m(4) by simp
  then have "holds s' (m @ inp)" unfolding ctx_holds_def using s'(2) x(1,3) by blast
  then show ?thesis using s'(1) by blast
qed

lemma finalize_chain:
  assumes "holds s m" and "length len < blk"
  shows "\<exists>s'. block_finalize compress blk len s = Some s' \<and>
    hc_h s' = chain compress blk iv (m @ 0x80 # replicate (pad_zeros blk (length len) (length m)) 0 @ len)"
proof -
  obtain w t where m: "m = w @ t" "length t < blk" "parts s w t" using assms(1) by (auto simp: ctx_holds_def)
  let ?l = "length len"
  let ?s = "s\<lparr>hc_block := (hc_block s)[length t := 0x80], hc_fill := Suc (length t)\<rparr>"
  have f: "hc_fill s = length t" using m(3) by (simp add: ctx_parts_def)
  have p: "parts ?s w (t @ [0x80])" by (rule parts_byte [OF m(3,2)])
  then have tk: "take (Suc (length t)) (hc_block ?s) = t @ [0x80]" "length (hc_block ?s) = blk"
    by (simp_all add: ctx_parts_def)
  have lm: "length m mod blk = length t" using m by (simp add: ctx_parts_def mod_add_left_eq [symmetric])
  show ?thesis
  proof (cases "blk - ?l < Suc (length t)")
    case True
    let ?b1 = "t @ 0x80 # replicate (blk - Suc (length t)) 0" and ?b2 = "replicate (blk - ?l) 0 @ len"
    have z: "zero_fill (hc_block ?s) (Suc (length t)) blk = ?b1" using tk by (simp add: zero_fill_def)
    have "pad_zeros blk ?l (length m) = (blk - Suc (length t)) + (blk - ?l)"
      unfolding pad_zeros_def lm using True m(2) assms(2) by simp
    then have "m @ 0x80 # replicate (pad_zeros blk ?l (length m)) 0 @ len = w @ ?b1 @ ?b2"
      by (simp add: m(1) replicate_add)
    moreover have "chain compress blk iv (w @ ?b1 @ ?b2) = compress (compress (hc_h s) ?b1) ?b2"
      using m(2,3) assms(2) chain_step [of ?b1 "chain compress blk iv w" ?b2] chain_block [of ?b2]
      by (simp add: ctx_parts_def chain_append)
    ultimately have "chain compress blk iv (m @ 0x80 # replicate (pad_zeros blk ?l (length m)) 0 @ len) =
        compress (compress (hc_h s) ?b1) ?b2" by (simp only:)
    then show ?thesis
      using True m(2) f z tk(2) by (simp add: block_finalize_def Let_def zero_fill_def)
  next
    case False
    let ?b = "t @ 0x80 # replicate (blk - ?l - Suc (length t)) 0 @ len"
    have "pad_zeros blk ?l (length m) = blk - ?l - Suc (length t)"
      unfolding pad_zeros_def lm using False m(2) assms(2) by (subst le_mod_geq) simp_all
    then have "m @ 0x80 # replicate (pad_zeros blk ?l (length m)) 0 @ len = w @ ?b" by (simp add: m(1))
    moreover have "chain compress blk iv (w @ ?b) = compress (hc_h s) ?b"
      using m(2,3) False assms(2) by (simp add: ctx_parts_def chain_append chain_block)
    ultimately have "chain compress blk iv (m @ 0x80 # replicate (pad_zeros blk ?l (length m)) 0 @ len) =
        compress (hc_h s) ?b" by (simp only:)
    moreover have "take (blk - ?l) (zero_fill (hc_block ?s) (Suc (length t)) (blk - ?l)) @ len = ?b"
      using take_zero_fill [of "Suc (length t)" "blk - ?l" "hc_block ?s"] tk False by simp
    ultimately show ?thesis
      using False m(2) f by (simp add: block_finalize_def Let_def)
  qed
qed

end

section \<open>Contexts\<close>

lemma holds_fill: "ctx_holds compress blk iv s m \<Longrightarrow> hc_fill s = length m mod blk"
  by (auto simp: ctx_holds_def ctx_parts_def mod_add_left_eq [symmetric])

lemma holds_init: "0 < blk \<Longrightarrow> length (hc_block s) = blk \<Longrightarrow>
    ctx_holds compress blk iv (s\<lparr>hc_h := iv, hc_total := 0, hc_fill := 0\<rparr>) []"
  by (auto simp: ctx_holds_def ctx_parts_def chain_def)

lemma ctx_fresh_block [simp]: "length (hc_block (ctx_fresh h blk)) = blk"
  by (simp add: ctx_fresh_def)

lemma length_chain:
  assumes "\<And>h p. length (compress h p) = n"
  shows "length h = n \<Longrightarrow> length (chain compress blk h m) = n"
proof (induction m arbitrary: h rule: length_induct)
  case (1 m)
  have "length (chain compress blk (compress h (take blk m)) (drop blk m)) = n" if "0 < blk" "blk \<le> length m"
    using that assms by (intro 1(1) [rule_format]) auto
  then show ?case using 1(2) by (simp add: chain_def whole_loop.simps [of _ _ _ m])
qed

lemma hash_pad_aligned:
  assumes "l < blk"
  shows "length (hash_pad blk l m) mod blk = 0"
proof -
  define r where "r = length m mod blk"
  have r: "r < blk" "length m = length m div blk * blk + r" using assms by (simp_all add: r_def)
  have "r + 1 + pad_zeros blk l (length m) + l = (if r + l < blk then blk else 2 * blk)"
    unfolding pad_zeros_def r_def [symmetric] using r(1) assms by (simp add: le_mod_geq)
  then have "length (hash_pad blk l m) = length m div blk * blk + (if r + l < blk then blk else 2 * blk)"
    using r(2) by (simp add: hash_pad_def)
  then show ?thesis by simp
qed

end
