(* ===== verification/Sha256.thy ===== *)
theory Sha256
  imports Block_Hash
begin

text \<open>
  SHA-256 of \<open>src/sha256.c\<close>: the compression function, the context over the shared
  buffering of \<open>Block_Hash\<close>, and the final call, which feeds the padding through update a byte at a time.
\<close>

section \<open>Model\<close>

definition K256 :: "u32 list" where
  "K256 = concat [
     [0x428a2f98, 0x71374491, 0xb5c0fbcf, 0xe9b5dba5, 0x3956c25b, 0x59f111f1, 0x923f82a4, 0xab1c5ed5],
     [0xd807aa98, 0x12835b01, 0x243185be, 0x550c7dc3, 0x72be5d74, 0x80deb1fe, 0x9bdc06a7, 0xc19bf174],
     [0xe49b69c1, 0xefbe4786, 0x0fc19dc6, 0x240ca1cc, 0x2de92c6f, 0x4a7484aa, 0x5cb0a9dc, 0x76f988da],
     [0x983e5152, 0xa831c66d, 0xb00327c8, 0xbf597fc7, 0xc6e00bf3, 0xd5a79147, 0x06ca6351, 0x14292967],
     [0x27b70a85, 0x2e1b2138, 0x4d2c6dfc, 0x53380d13, 0x650a7354, 0x766a0abb, 0x81c2c92e, 0x92722c85],
     [0xa2bfe8a1, 0xa81a664b, 0xc24b8b70, 0xc76c51a3, 0xd192e819, 0xd6990624, 0xf40e3585, 0x106aa070],
     [0x19a4c116, 0x1e376c08, 0x2748774c, 0x34b0bcb5, 0x391c0cb3, 0x4ed8aa4a, 0x5b9cca4f, 0x682e6ff3],
     [0x748f82ee, 0x78a5636f, 0x84c87814, 0x8cc70208, 0x90befffa, 0xa4506ceb, 0xbef9a3f7, 0xc67178f2]]"

definition rotate_right :: "u32 \<Rightarrow> nat \<Rightarrow> u32" where
  "rotate_right x r = drop_bit r x OR push_bit (32 - r) x"

text \<open>The message schedule: 16 words of the block, then each word from four before it.\<close>

definition schedule_word :: "u32 list \<Rightarrow> nat \<Rightarrow> u32" where
  "schedule_word w i =
     (let s0 = rotate_right (w ! (i - 15)) 7 XOR rotate_right (w ! (i - 15)) 18 XOR drop_bit 3 (w ! (i - 15));
          s1 = rotate_right (w ! (i - 2)) 17 XOR rotate_right (w ! (i - 2)) 19 XOR drop_bit 10 (w ! (i - 2))
      in w ! (i - 16) + s0 + w ! (i - 7) + s1)"

definition load_be32 :: "bytes \<Rightarrow> nat \<Rightarrow> u32" where
  "load_be32 p i = push_bit 24 (ucast (p ! i)) OR push_bit 16 (ucast (p ! (i + 1))) OR
     push_bit 8 (ucast (p ! (i + 2))) OR ucast (p ! (i + 3))"

definition schedule :: "bytes \<Rightarrow> u32 list" where
  "schedule p = foldl (\<lambda>w i. w @ [schedule_word w i]) (map (\<lambda>i. load_be32 p (4 * i)) [0..<16]) [16..<64]"

type_synonym regs = "u32 \<times> u32 \<times> u32 \<times> u32 \<times> u32 \<times> u32 \<times> u32 \<times> u32"

fun sha256_round :: "regs \<Rightarrow> u32 \<Rightarrow> u32 \<Rightarrow> regs" where
  "sha256_round (a, b, c, d, e, f, g, hh) k w =
     (let S1 = rotate_right e 6 XOR rotate_right e 11 XOR rotate_right e 25;
          ch = (e AND f) XOR (NOT e AND g);
          t1 = hh + S1 + ch + k + w;
          S0 = rotate_right a 2 XOR rotate_right a 13 XOR rotate_right a 22;
          maj = (a AND b) XOR (a AND c) XOR (b AND c);
          t2 = S0 + maj
      in (t1 + t2, a, b, c, d + t1, e, f, g))"

definition compress :: "u32 list \<Rightarrow> bytes \<Rightarrow> u32 list" where
  "compress h p =
     (let w = schedule p;
          (a, b, c, d, e, f, g, hh) =
            foldl (\<lambda>r i. sha256_round r (K256 ! i) (w ! i))
              (h ! 0, h ! 1, h ! 2, h ! 3, h ! 4, h ! 5, h ! 6, h ! 7) [0..<64]
      in [h ! 0 + a, h ! 1 + b, h ! 2 + c, h ! 3 + d, h ! 4 + e, h ! 5 + f, h ! 6 + g, h ! 7 + hh])"

type_synonym sha256 = "u32 hash_ctx"

definition sha256_iv :: "u32 list" where
  "sha256_iv = [0x6a09e667, 0xbb67ae85, 0x3c6ef372, 0xa54ff53a, 0x510e527f, 0x9b05688c, 0x1f83d9ab, 0x5be0cd19]"

definition sha256_init :: "sha256 \<Rightarrow> sha256" where
  "sha256_init s = s\<lparr>hc_h := sha256_iv, hc_total := 0, hc_fill := 0\<rparr>"

definition sha256_update :: "sha256 \<Rightarrow> bytes \<Rightarrow> sha256 option" where
  "sha256_update = block_update compress 64"

text \<open>
  The padding loop runs until the fill count comes round to 56; not returning is \<open>None\<close>, and
  so is a stop inside update.
\<close>

partial_function (option) pad_loop :: "sha256 \<Rightarrow> sha256 option" where
  "pad_loop s = (if hc_fill s \<noteq> 64 - 8 then Option.bind (sha256_update s [0]) (\<lambda>s. pad_loop s) else Some s)"

definition store_be32 :: "u32 \<Rightarrow> bytes" where
  "store_be32 v = [ucast (drop_bit 24 v), ucast (drop_bit 16 v), ucast (drop_bit 8 v), ucast v]"

definition len_be64 :: "u64 \<Rightarrow> bytes" where
  "len_be64 bits = map (\<lambda>i. ucast (drop_bit (56 - 8 * i) bits)) [0..<8]"

definition sha256_final :: "sha256 \<Rightarrow> (bytes \<times> sha256) option" where
  "sha256_final s =
     (let bits = hc_total s * 8
      in do {
        s \<leftarrow> sha256_update s [0x80];
        s \<leftarrow> pad_loop s;
        s \<leftarrow> sha256_update s (len_be64 bits);
        Some (concat (map store_be32 (hc_h s)), s)
      })"

definition sha256_of :: "bytes \<Rightarrow> bytes option" where
  "sha256_of inp =
     do {
       s \<leftarrow> sha256_update (sha256_init (ctx_fresh [] 64)) inp;
       (out, s) \<leftarrow> sha256_final s;
       Some out
     }"

subsection \<open>Specification\<close>

definition sha256_hash :: "bytes \<Rightarrow> bytes" where
  "sha256_hash m = concat (map store_be32 (chain compress 64 sha256_iv (hash_pad 64 8 m)))"

section \<open>The digest\<close>

interpretation sha256_blocks: block_hash compress 64 sha256_iv
  by unfold_locales simp

abbreviation sha256_holds :: "sha256 \<Rightarrow> bytes \<Rightarrow> bool" where
  "sha256_holds \<equiv> ctx_holds compress 64 sha256_iv"

lemmas sha256_update_holds = sha256_blocks.update_holds [folded sha256_update_def]

lemma pad_count: "r < 64 \<Longrightarrow> (120 - r) mod 64 = (if r \<le> 56 then 56 - r else 120 - r :: nat)"
  by (simp add: le_mod_geq)

lemma pad_step:
  assumes "(120 - n mod 64) mod 64 = Suc k"
  shows "k = (120 - Suc n mod 64) mod 64"
proof -
  define r where "r = n mod 64"
  have "r < 64" by (simp add: r_def)
  then have "k = (120 - (if r = 63 then 0 else Suc r)) mod 64"
    using assms pad_count [of r] pad_count [of "Suc r"] unfolding r_def [symmetric]
    by (cases "r \<le> 55"; cases "r = 63") (auto split: if_splits)
  then show ?thesis by (simp add: mod_Suc r_def)
qed

lemma pad_loop_holds:
  assumes "sha256_holds s m"
  shows "\<exists>s'. pad_loop s = Some s' \<and> sha256_holds s' (m @ replicate ((120 - length m mod 64) mod 64) 0)"
  using assms
proof (induction "(120 - length m mod 64) mod 64" arbitrary: s m)
  case 0
  then have "length m mod 64 = 56" using pad_count [of "length m mod 64"] by (simp split: if_splits)
  then show ?case using 0 holds_fill [OF 0(2)] by (simp add: pad_loop.simps)
next
  case (Suc k)
  have r: "(120 - length m mod 64) mod 64 = Suc k" using Suc.hyps(2) by simp
  then have ne: "length m mod 64 \<noteq> 56" by auto
  have k: "k = (120 - length (m @ [0 :: u8]) mod 64) mod 64"
    using pad_step [OF r] by simp
  obtain s1 where s1: "sha256_update s [0] = Some s1" "sha256_holds s1 (m @ [0])"
    using sha256_update_holds [OF Suc.prems, of "[0]"] by blast
  obtain s' where "pad_loop s1 = Some s'" "sha256_holds s' ((m @ [0]) @ replicate k 0)"
    using Suc.hyps(1) [OF k s1(2)] k by auto
  then show ?case
    using r s1(1) ne holds_fill [OF Suc.prems] by (subst pad_loop.simps) simp
qed

lemma div_mod_byte:
  assumes "n + 8 \<le> 64"
  shows "k mod 2 ^ 64 div 2 ^ n mod 2 ^ 8 = k div 2 ^ n mod (2 ^ 8 :: nat)"
proof -
  have "(2 :: nat) ^ 64 = 2 ^ n * 2 ^ (64 - n)" using assms by (simp flip: power_add)
  then have "k mod 2 ^ 64 div 2 ^ n = k div 2 ^ n mod 2 ^ (64 - n)"
    by (simp only: mod_mult2_eq) simp
  moreover have "(2 :: nat) ^ 8 dvd 2 ^ (64 - n)" using assms by (intro le_imp_power_dvd) simp
  ultimately show ?thesis by (simp only: mod_mod_cancel)
qed

lemma byte_of_word: "n + 8 \<le> 64 \<Longrightarrow> ucast (drop_bit n (of_nat k :: u64)) = (of_nat (k div 2 ^ n) :: u8)"
  using div_mod_byte [of n k]
  by (simp add: word_unat_eq_iff unat_ucast_mod unat_drop_bit unat_of_nat)

lemma len_be64_eq: "len_be64 (of_nat n) = be_bytes 8 n"
proof -
  have "(ucast (drop_bit (56 - 8 * i) (of_nat n :: u64)) :: u8) = of_nat (n div 256 ^ (7 - i))" if "i < 8" for i
  proof -
    have "(256 :: nat) ^ (7 - i) = (2 ^ 8) ^ (7 - i)" by simp
    also have "\<dots> = 2 ^ (56 - 8 * i)" using that by (subst power_mult [symmetric]) (simp add: diff_mult_distrib2)
    finally show ?thesis using byte_of_word [of "56 - 8 * i" n] that by simp
  qed
  then show ?thesis by (simp add: len_be64_def be_bytes_def)
qed

lemma sha256_final_holds:
  assumes "sha256_holds s m"
  shows "\<exists>s'. sha256_final s = Some (sha256_hash m, s') \<and> length (hc_block s') = 64"
proof -
  obtain s1 where s1: "sha256_update s [0x80] = Some s1" "sha256_holds s1 (m @ [0x80])"
    using sha256_update_holds [OF assms, of "[0x80]"] by blast
  define z where "z = pad_zeros 64 8 (length m)"
  have z: "z = (120 - length (m @ [0x80 :: u8]) mod 64) mod 64"
    using pad_count [of "Suc (length m) mod 64"] unfolding z_def pad_zeros_def
    by (simp add: mod_Suc le_mod_geq)
  obtain s2 where s2: "pad_loop s1 = Some s2" "sha256_holds s2 (m @ 0x80 # replicate z 0)"
    using pad_loop_holds [OF s1(2)] z by auto
  have "hc_total s * 8 = of_nat (8 * length m)" using assms by (simp add: ctx_holds_def mult.commute)
  then have len: "len_be64 (hc_total s * 8) = be_bytes 8 (8 * length m)" by (simp only: len_be64_eq)
  obtain s3 where s3: "sha256_update s2 (be_bytes 8 (8 * length m)) = Some s3" "sha256_holds s3 (hash_pad 64 8 m)"
    using sha256_update_holds [OF s2(2)] z_def by (auto simp: hash_pad_def)
  have "length (hash_pad 64 8 m) mod 64 = 0"
    by (rule hash_pad_aligned) simp
  then have "hc_h s3 = chain compress 64 sha256_iv (hash_pad 64 8 m)"
    using s3(2) holds_fill [OF s3(2)] by (auto simp: ctx_holds_def ctx_parts_def)
  moreover have "length (hc_block s3) = 64" using s3(2) by (auto simp: ctx_holds_def ctx_parts_def)
  ultimately show ?thesis
    using s1 s2 s3 len by (simp add: sha256_final_def sha256_hash_def)
qed

interpretation sha: streaming sha256_init sha256_update
    "\<lambda>s _ m. sha256_holds s m" "\<lambda>s. length (hc_block s) = 64" "\<lambda>s. map_option fst (sha256_final s)" "\<lambda>_. sha256_hash"
  by unfold_locales
    (use sha256_final_holds in \<open>fastforce simp: sha256_init_def holds_init sha256_update_holds\<close>)+

lemma sha256_of_hash: "sha256_of m = Some (sha256_hash m)"
  using sha.digest [of "ctx_fresh [] 64" "[m]"]
  by (auto simp: sha256_of_def split: Option.bind_splits)

lemma length_compress [simp]: "length (compress h p) = 8"
  by (simp add: compress_def Let_def split: prod.splits)

lemma length_store_be32 [simp]: "length (store_be32 v) = 4"
  by (simp add: store_be32_def)

lemma length_sha256_hash [simp]: "length (sha256_hash m) = 32"
proof -
  have "length (chain compress 64 sha256_iv x) = 8" for x by (rule length_chain) (simp_all add: sha256_iv_def)
  then show ?thesis by (simp add: sha256_hash_def length_concat comp_def sum_list_triv)
qed

section \<open>Properties\<close>

text \<open>C22: Absorbing a message in any pieces, from any context, and finalizing gives FIPS 180-4's digest of the
  message: the compression function chained over its padded blocks.  The padding loop ends, no byte is written outside the block, and the digest has 32 bytes.\<close>

theorem sha256_digest:
  assumes "length (hc_block s) = 64"
  shows "\<exists>s' s''. run_updates sha256_update (sha256_init s) pieces = Some s' \<and>
    sha256_final s' = Some (sha256_hash (concat pieces), s'') \<and> length (sha256_hash (concat pieces)) = 32"
  using sha.digest [of s pieces] assms by (auto simp: split: Option.bind_splits)

theorem sha256_digest_witness:
  "\<exists>s' s''. run_updates sha256_update (sha256_init (ctx_fresh [] 64)) [[1], [2, 3]] = Some s' \<and>
    sha256_final s' = Some (sha256_hash [1, 2, 3], s'') \<and> length (sha256_hash [1, 2, 3]) = 32"
  using sha256_digest [of "ctx_fresh [] 64" "[[1], [2, 3]]"] by simp

end
