(* ===== verification/Hkdf.thy ===== *)
theory Hkdf
  imports Sha256 Ct
begin

text \<open>
  HMAC, HKDF and the TLS 1.3 label scheme of \<open>src/hkdf.c\<close>, in the build whose one hash is
  SHA-256.  A stop in \<open>CH_ASSERT\<close>, and a loop that would not end, is \<open>None\<close>.
\<close>

section \<open>Model\<close>

definition HKDF_HASH_MAX :: nat where "HKDF_HASH_MAX = 32"
definition HKDF_LABEL_MAX :: nat where "HKDF_LABEL_MAX = 12"
definition HKDF_INFO_MAX :: nat where "HKDF_INFO_MAX = 2 + 1 + 6 + HKDF_LABEL_MAX + 1 + HKDF_HASH_MAX"

definition hmac_sha256 :: "bytes \<Rightarrow> bytes \<Rightarrow> bytes option" where
  "hmac_sha256 key msg =
     do {
       k \<leftarrow> (if length key > 64 then sha256_of key else Some key);
       let k = k @ replicate (64 - length k) 0;
       let pad = map (\<lambda>b. b XOR 0x36) k;
       s \<leftarrow> sha256_update (sha256_init (ctx_fresh [] 64)) pad;
       s \<leftarrow> sha256_update s msg;
       (out, s) \<leftarrow> sha256_final s;
       let pad = map (\<lambda>b. b XOR 0x5c) k;
       s \<leftarrow> sha256_update (sha256_init s) pad;
       s \<leftarrow> sha256_update s out;
       (out, s) \<leftarrow> sha256_final s;
       Some out
     }"

definition hmac :: "nat \<Rightarrow> bytes \<Rightarrow> bytes \<Rightarrow> bytes option" where
  "hmac hash_len key msg = (if hash_len \<noteq> 32 then None else hmac_sha256 key msg)"

text \<open>A \<open>NULL\<close> salt is \<open>None\<close>.\<close>

definition hkdf_extract :: "nat \<Rightarrow> bytes option \<Rightarrow> bytes \<Rightarrow> bytes option" where
  "hkdf_extract hash_len salt ikm =
     (let salt = (case salt of None \<Rightarrow> replicate hash_len 0 | Some salt \<Rightarrow> salt)
      in hmac hash_len salt ikm)"

text \<open>
  The expand loop; \<open>t\<close> holds the \<open>t_len\<close> bytes of the previous round, empty before the first,
  and \<open>out\<close> the \<open>off\<close> bytes written.
\<close>

partial_function (option) expand_loop ::
    "nat \<Rightarrow> bytes \<Rightarrow> bytes \<Rightarrow> nat \<Rightarrow> u8 \<Rightarrow> bytes \<Rightarrow> bytes \<Rightarrow> bytes option" where
  "expand_loop hash_len prk info out_len n t out =
     (if length out < out_len then
        Option.bind (hmac hash_len prk (t @ info @ [n + 1]))
          (\<lambda>t. expand_loop hash_len prk info out_len (n + 1) t
             (out @ take (if out_len - length out < hash_len then out_len - length out else hash_len) t))
      else Some out)"

definition hkdf_expand :: "nat \<Rightarrow> bytes \<Rightarrow> bytes \<Rightarrow> nat \<Rightarrow> bytes option" where
  "hkdf_expand hash_len prk info out_len =
     (if \<not> hash_len \<le> HKDF_HASH_MAX then None
      else if \<not> (out_len > 0 \<and> out_len \<le> 255 * hash_len) then None
      else if \<not> length info \<le> HKDF_INFO_MAX then None
      else expand_loop hash_len prk info out_len 0 [] [])"

definition hkdf_label_info :: "bytes \<Rightarrow> bytes \<Rightarrow> nat \<Rightarrow> bytes" where
  "hkdf_label_info label ctx out_len =
     [of_nat (out_len div 2 ^ 8), of_nat out_len, of_nat (6 + length label)] @ ascii ''tls13 '' @ label @
     [of_nat (length ctx)] @ ctx"

definition hkdf_expand_label :: "nat \<Rightarrow> bytes \<Rightarrow> bytes \<Rightarrow> bytes \<Rightarrow> nat \<Rightarrow> bytes option" where
  "hkdf_expand_label hash_len secret label ctx out_len =
     (if \<not> (length label > 0 \<and> length label \<le> HKDF_LABEL_MAX) then None
      else if \<not> length ctx \<le> HKDF_HASH_MAX then None
      else if \<not> out_len \<le> 0xffff then None
      else hkdf_expand hash_len secret (hkdf_label_info label ctx out_len) out_len)"

definition hkdf_derive_secret :: "nat \<Rightarrow> bytes \<Rightarrow> bytes \<Rightarrow> bytes \<Rightarrow> bytes option" where
  "hkdf_derive_secret hash_len secret label hash = hkdf_expand_label hash_len secret label hash hash_len"

subsection \<open>Specification\<close>

text \<open>RFC 2104 over SHA-256, and RFC 5869's \<open>T(i)\<close> and output keying material.\<close>

definition hmac_key_block :: "bytes \<Rightarrow> bytes" where
  "hmac_key_block key = (let k = (if length key > 64 then sha256_hash key else key) in k @ replicate (64 - length k) 0)"

definition hmac_spec :: "bytes \<Rightarrow> bytes \<Rightarrow> bytes" where
  "hmac_spec key msg =
     sha256_hash (map (\<lambda>b. b XOR 0x5c) (hmac_key_block key) @
       sha256_hash (map (\<lambda>b. b XOR 0x36) (hmac_key_block key) @ msg))"

primrec hkdf_T :: "bytes \<Rightarrow> bytes \<Rightarrow> nat \<Rightarrow> bytes" where
  "hkdf_T prk info 0 = []"
| "hkdf_T prk info (Suc i) = hmac_spec prk (hkdf_T prk info i @ info @ [of_nat (Suc i)])"

definition hkdf_okm :: "bytes \<Rightarrow> bytes \<Rightarrow> nat \<Rightarrow> bytes" where
  "hkdf_okm prk info L = take L (concat (map (hkdf_T prk info) [1..<256]))"

definition label_okm :: "bytes \<Rightarrow> string \<Rightarrow> bytes \<Rightarrow> nat \<Rightarrow> bytes" where
  "label_okm secret label ctx L = hkdf_okm secret (hkdf_label_info (ascii label) ctx L) L"

section \<open>HMAC\<close>

lemma sha256_two:
  assumes "length (hc_block s) = 64"
  shows "\<exists>s1 s2 s3. sha256_update (sha256_init s) a = Some s1 \<and> sha256_update s1 b = Some s2 \<and>
    sha256_final s2 = Some (sha256_hash (a @ b), s3) \<and> length (hc_block s3) = 64"
proof -
  obtain s1 where s1: "sha256_update (sha256_init s) a = Some s1" "sha256_holds s1 a"
    using sha.update_holds [OF sha.init_holds [OF assms], of a] by auto
  obtain s2 where "sha256_update s1 b = Some s2" "sha256_holds s2 (a @ b)"
    using sha256_update_holds [OF s1(2), of b] by auto
  then show ?thesis using s1 sha256_final_holds by blast
qed

lemma hmac_sha256_spec: "hmac_sha256 key msg = Some (hmac_spec key msg)"
proof -
  define k where "k = hmac_key_block key"
  have k: "(if length key > 64 then sha256_of key else Some key) = Some (if length key > 64 then sha256_hash key else key)"
    by (simp add: sha256_of_hash)
  obtain s1 s2 s3 where a: "sha256_update (sha256_init (ctx_fresh [] 64)) (map (\<lambda>b. b XOR 0x36) k) = Some s1"
      "sha256_update s1 msg = Some s2" "sha256_final s2 = Some (sha256_hash (map (\<lambda>b. b XOR 0x36) k @ msg), s3)"
      "length (hc_block s3) = 64"
    using sha256_two [of "ctx_fresh [] 64"] by (metis ctx_fresh_block)
  obtain t1 t2 t3 where b: "sha256_update (sha256_init s3) (map (\<lambda>b. b XOR 0x5c) k) = Some t1"
      "sha256_update t1 (sha256_hash (map (\<lambda>b. b XOR 0x36) k @ msg)) = Some t2"
      "sha256_final t2 = Some (sha256_hash (map (\<lambda>b. b XOR 0x5c) k @ sha256_hash (map (\<lambda>b. b XOR 0x36) k @ msg)), t3)"
    using sha256_two [OF a(4)] by metis
  have "hmac_key_block key = (if length key > 64 then sha256_hash key else key) @
      replicate (64 - length (if length key > 64 then sha256_hash key else key)) 0"
    by (simp add: hmac_key_block_def Let_def)
  then show ?thesis
    unfolding hmac_sha256_def k hmac_spec_def k_def [symmetric]
    using a b by (simp add: Let_def k_def [symmetric])
qed

lemma hmac_spec_eq [simp]: "hmac 32 key msg = Some (hmac_spec key msg)"
  by (simp add: hmac_def hmac_sha256_spec)

lemma length_hmac_spec [simp]: "length (hmac_spec key msg) = 32"
  by (simp add: hmac_spec_def)

lemma length_hkdf_T [simp]: "0 < i \<Longrightarrow> length (hkdf_T prk info i) = 32"
  by (cases i) simp_all

section \<open>HKDF\<close>

abbreviation okm_blocks :: "bytes \<Rightarrow> bytes \<Rightarrow> nat \<Rightarrow> bytes" where
  "okm_blocks prk info i \<equiv> concat (map (hkdf_T prk info) [1..<Suc i])"

lemma length_okm_blocks [simp]: "length (okm_blocks prk info i) = 32 * i"
  by (induction i) simp_all

lemma okm_blocks_Suc [simp]: "okm_blocks prk info (Suc i) = okm_blocks prk info i @ hkdf_T prk info (Suc i)"
  by simp

lemma take_okm_blocks: "i \<le> j \<Longrightarrow> L \<le> 32 * i \<Longrightarrow> take L (okm_blocks prk info j) = take L (okm_blocks prk info i)"
proof -
  assume "i \<le> j" and L: "L \<le> 32 * i"
  then have "[1..<Suc j] = [1..<Suc i] @ [Suc i..<Suc j]" by (intro upt_join) simp_all
  then show ?thesis using L length_okm_blocks [of prk info i] by simp
qed

lemma expand_loop_blocks:
  assumes "32 * i \<le> L" and "L \<le> 255 * 32"
  shows "expand_loop 32 prk info L (of_nat i) (hkdf_T prk info i) (okm_blocks prk info i) =
    Some (take L (okm_blocks prk info 255))"
  using assms
proof (induction "L - 32 * i" arbitrary: i rule: less_induct)
  case less
  let ?o = "okm_blocks prk info"
  have i: "i \<le> 255" using less.prems by simp
  show ?case
  proof (cases "32 * i = L")
    case True
    then have "take L (?o 255) = ?o i" using take_okm_blocks [OF i, of L] length_okm_blocks [of prk info i] by simp
    then show ?thesis using True length_okm_blocks [of prk info i] by (subst expand_loop.simps) simp
  next
    case False
    then have lt: "32 * i < L" and i': "Suc i \<le> 255" using less.prems by simp_all
    let ?T = "hkdf_T prk info (Suc i)"
    have step: "expand_loop 32 prk info L (of_nat i) (hkdf_T prk info i) (?o i) =
        expand_loop 32 prk info L (of_nat (Suc i)) ?T (?o i @ take (if L - 32 * i < 32 then L - 32 * i else 32) ?T)"
      using lt length_okm_blocks [of prk info i] by (subst expand_loop.simps) (simp add: add.commute)
    show ?thesis
    proof (cases "L - 32 * i < 32")
      case True
      then have "take L (?o 255) = ?o i @ take (L - 32 * i) ?T"
        using take_okm_blocks [OF i', of L] length_okm_blocks [of prk info i] lt by simp
      moreover have "length (?o i @ take (L - 32 * i) ?T) = L"
        using True lt length_okm_blocks [of prk info i] by simp
      ultimately show ?thesis
        unfolding step using True by (subst expand_loop.simps) simp
    next
      case False
      then have "?o i @ take 32 ?T = ?o (Suc i)" by simp
      moreover have "expand_loop 32 prk info L (of_nat (Suc i)) ?T (?o (Suc i)) = Some (take L (?o 255))"
        by (rule less.hyps) (use False lt less.prems in simp_all)
      ultimately show ?thesis unfolding step using False by simp
    qed
  qed
qed

lemma hkdf_expand_okm:
  assumes "0 < L" and "L \<le> 255 * 32" and "length info \<le> HKDF_INFO_MAX"
  shows "hkdf_expand 32 prk info L = Some (hkdf_okm prk info L)"
  using expand_loop_blocks [of 0 L prk info] assms
  by (simp add: hkdf_expand_def hkdf_okm_def HKDF_HASH_MAX_def)

lemma length_hkdf_okm [simp]: "L \<le> 255 * 32 \<Longrightarrow> length (hkdf_okm prk info L) = L"
  using length_okm_blocks [of prk info 255] by (simp add: hkdf_okm_def)

lemma length_label_info: "length (hkdf_label_info label ctx L) = 10 + length label + length ctx"
  by (simp add: hkdf_label_info_def length_ascii)

lemma hkdf_expand_label_okm:
  assumes "label \<noteq> []" and "length label \<le> 12" and "length ctx \<le> 32" and "0 < L" and "L \<le> 255 * 32"
  shows "hkdf_expand_label 32 secret (ascii label) ctx L = Some (label_okm secret label ctx L)"
  using assms hkdf_expand_okm [of L "hkdf_label_info (ascii label) ctx L" secret]
  by (simp add: hkdf_expand_label_def label_okm_def HKDF_LABEL_MAX_def HKDF_HASH_MAX_def HKDF_INFO_MAX_def
      length_label_info length_ascii)

lemma length_label_okm [simp]: "L \<le> 255 * 32 \<Longrightarrow> length (label_okm secret label ctx L) = L"
  by (simp add: label_okm_def)

lemma hkdf_derive_secret_okm:
  "label \<noteq> [] \<Longrightarrow> length label \<le> 12 \<Longrightarrow> length hash = 32 \<Longrightarrow>
   hkdf_derive_secret 32 secret (ascii label) hash = Some (label_okm secret label hash 32)"
  by (simp add: hkdf_derive_secret_def hkdf_expand_label_okm)

section \<open>Properties\<close>

text \<open>C23: HMAC is RFC 2104's over SHA-256 and expanding is RFC 5869's: for every length from 1 to 255 blocks and
  every info that fits the buffer, the loop ends and returns the first bytes of \<open>T(1), T(2), \<dots>\<close>, whose one-byte counter never wraps;
  every other length, a longer info and another hash length stop in an assertion.\<close>

theorem hkdf_expand_exact:
  "hmac hash_len key msg = (if hash_len = 32 then Some (hmac_spec key msg) else None) \<and>
   hkdf_expand 32 prk info L =
     (if 0 < L \<and> L \<le> 255 * 32 \<and> length info \<le> 54
      then Some (take L (concat (map (hkdf_T prk info) [1..<256]))) else None) \<and>
   (0 < L \<and> L \<le> 255 * 32 \<longleftrightarrow> length (take L (concat (map (hkdf_T prk info) [1..<256]))) = L \<and> L \<noteq> 0)"
proof -
  have "length (take L (concat (map (hkdf_T prk info) [1..<256]))) = min L (255 * 32)"
    using length_okm_blocks [of prk info 255] by simp
  moreover have "HKDF_INFO_MAX = 54" by (simp add: HKDF_INFO_MAX_def HKDF_LABEL_MAX_def HKDF_HASH_MAX_def)
  ultimately show ?thesis
    using hkdf_expand_okm [of L info prk]
    by (auto simp: hkdf_expand_def hmac_def hmac_sha256_spec hkdf_okm_def)
qed

text \<open>C24: Two calls of \<open>hkdf_expand_label\<close> that pass the assertions hash the same info only when length, label and
  context are all the same: no two uses of one secret share a derivation by accident of the encoding.\<close>

theorem hkdf_label_injective:
  assumes "length label \<le> 12" and "length label' \<le> 12" and "length ctx \<le> 32" and "length ctx' \<le> 32"
    and "L \<le> 0xffff" and "L' \<le> 0xffff"
  shows "hkdf_label_info label ctx L = hkdf_label_info label' ctx' L' \<longleftrightarrow> label = label' \<and> ctx = ctx' \<and> L = L'"
proof
  assume eq: "hkdf_label_info label ctx L = hkdf_label_info label' ctx' L'"
  have "unat (of_nat (6 + length label) :: u8) = unat (of_nat (6 + length label') :: u8)"
    using eq by (simp add: hkdf_label_info_def)
  then have l: "length label = length label'"
    using assms(1,2) by (simp add: unat_of_nat del: of_nat_add)
  then have "label = label' \<and> ctx = ctx'" using eq by (simp add: hkdf_label_info_def)
  moreover have "unat (of_nat (L div 256) :: u8) = unat (of_nat (L' div 256) :: u8)" "unat (of_nat L :: u8) = unat (of_nat L' :: u8)"
    using eq by (simp_all add: hkdf_label_info_def)
  then have "L div 256 = L' div 256" "L mod 256 = L' mod 256"
    using assms(5,6) by (simp_all add: unat_of_nat)
  then have "L = L'" by (metis div_mult_mod_eq)
  ultimately show "label = label' \<and> ctx = ctx' \<and> L = L'" by simp
qed simp

theorem hkdf_label_injective_witness:
  "hkdf_label_info (ascii ''key'') [] 32 \<noteq> hkdf_label_info (ascii ''iv'') [] 12"
  using hkdf_label_injective [of "ascii ''key''" "ascii ''iv''" "[]" "[]" 32 12] by (simp add: ascii_def)

end
