(* ===== verification/Chacha20.thy ===== *)
theory Chacha20
  imports Buf
begin

text \<open>
  The stream cipher of \<open>src/chacha20.c\<close>, in the portable form a device build runs: the
  sixteen-word state is a \<open>u32 list\<close>, the rounds update it by index, and the keystream loop
  is the source's.  Two forms of the loop are given: one on values, for distinct or equal
  \<open>in\<close> and \<open>out\<close>, and one on a memory that holds both buffers, which shows that the
  overlap the header allows (\<open>out\<close> at or below \<open>in\<close>) changes nothing.
\<close>

section \<open>Model\<close>

definition rotate_left :: "u32 \<Rightarrow> nat \<Rightarrow> u32" where
  "rotate_left x r = push_bit r x OR drop_bit (32 - r) x"

definition load32 :: "bytes \<Rightarrow> u32" where
  "load32 p = ucast (p ! 0) OR push_bit 8 (ucast (p ! 1)) OR push_bit 16 (ucast (p ! 2)) OR
     push_bit 24 (ucast (p ! 3))"

definition QUARTERROUND :: "nat \<Rightarrow> nat \<Rightarrow> nat \<Rightarrow> nat \<Rightarrow> u32 list \<Rightarrow> u32 list" where
  "QUARTERROUND a b c d x =
     (let x = x[a := x ! a + x ! b];
          x = x[d := rotate_left (x ! d XOR x ! a) 16];
          x = x[c := x ! c + x ! d];
          x = x[b := rotate_left (x ! b XOR x ! c) 12];
          x = x[a := x ! a + x ! b];
          x = x[d := rotate_left (x ! d XOR x ! a) 8];
          x = x[c := x ! c + x ! d];
          x = x[b := rotate_left (x ! b XOR x ! c) 7]
      in x)"

definition double_round :: "u32 list \<Rightarrow> u32 list" where
  "double_round x =
     (let x = QUARTERROUND 0 4 8 12 x;
          x = QUARTERROUND 1 5 9 13 x;
          x = QUARTERROUND 2 6 10 14 x;
          x = QUARTERROUND 3 7 11 15 x;
          x = QUARTERROUND 0 5 10 15 x;
          x = QUARTERROUND 1 6 11 12 x;
          x = QUARTERROUND 2 7 8 13 x;
          x = QUARTERROUND 3 4 9 14 x
      in x)"

definition store32 :: "u32 \<Rightarrow> bytes" where
  "store32 v = [ucast v, ucast (drop_bit 8 v), ucast (drop_bit 16 v), ucast (drop_bit 24 v)]"

definition block :: "u32 list \<Rightarrow> bytes" where
  "block state =
     (let x = (double_round ^^ 10) state
      in concat (map (\<lambda>i. store32 (x ! i + state ! i)) [0..<16]))"

definition setup_state :: "bytes \<Rightarrow> bytes \<Rightarrow> u32 \<Rightarrow> u32 list" where
  "setup_state key nonce counter =
     [0x61707865, 0x3320646e, 0x79622d32, 0x6b206574] @
     map (\<lambda>i. load32 (drop (4 * i) key)) [0..<8] @
     [counter, load32 nonce, load32 (drop 4 nonce), load32 (drop 8 nonce)]"

definition chacha20_block :: "bytes \<Rightarrow> bytes \<Rightarrow> u32 \<Rightarrow> bytes" where
  "chacha20_block key nonce counter = block (setup_state key nonce counter)"

function xor_loop :: "u32 list \<Rightarrow> bytes \<Rightarrow> bytes" where
  "xor_loop state inp =
     (if inp = [] then []
      else let keystream = block state;
               state = state[12 := state ! 12 + 1];
               t = (if length inp < 64 then length inp else 64)
           in map (\<lambda>i. inp ! i XOR keystream ! i) [0..<t] @ xor_loop state (drop t inp))"
  by pat_completeness auto

termination xor_loop
  by (relation "measure (\<lambda>(state, inp). length inp)") (auto simp: Let_def)

declare xor_loop.simps [simp del]

definition chacha20_xor :: "bytes \<Rightarrow> bytes \<Rightarrow> u32 \<Rightarrow> bytes \<Rightarrow> bytes" where
  "chacha20_xor key nonce counter inp = xor_loop (setup_state key nonce counter) inp"

text \<open>The same loop on one memory: \<open>src\<close> and \<open>dst\<close> are the addresses of \<open>in\<close> and \<open>out\<close> in it.\<close>

definition xor_chunk :: "bytes \<Rightarrow> nat \<Rightarrow> nat \<Rightarrow> bytes \<Rightarrow> nat \<Rightarrow> bytes" where
  "xor_chunk mem src dst keystream t =
     foldl (\<lambda>mem i. mem[dst + i := mem ! (src + i) XOR keystream ! i]) mem [0..<t]"

function xor_loop_mem :: "u32 list \<Rightarrow> bytes \<Rightarrow> nat \<Rightarrow> nat \<Rightarrow> nat \<Rightarrow> bytes" where
  "xor_loop_mem state mem src dst n =
     (if n = 0 then mem
      else let keystream = block state;
               state = state[12 := state ! 12 + 1];
               t = (if n < 64 then n else 64);
               mem = xor_chunk mem src dst keystream t
           in xor_loop_mem state mem (src + t) (dst + t) (n - t))"
  by pat_completeness auto

termination xor_loop_mem
  by (relation "measure (\<lambda>(state, mem, src, dst, n). n)") (auto simp: Let_def)

declare xor_loop_mem.simps [simp del]

definition chacha20_xor_mem :: "bytes \<Rightarrow> bytes \<Rightarrow> u32 \<Rightarrow> bytes \<Rightarrow> nat \<Rightarrow> nat \<Rightarrow> nat \<Rightarrow> bytes" where
  "chacha20_xor_mem key nonce counter mem src dst n = xor_loop_mem (setup_state key nonce counter) mem src dst n"

subsection \<open>Specification\<close>

text \<open>The keystream byte at a position, as RFC 8439 numbers the blocks: the counter of the block advances by one.\<close>

definition keystream_at :: "u32 list \<Rightarrow> nat \<Rightarrow> u8" where
  "keystream_at state i = block (state[12 := state ! 12 + of_nat (i div 64)]) ! (i mod 64)"

section \<open>A cipher that adds a keystream\<close>

locale stream_cipher =
  fixes crypt :: "'k \<Rightarrow> bytes \<Rightarrow> bytes" and stream :: "'k \<Rightarrow> nat \<Rightarrow> u8"
  assumes crypt_eq: "crypt k m = map (\<lambda>i. m ! i XOR stream k i) [0..<length m]"
begin

lemma crypt_length [simp]: "length (crypt k m) = length m"
  by (simp add: crypt_eq)

lemma crypt_nth [simp]: "i < length m \<Longrightarrow> crypt k m ! i = m ! i XOR stream k i"
  by (simp add: crypt_eq)

lemma crypt_crypt: "crypt k (crypt k m) = m"
  by (rule nth_equalityI) (simp_all add: xor.assoc)

lemma crypt_inject: "crypt k a = crypt k b \<longleftrightarrow> a = b"
  by (metis crypt_crypt)

lemma crypt_take: "crypt k (take n m) = take n (crypt k m)"
  by (rule nth_equalityI) simp_all

end

section \<open>The portable loop\<close>

lemma length_store32 [simp]: "length (store32 v) = 4"
  by (simp add: store32_def)

lemma length_block [simp]: "length (block state) = 64"
  by (simp add: block_def Let_def length_concat comp_def sum_list_triv)

lemma length_chacha20_block [simp]: "length (chacha20_block key nonce counter) = 64"
  by (simp add: chacha20_block_def)

lemma length_setup [simp]: "length (setup_state key nonce counter) = 16"
  by (simp add: setup_state_def)

lemma keystream_at_first: "i < 64 \<Longrightarrow> keystream_at state i = block state ! i"
  by (simp add: keystream_at_def)

lemma keystream_at_next:
  assumes "length state = 16"
  shows "keystream_at (state[12 := state ! 12 + 1]) i = keystream_at state (64 + i)"
proof -
  have "(64 + i) div 64 = Suc (i div 64)" by simp
  then show ?thesis using assms by (simp add: keystream_at_def add.assoc)
qed

lemma map_upt_add: "map f [0..<m + n] = map f [0..<m] @ map (\<lambda>i. f (m + i)) [0..<n]"
  by (induction n) simp_all

lemma xor_loop_eq:
  "length state = 16 \<Longrightarrow> xor_loop state inp = map (\<lambda>i. inp ! i XOR keystream_at state i) [0..<length inp]"
proof (induction state inp rule: xor_loop.induct)
  case (1 state inp)
  show ?case
  proof (cases "inp = []")
    case False
    let ?t = "min (length inp) 64" and ?s = "state[12 := state ! 12 + 1]"
    have t: "(if length inp < 64 then length inp else 64) = ?t" by simp
    have "xor_loop ?s (drop ?t inp) = map (\<lambda>i. drop ?t inp ! i XOR keystream_at ?s i) [0..<length inp - ?t]"
      using 1(1) [OF False refl refl refl] 1(2) by (simp add: t)
    also have "\<dots> = map (\<lambda>i. inp ! (?t + i) XOR keystream_at state (?t + i)) [0..<length inp - ?t]"
      using 1(2) by (intro map_cong refl) (auto simp: keystream_at_next min_def split: if_splits)
    finally have "xor_loop state inp =
        map (\<lambda>i. inp ! i XOR block state ! i) [0..<?t] @
        map (\<lambda>i. inp ! (?t + i) XOR keystream_at state (?t + i)) [0..<length inp - ?t]"
      using False by (simp add: xor_loop.simps [of state inp] Let_def t)
    also have "map (\<lambda>i. inp ! i XOR block state ! i) [0..<?t] = map (\<lambda>i. inp ! i XOR keystream_at state i) [0..<?t]"
      by (simp add: keystream_at_first)
    finally show ?thesis
      using map_upt_add [of "\<lambda>i. inp ! i XOR keystream_at state i" ?t "length inp - ?t"] by simp
  qed (simp add: xor_loop.simps [of state "[]"])
qed

interpretation chacha: stream_cipher "\<lambda>(key, nonce, counter). chacha20_xor key nonce counter"
  "\<lambda>(key, nonce, counter). keystream_at (setup_state key nonce counter)"
  by unfold_locales (auto simp: chacha20_xor_def xor_loop_eq)

lemmas chacha20_xor_length [simp] = chacha.crypt_length [of "(key, nonce, counter)" for key nonce counter, simplified]
lemmas chacha20_xor_twice [simp] = chacha.crypt_crypt [of "(key, nonce, counter)" for key nonce counter, simplified]
lemmas chacha20_xor_inject [simp] = chacha.crypt_inject [of "(key, nonce, counter)" for key nonce counter, simplified]

section \<open>Overlapping buffers\<close>

lemma nth_mem_put:
  assumes "off + length xs \<le> length p" and "i < length p"
  shows "mem_put p off xs ! i = (if off \<le> i \<and> i < off + length xs then xs ! (i - off) else p ! i)"
  using assms by (auto simp: mem_put_def nth_append)

lemma length_mem_put [simp]: "off + length xs \<le> length p \<Longrightarrow> length (mem_put p off xs) = length p"
  by (simp add: mem_put_def)

lemma mem_put_join:
  "off + length xs + length ys \<le> length p \<Longrightarrow>
   mem_put (mem_put p off xs) (off + length xs) ys = mem_put p off (xs @ ys)"
  by (rule nth_equalityI) (auto simp: nth_mem_put nth_append)

lemma xor_chunk_put:
  assumes "dst \<le> src" and "src + t \<le> length mem"
  shows "xor_chunk mem src dst ks t = mem_put mem dst (map (\<lambda>i. mem ! (src + i) XOR ks ! i) [0..<t])"
  using assms(2)
proof (induction t)
  case 0
  then show ?case by (simp add: xor_chunk_def mem_put_def)
next
  case (Suc t)
  let ?xs = "map (\<lambda>i. mem ! (src + i) XOR ks ! i) [0..<t]"
  have put: "xor_chunk mem src dst ks t = mem_put mem dst ?xs" using Suc by simp
  have "xor_chunk mem src dst ks (Suc t) =
      (mem_put mem dst ?xs)[dst + t := mem_put mem dst ?xs ! (src + t) XOR ks ! t]"
    using put by (simp add: xor_chunk_def)
  also have "mem_put mem dst ?xs ! (src + t) = mem ! (src + t)"
    using Suc.prems assms(1) by (simp add: nth_mem_put)
  also have "(mem_put mem dst ?xs)[dst + t := mem ! (src + t) XOR ks ! t] =
      mem_put (mem_put mem dst ?xs) (dst + length ?xs) [mem ! (src + t) XOR ks ! t]"
    using Suc.prems assms(1) by (simp add: mem_put_one)
  also have "\<dots> = mem_put mem dst (?xs @ [mem ! (src + t) XOR ks ! t])"
    using Suc.prems assms(1) by (intro mem_put_join) simp
  finally show ?case by simp
qed

lemma xor_loop_mem_put:
  "length state = 16 \<Longrightarrow> dst \<le> src \<Longrightarrow> src + n \<le> length mem \<Longrightarrow>
   xor_loop_mem state mem src dst n =
     mem_put mem dst (map (\<lambda>i. mem ! (src + i) XOR keystream_at state i) [0..<n])"
proof (induction state mem src dst n rule: xor_loop_mem.induct)
  case (1 state mem src dst n)
  show ?case
  proof (cases "n = 0")
    case True
    then show ?thesis by (simp add: xor_loop_mem.simps [of state] mem_put_def)
  next
    case False
    let ?t = "min n 64" and ?s = "state[12 := state ! 12 + 1]"
    let ?f = "\<lambda>i. mem ! (src + i) XOR keystream_at state i"
    have t: "(if n < 64 then n else 64) = ?t" by simp
    have first: "map (\<lambda>i. mem ! (src + i) XOR block state ! i) [0..<?t] = map ?f [0..<?t]"
      by (simp add: keystream_at_first)
    have chunk: "xor_chunk mem src dst (block state) ?t = mem_put mem dst (map ?f [0..<?t])" (is "_ = ?m")
      using 1(3,4) unfolding first [symmetric] by (intro xor_chunk_put) simp_all
    have "xor_loop_mem state mem src dst n = xor_loop_mem ?s ?m (src + ?t) (dst + ?t) (n - ?t)"
      using False by (simp add: xor_loop_mem.simps [of state] Let_def t chunk)
    also have "\<dots> = mem_put ?m (dst + ?t)
        (map (\<lambda>i. ?m ! (src + ?t + i) XOR keystream_at ?s i) [0..<n - ?t])"
      using 1(1) [OF False refl refl refl refl] 1(2-4) by (simp add: t chunk)
    also have "map (\<lambda>i. ?m ! (src + ?t + i) XOR keystream_at ?s i) [0..<n - ?t] = map (\<lambda>i. ?f (?t + i)) [0..<n - ?t]"
      using 1(2-4)
      by (intro map_cong refl) (auto simp: nth_mem_put keystream_at_next min_def add.assoc split: if_splits)
    also have "mem_put ?m (dst + ?t) (map (\<lambda>i. ?f (?t + i)) [0..<n - ?t]) =
        mem_put mem dst (map ?f [0..<?t] @ map (\<lambda>i. ?f (?t + i)) [0..<n - ?t])"
      using 1(3,4) mem_put_join [of dst "map ?f [0..<?t]" "map (\<lambda>i. ?f (?t + i)) [0..<n - ?t]" mem] by simp
    also have "map ?f [0..<?t] @ map (\<lambda>i. ?f (?t + i)) [0..<n - ?t] = map ?f [0..<n]"
      using map_upt_add [of ?f ?t "n - ?t"] by simp
    finally show ?thesis .
  qed
qed

lemma chacha20_xor_mem_eq:
  assumes "dst \<le> src" and "src + n \<le> length mem"
  shows "chacha20_xor_mem key nonce counter mem src dst n =
    mem_put mem dst (chacha20_xor key nonce counter (take n (drop src mem)))"
proof -
  have "map (\<lambda>i. take n (drop src mem) ! i XOR keystream_at (setup_state key nonce counter) i) [0..<n] =
      map (\<lambda>i. mem ! (src + i) XOR keystream_at (setup_state key nonce counter) i) [0..<n]"
    using assms(2) by simp
  then show ?thesis
    using assms
    by (simp add: chacha20_xor_mem_def chacha20_xor_def xor_loop_mem_put xor_loop_eq min_absorb2 del: map_eq_conv)
qed

section \<open>Properties\<close>

text \<open>C30: Encrypting XORs byte \<open>i\<close> with byte \<open>i mod 64\<close> of the keystream block numbered \<open>counter + i div 64\<close>,
  modulo \<open>2^32\<close>; so it keeps the length, and doing it twice gives the input back.\<close>

theorem chacha20_xor_keystream:
  "chacha20_xor key nonce counter inp =
     map (\<lambda>i. inp ! i XOR chacha20_block key nonce (counter + of_nat (i div 64)) ! (i mod 64)) [0..<length inp] \<and>
   chacha20_xor key nonce counter (chacha20_xor key nonce counter inp) = inp"
proof -
  have "(setup_state key nonce counter)[12 := setup_state key nonce counter ! 12 + k] = setup_state key nonce (counter + k)" for k
    by (simp add: setup_state_def nth_append list_update_append)
  then have "keystream_at (setup_state key nonce counter) i = chacha20_block key nonce (counter + of_nat (i div 64)) ! (i mod 64)" for i
    by (simp add: keystream_at_def chacha20_block_def)
  then show ?thesis using chacha20_xor_twice [of key nonce counter inp] by (simp add: chacha20_xor_def xor_loop_eq)
qed

text \<open>Where \<open>out\<close> lies at or below \<open>in\<close> in the same memory, overlapping or not, the loop leaves at
  \<open>out\<close> the encryption of the bytes that stood at \<open>in\<close>, and changes nothing else.\<close>

theorem chacha20_xor_overlap:
  assumes "dst \<le> src" and "src + n \<le> length mem"
  shows "chacha20_xor_mem key nonce counter mem src dst n =
    take dst mem @ chacha20_xor key nonce counter (take n (drop src mem)) @ drop (dst + n) mem"
  using assms by (simp add: chacha20_xor_mem_eq mem_put_def min_absorb2)

theorem chacha20_xor_overlap_witness:
  "chacha20_xor_mem (replicate 32 7) (replicate 12 1) 1 [1, 2, 3, 4, 5, 6, 7] 2 0 5 =
    chacha20_xor (replicate 32 7) (replicate 12 1) 1 [3, 4, 5, 6, 7] @ [6, 7]"
  using chacha20_xor_overlap [of 0 2 5 "[1, 2, 3, 4, 5, 6, 7]" "replicate 32 7" "replicate 12 1" 1] by simp

end
