(* ===== verification/Keysched.thy ===== *)
theory Keysched
  imports Hkdf Chacha20
begin

text \<open>
  The TLS 1.3 key schedule of \<open>src/keysched.c\<close>, the handshake transcript of \<open>src/transcript.h\<close>, and the
  generator of \<open>src/drbg.c\<close>, all over the one hash of the build.  The output buffers of a call are the
  components of its result.
\<close>

section \<open>Model\<close>

subsection \<open>The key schedule\<close>

definition empty_hash_sha256 :: bytes where
  "empty_hash_sha256 = concat [
     [0xe3, 0xb0, 0xc4, 0x42, 0x98, 0xfc, 0x1c, 0x14], [0x9a, 0xfb, 0xf4, 0xc8, 0x99, 0x6f, 0xb9, 0x24],
     [0x27, 0xae, 0x41, 0xe4, 0x64, 0x9b, 0x93, 0x4c], [0xa4, 0x95, 0x99, 0x1b, 0x78, 0x52, 0xb8, 0x55]]"

definition empty_hash :: "nat \<Rightarrow> bytes" where
  "empty_hash hash_len = empty_hash_sha256"

text \<open>\<open>(early, binder_key)\<close>.\<close>

definition ks_early :: "nat \<Rightarrow> bytes \<Rightarrow> bool \<Rightarrow> (bytes \<times> bytes) option" where
  "ks_early hash_len psk resumption =
     do {
       early \<leftarrow> hkdf_extract hash_len (Some (replicate hash_len 0)) psk;
       binder_key \<leftarrow> hkdf_derive_secret hash_len early (ascii (if resumption then ''res binder'' else ''ext binder''))
         (empty_hash hash_len);
       Some (early, binder_key)
     }"

definition ks_verify_data :: "nat \<Rightarrow> bytes \<Rightarrow> bytes \<Rightarrow> bytes option" where
  "ks_verify_data hash_len key transcript =
     do {
       finished_key \<leftarrow> hkdf_expand_label hash_len key (ascii ''finished'') [] hash_len;
       hmac hash_len finished_key transcript
     }"

text \<open>\<open>(handshake_secret, c_hs, s_hs)\<close>.\<close>

definition ks_handshake :: "nat \<Rightarrow> bytes \<Rightarrow> bytes \<Rightarrow> bytes \<Rightarrow> (bytes \<times> bytes \<times> bytes) option" where
  "ks_handshake hash_len early ecdhe transcript =
     do {
       derived \<leftarrow> hkdf_derive_secret hash_len early (ascii ''derived'') (empty_hash hash_len);
       handshake_secret \<leftarrow> hkdf_extract hash_len (Some derived) ecdhe;
       c_hs \<leftarrow> hkdf_derive_secret hash_len handshake_secret (ascii ''c hs traffic'') transcript;
       s_hs \<leftarrow> hkdf_derive_secret hash_len handshake_secret (ascii ''s hs traffic'') transcript;
       Some (handshake_secret, c_hs, s_hs)
     }"

text \<open>\<open>(master, c_ap, s_ap)\<close>.\<close>

definition ks_master :: "nat \<Rightarrow> bytes \<Rightarrow> bytes \<Rightarrow> (bytes \<times> bytes \<times> bytes) option" where
  "ks_master hash_len handshake_secret transcript =
     do {
       derived \<leftarrow> hkdf_derive_secret hash_len handshake_secret (ascii ''derived'') (empty_hash hash_len);
       master \<leftarrow> hkdf_extract hash_len (Some derived) (replicate hash_len 0);
       c_ap \<leftarrow> hkdf_derive_secret hash_len master (ascii ''c ap traffic'') transcript;
       s_ap \<leftarrow> hkdf_derive_secret hash_len master (ascii ''s ap traffic'') transcript;
       Some (master, c_ap, s_ap)
     }"

definition ks_res_master :: "nat \<Rightarrow> bytes \<Rightarrow> bytes \<Rightarrow> bytes option" where
  "ks_res_master hash_len master transcript = hkdf_derive_secret hash_len master (ascii ''res master'') transcript"

definition ks_res_psk :: "nat \<Rightarrow> bytes \<Rightarrow> bytes \<Rightarrow> bytes option" where
  "ks_res_psk hash_len res_master nonce = hkdf_expand_label hash_len res_master (ascii ''resumption'') nonce hash_len"

subsection \<open>The transcript\<close>

record ch_transcript =
  sha256_state :: sha256

definition transcript_init :: "ch_transcript \<Rightarrow> ch_transcript" where
  "transcript_init t = t\<lparr>sha256_state := sha256_init (sha256_state t)\<rparr>"

definition transcript_update :: "ch_transcript \<Rightarrow> bytes \<Rightarrow> ch_transcript option" where
  "transcript_update t inp = map_option (\<lambda>s. t\<lparr>sha256_state := s\<rparr>) (sha256_update (sha256_state t) inp)"

definition transcript_update_selected :: "ch_transcript \<Rightarrow> nat \<Rightarrow> bytes \<Rightarrow> ch_transcript option" where
  "transcript_update_selected t hash_len inp =
     (if hash_len \<noteq> 32 then None
      else map_option (\<lambda>s. t\<lparr>sha256_state := s\<rparr>) (sha256_update (sha256_state t) inp))"

definition transcript_hash_after :: "ch_transcript \<Rightarrow> nat \<Rightarrow> bytes \<Rightarrow> bytes option" where
  "transcript_hash_after t hash_len after =
     (if hash_len \<noteq> 32 then None
      else do {
        copy \<leftarrow> sha256_update (sha256_state t) after;
        (digest, copy) \<leftarrow> sha256_final copy;
        Some digest
      })"

subsection \<open>The generator\<close>

record drbg =
  g_key :: bytes
  g_seeded :: bool

definition ch_drbg_seed :: "drbg \<Rightarrow> bytes \<Rightarrow> drbg option" where
  "ch_drbg_seed g seed =
     (if \<not> length seed \<ge> 32 then None
      else do {
        s \<leftarrow> sha256_update (sha256_init (ctx_fresh [] 64)) seed;
        (key, s) \<leftarrow> sha256_final s;
        Some \<lparr>g_key = key, g_seeded = True\<rparr>
      })"

text \<open>The output loop: \<open>blk\<close> is the keystream block, \<open>off\<close> the next byte of it and \<open>have\<close> what it still holds.\<close>

function rand_loop :: "bytes \<Rightarrow> bytes \<Rightarrow> nat \<Rightarrow> nat \<Rightarrow> u32 \<Rightarrow> nat \<Rightarrow> bytes" where
  "rand_loop key blk off hv counter n =
     (if n = 0 then []
      else
        let (blk, counter, off, hv) =
              (if hv = 0 then (chacha20_block key (replicate 12 0) counter, counter + 1, 0, 64)
               else (blk, counter, off, hv));
            t = (if n < hv then n else hv)
        in map (\<lambda>i. blk ! (off + i)) [0..<t] @ rand_loop key blk (off + t) (hv - t) counter (n - t))"
  by pat_completeness auto

termination rand_loop
  by (relation "measure (\<lambda>(key, blk, off, hv, counter, n). n)") (auto split: if_splits)

declare rand_loop.simps [simp del]

definition ch_rand_bytes :: "drbg \<Rightarrow> nat \<Rightarrow> (bytes \<times> drbg) option" where
  "ch_rand_bytes g n =
     (if \<not> g_seeded g then None
      else
        let block = chacha20_block (g_key g) (replicate 12 0) 0;
            key' = take 32 block
        in Some (rand_loop (g_key g) block 32 (64 - 32) 1 n, g\<lparr>g_key := key'\<rparr>))"

section \<open>The key schedule\<close>

lemma length_empty_hash [simp]: "length (empty_hash n) = 32"
  by (simp add: empty_hash_def empty_hash_sha256_def)

lemmas ks_defs = ks_early_def ks_verify_data_def ks_handshake_def ks_master_def ks_res_master_def ks_res_psk_def
  hkdf_extract_def

text \<open>
  RFC 8446 7.1.  \<open>HkdfLabel\<close> is the length in two bytes and two vectors of one length byte: the label behind \<open>tls13\<close> and a space, and
  the context.  \<open>Derive-Secret\<close> hashes the messages, and the tree takes its secrets from the PSK and the shared secret alone.
\<close>

definition opaque8 :: "bytes \<Rightarrow> bytes" where
  "opaque8 bs = be_bytes 1 (length bs) @ bs"

definition HKDF_Expand_Label :: "bytes \<Rightarrow> string \<Rightarrow> bytes \<Rightarrow> nat \<Rightarrow> bytes" where
  "HKDF_Expand_Label secret label ctx L = hkdf_okm secret (be_bytes 2 L @ opaque8 (ascii (''tls13 '' @ label)) @ opaque8 ctx) L"

definition Derive_Secret :: "bytes \<Rightarrow> string \<Rightarrow> bytes \<Rightarrow> bytes" where
  "Derive_Secret secret label messages = HKDF_Expand_Label secret label (sha256_hash messages) 32"

definition Early_Secret :: "bytes \<Rightarrow> bytes" where
  "Early_Secret psk = hmac_spec (replicate 32 0) psk"

definition Handshake_Secret :: "bytes \<Rightarrow> bytes \<Rightarrow> bytes" where
  "Handshake_Secret psk dh = hmac_spec (Derive_Secret (Early_Secret psk) ''derived'' []) dh"

definition Master_Secret :: "bytes \<Rightarrow> bytes \<Rightarrow> bytes" where
  "Master_Secret psk dh = hmac_spec (Derive_Secret (Handshake_Secret psk dh) ''derived'' []) (replicate 32 0)"

lemma label_okm_rfc: "label_okm secret label ctx L = HKDF_Expand_Label secret label ctx L"
proof -
  have "be_bytes 2 L = [of_nat (L div 2 ^ 8), of_nat L]" "be_bytes 1 n = [of_nat n]" for n by (simp_all add: be_bytes_def upt_rec)
  then show ?thesis by (simp add: label_okm_def HKDF_Expand_Label_def hkdf_label_info_def opaque8_def ascii_def)
qed

text \<open>The constant of the source is the digest of no bytes: FIPS 180-4 computed on the one padded block.\<close>

lemma compress_empty:
  "compress sha256_iv (0x80 # replicate 63 0) =
     [0xe3b0c442, 0x98fc1c14, 0x9afbf4c8, 0x996fb924, 0x27ae41e4, 0x649b934c, 0xa495991b, 0x7852b855]"
  by code_simp

lemma empty_hash_digest: "empty_hash_sha256 = sha256_hash []"
proof -
  have "be_bytes 8 0 = replicate 8 0" by (simp add: be_bytes_def map_replicate_const)
  then have "hash_pad 64 8 [] = 0x80 # replicate 63 0"
    using replicate_add [of 55 8 "0 :: u8"] by (simp add: hash_pad_def pad_zeros_def del: replicate.simps)
  then have "chain compress 64 sha256_iv (hash_pad 64 8 []) = compress sha256_iv (0x80 # replicate 63 0)"
    by (simp add: chain_def whole_loop.simps [of _ _ _ "0x80 # replicate 63 0"])
  then show ?thesis unfolding sha256_hash_def compress_empty by (simp add: store_be32_def empty_hash_sha256_def)
qed

lemma long_context: "32 < length ctx \<Longrightarrow> hkdf_expand_label 32 secret label ctx L = None"
  by (simp add: hkdf_expand_label_def HKDF_HASH_MAX_def)

lemmas ks_rfc = Derive_Secret_def Early_Secret_def Handshake_Secret_def Master_Secret_def label_okm_rfc [symmetric] empty_hash_digest [symmetric]

section \<open>The transcript\<close>

abbreviation transcript_holds :: "ch_transcript \<Rightarrow> bytes \<Rightarrow> bool" where
  "transcript_holds t m \<equiv> sha256_holds (sha256_state t) m"

lemma transcript_init_holds: "length (hc_block (sha256_state t)) = 64 \<Longrightarrow> transcript_holds (transcript_init t) []"
  using sha.init_holds [of "sha256_state t"] by (simp add: transcript_init_def)

lemma transcript_update_holds:
  "transcript_holds t m \<Longrightarrow> \<exists>t'. transcript_update t a = Some t' \<and> transcript_holds t' (m @ a)"
  using sha256_update_holds [of "sha256_state t" m a] by (auto simp: transcript_update_def)

lemma transcript_hash_after_holds:
  "transcript_holds t m \<Longrightarrow> transcript_hash_after t 32 a = Some (sha256_hash (m @ a))"
  using sha256_update_holds [of "sha256_state t" m a] sha256_final_holds by (fastforce simp: transcript_hash_after_def)

interpretation transcript: streaming transcript_init transcript_update
    "\<lambda>t _ m. transcript_holds t m" "\<lambda>t. length (hc_block (sha256_state t)) = 64" "\<lambda>t. transcript_hash_after t 32 []" "\<lambda>_. sha256_hash"
  by unfold_locales (auto simp: transcript_init_holds transcript_update_holds transcript_hash_after_holds)

section \<open>The generator\<close>

lemma setup_state_counter: "setup_state key nonce c = (setup_state key nonce 0)[12 := c]"
  by (simp add: setup_state_def list_update_append)

abbreviation rand_stream :: "bytes \<Rightarrow> nat \<Rightarrow> u8" where
  "rand_stream key \<equiv> keystream_at (setup_state key (replicate 12 0) 0)"

lemma rand_stream_block:
  "chacha20_block key (replicate 12 0) (of_nat (p div 64)) ! (p mod 64) = rand_stream key p"
proof -
  have "setup_state key (replicate 12 0) 0 ! 12 = 0" by (simp add: setup_state_def nth_append)
  then show ?thesis by (simp add: keystream_at_def chacha20_block_def setup_state_counter [of _ _ "of_nat _"])
qed

lemma div_mod_sum: "r < b \<Longrightarrow> (r + q * b) div b = q \<and> (r + q * b) mod b = (r :: nat)"
  by simp

lemma div_mod_within: "p mod b + i < b \<Longrightarrow> (p + i) div b = p div b \<and> (p + i) mod b = p mod b + (i :: nat)"
  using div_mod_sum [of "p mod b + i" b "p div b"] by (metis add.assoc add.commute div_mult_mod_eq)

lemma rand_loop_stream:
  assumes "if hv = 0 then p mod 64 = 0 \<and> counter = of_nat (p div 64)
    else blk = chacha20_block key (replicate 12 0) (of_nat (p div 64)) \<and> off = p mod 64 \<and> hv = 64 - off \<and>
      counter = of_nat (Suc (p div 64))"
  shows "rand_loop key blk off hv counter n = map (rand_stream key) [p..<p + n]"
  using assms
proof (induction n arbitrary: blk off hv counter p rule: less_induct)
  case (less n)
  show ?case
  proof (cases "n = 0")
    case False
    let ?z = "replicate 12 0"
    define b where "b = chacha20_block key ?z (of_nat (p div 64))"
    define h where "h = 64 - p mod 64"
    define t where "t = min n h"
    have st: "(if hv = 0 then (chacha20_block key ?z counter, counter + 1, 0, 64) else (blk, counter, off, hv)) =
        (b, of_nat (Suc (p div 64)), p mod 64, h)"
      using less.prems by (auto simp: b_def h_def add.commute split: if_splits)
    have h: "0 < h" "p mod 64 + h = 64" by (simp_all add: h_def less_imp_le)
    then have t: "0 < t" "t \<le> n" "t \<le> h" "(if n < h then n else h) = t" using False by (simp_all add: t_def)
    have run: "rand_loop key blk off hv counter n =
        map (\<lambda>i. b ! (p mod 64 + i)) [0..<t] @ rand_loop key b (p mod 64 + t) (h - t) (of_nat (Suc (p div 64))) (n - t)"
      unfolding rand_loop.simps [of key blk off hv counter n] st using False t(4) by (simp add: Let_def)
    have same: "(p + i) div 64 = p div 64 \<and> (p + i) mod 64 = p mod 64 + i" if "i < h" for i
      using h(2) that by (intro div_mod_within) simp
    have "map (\<lambda>i. b ! (p mod 64 + i)) [0..<t] = map (rand_stream key) [p..<p + t]"
    proof (rule nth_equalityI)
      fix i assume "i < length (map (\<lambda>i. b ! (p mod 64 + i)) [0..<t])"
      then have i: "i < t" by simp
      then show "map (\<lambda>i. b ! (p mod 64 + i)) [0..<t] ! i = map (rand_stream key) [p..<p + t] ! i"
        using same [of i] t(3) rand_stream_block [of key "p + i"] by (simp add: b_def)
    qed simp
    moreover have "rand_loop key b (p mod 64 + t) (h - t) (of_nat (Suc (p div 64))) (n - t) =
        map (rand_stream key) [p + t..<p + t + (n - t)]"
    proof (rule less.IH)
      show "n - t < n" using t False by simp
      show "if h - t = 0 then (p + t) mod 64 = 0 \<and> of_nat (Suc (p div 64)) = of_nat ((p + t) div 64)
        else b = chacha20_block key ?z (of_nat ((p + t) div 64)) \<and> p mod 64 + t = (p + t) mod 64 \<and>
          h - t = 64 - (p mod 64 + t) \<and> of_nat (Suc (p div 64)) = of_nat (Suc ((p + t) div 64))"
      proof (cases "t = h")
        case True
        have "p + t = 64 * (p div 64) + 64" unfolding True using h(2) by (metis add.assoc mult_div_mod_eq)
        then have "(p + t) mod 64 = 0" "(p + t) div 64 = Suc (p div 64)" by simp_all
        then show ?thesis using True by simp
      next
        case False
        then have "t < h" using t(3) by simp
        then show ?thesis using same [of t] h(2) False unfolding b_def by simp
      qed
    qed
    moreover have "map (rand_stream key) [p..<p + n] =
        map (rand_stream key) [p..<p + t] @ map (rand_stream key) [p + t..<p + t + (n - t)]"
      using t(2) upt_join [of p "p + t" "p + n"] by simp
    ultimately show ?thesis using run by simp
  qed (simp add: rand_loop.simps)
qed

section \<open>Properties\<close>

text \<open>C25: The key schedule is RFC 8446 section 7.1's tree.  On any PSK and shared secret, each call returns the secrets the RFC names: the
  binder key and the handshake, application and resumption secrets are \<open>Derive-Secret\<close> of the early, handshake and master secret over
  the messages whose hash is passed in, with \<open>HkdfLabel\<close> encoded as the RFC writes it, and the constant the code passes for no messages
  is the SHA-256 digest of none.  The verify data is the HMAC under the finished key.  A ticket's PSK is derived from any nonce of up to 32 bytes; a longer one stops in an assertion.
  Every secret has 32 bytes.\<close>

theorem key_schedule:
  "ks_early 32 psk resumption =
     Some (Early_Secret psk, Derive_Secret (Early_Secret psk) (if resumption then ''res binder'' else ''ext binder'') []) \<and>
   ks_handshake 32 (Early_Secret psk) dh (sha256_hash hellos) =
     Some (Handshake_Secret psk dh, Derive_Secret (Handshake_Secret psk dh) ''c hs traffic'' hellos,
       Derive_Secret (Handshake_Secret psk dh) ''s hs traffic'' hellos) \<and>
   ks_master 32 (Handshake_Secret psk dh) (sha256_hash server_flight) =
     Some (Master_Secret psk dh, Derive_Secret (Master_Secret psk dh) ''c ap traffic'' server_flight,
       Derive_Secret (Master_Secret psk dh) ''s ap traffic'' server_flight) \<and>
   ks_res_master 32 (Master_Secret psk dh) (sha256_hash messages) = Some (Derive_Secret (Master_Secret psk dh) ''res master'' messages) \<and>
   ks_res_psk 32 res nonce = (if length nonce \<le> 32 then Some (HKDF_Expand_Label res ''resumption'' nonce 32) else None) \<and>
   ks_verify_data 32 base (sha256_hash messages) = Some (hmac_spec (HKDF_Expand_Label base ''finished'' [] 32) (sha256_hash messages)) \<and>
   list_all (\<lambda>s. length s = 32) [Early_Secret psk, Handshake_Secret psk dh, Master_Secret psk dh, Derive_Secret base label messages]"
  using length_empty_hash [of 32, unfolded empty_hash_def]
  unfolding ks_rfc
  by (intro conjI) (simp_all add: ks_defs hkdf_derive_secret_okm hkdf_expand_label_okm empty_hash_def long_context)

text \<open>The transcript hash is the SHA-256 of every message absorbed so far, in order, and of the bytes passed for after them;
  reading it leaves the transcript free to absorb more.\<close>

theorem transcript_hash:
  assumes "length (hc_block (sha256_state t)) = 64"
  shows "\<exists>t'. run_updates transcript_update (transcript_init t) msgs = Some t' \<and>
    transcript_hash_after t' 32 after = Some (sha256_hash (concat msgs @ after)) \<and>
    (\<exists>t''. run_updates transcript_update t' later = Some t'' \<and>
      transcript_hash_after t'' 32 [] = Some (sha256_hash (concat (msgs @ later))))"
proof -
  obtain t' where t': "run_updates transcript_update (transcript_init t) msgs = Some t'" "transcript_holds t' (concat msgs)"
    using transcript.updates_holds [OF transcript.init_holds [OF assms], of msgs] by auto
  obtain t'' where "run_updates transcript_update t' later = Some t''" "transcript_holds t'' (concat msgs @ concat later)"
    using transcript.updates_holds [of t' "concat msgs" later] t'(2) by auto
  then show ?thesis using t' transcript_hash_after_holds by fastforce
qed

theorem transcript_hash_witness:
  "\<exists>t'. run_updates transcript_update (transcript_init \<lparr>sha256_state = ctx_fresh [] 64\<rparr>) [[1], [2]] = Some t' \<and>
     transcript_hash_after t' 32 [3] = Some (sha256_hash [1, 2, 3])"
  using transcript_hash [of "\<lparr>sha256_state = ctx_fresh [] 64\<rparr>" "[[1], [2]]" "[3]" "[]"] by auto

text \<open>C26: Fast key erasure.  A request for \<open>n\<close> bytes takes \<open>32 + n\<close> bytes of ChaCha20 keystream under the key the generator held:
  the first 32 replace the key and the rest are the output, so no byte is handed out twice and none is part of the next key.
  An unseeded generator stops.\<close>

theorem ch_rand_bytes_stream:
  "(case ch_rand_bytes g n of None \<Rightarrow> \<not> g_seeded g
    | Some (out, g') \<Rightarrow> g_seeded g \<and> g_seeded g' \<and> length (g_key g') = 32 \<and> length out = n \<and>
        g_key g' @ out = chacha20_xor (g_key g) (replicate 12 0) 0 (replicate (32 + n) 0))"
proof (cases "g_seeded g")
  case True
  let ?b = "chacha20_block (g_key g) (replicate 12 0) 0"
  have "rand_loop (g_key g) ?b 32 32 1 n = map (rand_stream (g_key g)) [32..<32 + n]"
    by (rule rand_loop_stream) simp
  moreover have "take 32 ?b = map (rand_stream (g_key g)) [0..<32]"
    using rand_stream_block [of "g_key g"] by (intro nth_equalityI) (simp_all add: chacha20_block_def keystream_at_first)
  moreover have "chacha20_xor (g_key g) (replicate 12 0) 0 (replicate (32 + n) 0) = map (rand_stream (g_key g)) [0..<32 + n]"
    by (simp add: chacha20_xor_def xor_loop_eq)
  moreover have "[0..<32 + n] = [0..<32] @ [32..<32 + n]" by (rule upt_join) simp_all
  ultimately show ?thesis using True by (simp add: ch_rand_bytes_def Let_def)
qed (simp add: ch_rand_bytes_def)

end
