(* ===== verification/Poly1305.thy ===== *)
theory Poly1305
  imports Chacha20 Ct Streaming
begin

text \<open>
  The one-time authenticator of \<open>src/poly1305.c\<close>, in the portable form: five 26-bit limbs in
  32-bit words, products through \<open>ct_widemul\<close>, the clamp folded into the limb masks, and the
  buffered update.  The vector kernels are other builds' paths and are not modelled.  The
  result is that init, any sequence of updates and final give RFC 8439's tag: the Horner
  sum of the message's blocks modulo \<open>2^130 - 5\<close>, plus the second key half, modulo \<open>2^128\<close>.
\<close>

section \<open>Model\<close>

record poly1305 =
  p_r :: "u32 list"
  p_h :: "u32 list"
  p_pad :: "u32 list"
  p_block :: bytes
  p_fill :: nat

definition poly1305_init :: "poly1305 \<Rightarrow> bytes \<Rightarrow> poly1305" where
  "poly1305_init p key =
     p\<lparr>p_r := [load32 key AND 0x3ffffff,
               drop_bit 2 (load32 (drop 3 key)) AND 0x3ffff03,
               drop_bit 4 (load32 (drop 6 key)) AND 0x3ffc0ff,
               drop_bit 6 (load32 (drop 9 key)) AND 0x3f03fff,
               drop_bit 8 (load32 (drop 12 key)) AND 0x00fffff],
       p_h := replicate 5 0,
       p_pad := map (\<lambda>i. load32 (drop (16 + 4 * i) key)) [0..<4],
       p_fill := 0\<rparr>"

text \<open>One pass of the loop of \<open>blocks\<close>: the limbs \<open>h0 .. h4\<close> after the block at \<open>m\<close>.\<close>

type_synonym limbs = "u32 \<times> u32 \<times> u32 \<times> u32 \<times> u32"

definition add_block :: "limbs \<Rightarrow> bytes \<Rightarrow> u32 \<Rightarrow> limbs" where
  "add_block h m high_bit =
     (case h of (h0, h1, h2, h3, h4) \<Rightarrow>
        (h0 + (load32 m AND 0x3ffffff),
         h1 + (drop_bit 2 (load32 (drop 3 m)) AND 0x3ffffff),
         h2 + (drop_bit 4 (load32 (drop 6 m)) AND 0x3ffffff),
         h3 + (drop_bit 6 (load32 (drop 9 m)) AND 0x3ffffff),
         h4 + (drop_bit 8 (load32 (drop 12 m)) OR high_bit)))"

definition mul_limbs :: "u32 list \<Rightarrow> limbs \<Rightarrow> u64 \<times> u64 \<times> u64 \<times> u64 \<times> u64" where
  "mul_limbs r h =
     (case h of (h0, h1, h2, h3, h4) \<Rightarrow>
        let r0 = r ! 0; r1 = r ! 1; r2 = r ! 2; r3 = r ! 3; r4 = r ! 4;
            s1 = r1 * 5; s2 = r2 * 5; s3 = r3 * 5; s4 = r4 * 5
        in (ct_widemul h0 r0 + ct_widemul h1 s4 + ct_widemul h2 s3 + ct_widemul h3 s2 + ct_widemul h4 s1,
            ct_widemul h0 r1 + ct_widemul h1 r0 + ct_widemul h2 s4 + ct_widemul h3 s3 + ct_widemul h4 s2,
            ct_widemul h0 r2 + ct_widemul h1 r1 + ct_widemul h2 r0 + ct_widemul h3 s4 + ct_widemul h4 s3,
            ct_widemul h0 r3 + ct_widemul h1 r2 + ct_widemul h2 r1 + ct_widemul h3 r0 + ct_widemul h4 s4,
            ct_widemul h0 r4 + ct_widemul h1 r3 + ct_widemul h2 r2 + ct_widemul h3 r1 + ct_widemul h4 r0))"

definition carry_limbs :: "u64 \<times> u64 \<times> u64 \<times> u64 \<times> u64 \<Rightarrow> limbs" where
  "carry_limbs d =
     (case d of (d0, d1, d2, d3, d4) \<Rightarrow>
        let c = drop_bit 26 d0; h0 = ucast d0 AND 0x3ffffff;
            d1 = d1 + c; c = drop_bit 26 d1; h1 = ucast d1 AND 0x3ffffff;
            d2 = d2 + c; c = drop_bit 26 d2; h2 = ucast d2 AND 0x3ffffff;
            d3 = d3 + c; c = drop_bit 26 d3; h3 = ucast d3 AND 0x3ffffff;
            d4 = d4 + c; c = drop_bit 26 d4; h4 = ucast d4 AND 0x3ffffff;
            h0 = h0 + ucast c * 5;
            h1 = h1 + drop_bit 26 h0;
            h0 = h0 AND 0x3ffffff
        in (h0, h1, h2, h3, h4))"

fun blocks_loop :: "u32 list \<Rightarrow> u32 \<Rightarrow> limbs \<Rightarrow> bytes \<Rightarrow> nat \<Rightarrow> limbs" where
  "blocks_loop r high_bit h m n =
     (if n \<ge> 16 then blocks_loop r high_bit (carry_limbs (mul_limbs r (add_block h m high_bit))) (drop 16 m) (n - 16)
      else h)"

declare blocks_loop.simps [simp del]

definition blocks :: "poly1305 \<Rightarrow> bytes \<Rightarrow> nat \<Rightarrow> u32 \<Rightarrow> poly1305" where
  "blocks p m n high_bit =
     (let h = p_h p;
          (h0, h1, h2, h3, h4) = blocks_loop (p_r p) high_bit (h ! 0, h ! 1, h ! 2, h ! 3, h ! 4) m n
      in p\<lparr>p_h := [h0, h1, h2, h3, h4]\<rparr>)"

definition whole_blocks :: "poly1305 \<Rightarrow> bytes \<Rightarrow> nat \<Rightarrow> poly1305" where
  "whole_blocks p m n = blocks p m n (push_bit 24 1)"

text \<open>The byte loop that fills the block; \<open>n\<close> is the length of what is left of the input.\<close>

fun fill_block :: "poly1305 \<Rightarrow> bytes \<Rightarrow> poly1305 \<times> bytes" where
  "fill_block p [] = (p, [])"
| "fill_block p (b # inp) =
     (if p_fill p < 16
      then fill_block (p\<lparr>p_block := (p_block p)[p_fill p := b], p_fill := p_fill p + 1\<rparr>) inp
      else (p, b # inp))"

text \<open>The second half of \<open>update\<close>, from the whole blocks on, and the call.\<close>

definition update_whole :: "poly1305 \<Rightarrow> bytes \<Rightarrow> poly1305 option" where
  "update_whole p inp =
     (let whole = length inp - length inp mod 16;
          (p, inp) = (if whole > 0 then (whole_blocks p inp whole, drop whole inp) else (p, inp))
      in if \<not> p_fill p + length inp < 16 then None else Some (fst (fill_block p inp)))"

definition poly1305_update :: "poly1305 \<Rightarrow> bytes \<Rightarrow> poly1305 option" where
  "poly1305_update p inp =
     (let (p, inp) =
        (if p_fill p > 0 then
           let (p, inp) = fill_block p inp
           in if p_fill p = 16 then ((blocks p (p_block p) 16 (push_bit 24 1))\<lparr>p_fill := 0\<rparr>, inp) else (p, inp)
         else (p, inp))
      in update_whole p inp)"

definition finish_carry :: "limbs \<Rightarrow> limbs" where
  "finish_carry h =
     (case h of (h0, h1, h2, h3, h4) \<Rightarrow>
        let c = drop_bit 26 h1; h1 = h1 AND 0x3ffffff;
            h2 = h2 + c; c = drop_bit 26 h2; h2 = h2 AND 0x3ffffff;
            h3 = h3 + c; c = drop_bit 26 h3; h3 = h3 AND 0x3ffffff;
            h4 = h4 + c; c = drop_bit 26 h4; h4 = h4 AND 0x3ffffff;
            h0 = h0 + c * 5; c = drop_bit 26 h0; h0 = h0 AND 0x3ffffff;
            h1 = h1 + c
        in (h0, h1, h2, h3, h4))"

definition finish_reduce :: "limbs \<Rightarrow> limbs" where
  "finish_reduce h =
     (case h of (h0, h1, h2, h3, h4) \<Rightarrow>
        let g0 = h0 + 5; c = drop_bit 26 g0; g0 = g0 AND 0x3ffffff;
            g1 = h1 + c; c = drop_bit 26 g1; g1 = g1 AND 0x3ffffff;
            g2 = h2 + c; c = drop_bit 26 g2; g2 = g2 AND 0x3ffffff;
            g3 = h3 + c; c = drop_bit 26 g3; g3 = g3 AND 0x3ffffff;
            g4 = h4 + c - push_bit 26 1;
            mask = drop_bit 31 g4 - 1
        in ((h0 AND NOT mask) OR (g0 AND mask), (h1 AND NOT mask) OR (g1 AND mask),
            (h2 AND NOT mask) OR (g2 AND mask), (h3 AND NOT mask) OR (g3 AND mask),
            (h4 AND NOT mask) OR (g4 AND mask)))"

definition finish_pack :: "limbs \<Rightarrow> u32 list" where
  "finish_pack h =
     (case h of (h0, h1, h2, h3, h4) \<Rightarrow>
        [(h0 OR push_bit 26 h1) AND 0xffffffff,
         (drop_bit 6 h1 OR push_bit 20 h2) AND 0xffffffff,
         (drop_bit 12 h2 OR push_bit 14 h3) AND 0xffffffff,
         (drop_bit 18 h3 OR push_bit 8 h4) AND 0xffffffff])"

definition finish_add :: "u32 list \<Rightarrow> u32 list \<Rightarrow> u32 list" where
  "finish_add h pad =
     (let f = ucast (h ! 0) + ucast (pad ! 0) :: u64; h0 = ucast f;
          f = ucast (h ! 1) + ucast (pad ! 1) + drop_bit 32 f; h1 = ucast f;
          f = ucast (h ! 2) + ucast (pad ! 2) + drop_bit 32 f; h2 = ucast f;
          f = ucast (h ! 3) + ucast (pad ! 3) + drop_bit 32 f; h3 = ucast f
      in [h0, h1, h2, h3])"

text \<open>The result is the tag and the state, which the call wipes.\<close>

definition poly1305_wiped :: poly1305 where
  "poly1305_wiped = \<lparr>p_r = replicate 5 0, p_h = replicate 5 0, p_pad = replicate 4 0,
     p_block = replicate 16 0, p_fill = 0\<rparr>"

definition poly1305_final :: "poly1305 \<Rightarrow> (bytes \<times> poly1305) option" where
  "poly1305_final p =
     (if \<not> p_fill p < 16 then None
      else
        let p = (if p_fill p > 0
                 then let blk = take (p_fill p) (p_block p) @ 1 # replicate (15 - p_fill p) 0
                      in blocks (p\<lparr>p_block := blk, p_fill := 16\<rparr>) blk 16 0
                 else p);
            h = p_h p;
            h = finish_carry (h ! 0, h ! 1, h ! 2, h ! 3, h ! 4);
            h = finish_reduce h;
            out_words = finish_add (finish_pack h) (p_pad p)
        in Some (concat (map store32 out_words), poly1305_wiped))"

subsection \<open>Specification\<close>

text \<open>RFC 8439 section 2.5, on numbers.\<close>

definition le_nat :: "bytes \<Rightarrow> nat" where
  "le_nat bs = foldr (\<lambda>b v. unat b + 256 * v) bs 0"

definition le_bytes :: "nat \<Rightarrow> nat \<Rightarrow> bytes" where
  "le_bytes k n = map (\<lambda>i. of_nat (n div 256 ^ i)) [0..<k]"

definition P1305 :: nat where
  "P1305 = 2 ^ 130 - 5"

definition clamp_r :: "bytes \<Rightarrow> nat" where
  "clamp_r key = le_nat (take 16 key) AND 0x0ffffffc0ffffffc0ffffffc0fffffff"

fun poly_acc :: "nat \<Rightarrow> nat \<Rightarrow> bytes \<Rightarrow> nat" where
  "poly_acc r acc m =
     (if m = [] then acc
      else poly_acc r ((acc + le_nat (take 16 m) + 2 ^ (8 * length (take 16 m))) * r mod P1305) (drop 16 m))"

declare poly_acc.simps [simp del]

definition poly1305_spec :: "bytes \<Rightarrow> bytes \<Rightarrow> bytes" where
  "poly1305_spec key m = le_bytes 16 ((poly_acc (clamp_r key) 0 m + le_nat (take 16 (drop 16 key))) mod 2 ^ 128)"

section \<open>Little-endian numbers\<close>

lemma le_nat_Nil [simp]: "le_nat [] = 0"
  and le_nat_Cons: "le_nat (b # bs) = unat b + 256 * le_nat bs"
  by (simp_all add: le_nat_def)

lemma le_nat_less: "le_nat bs < 256 ^ length bs"
proof (induction bs)
  case (Cons b bs)
  have "unat b + 256 * le_nat bs < 256 * 256 ^ length bs"
    using unat_byte_less [of b] Cons by linarith
  then show ?case by (simp add: le_nat_Cons)
qed simp

lemma le_nat_append: "le_nat (as @ bs) = le_nat as + 256 ^ length as * le_nat bs"
  by (induction as) (simp_all add: le_nat_Cons algebra_simps)

lemma le_nat_take_drop:
  "k \<le> length m \<Longrightarrow> le_nat (take k m) = le_nat m mod 256 ^ k"
  "k \<le> length m \<Longrightarrow> le_nat (drop k m) = le_nat m div 256 ^ k"
proof -
  assume k: "k \<le> length m"
  have "le_nat m = le_nat (take k m) + 256 ^ k * le_nat (drop k m)"
    using le_nat_append [of "take k m" "drop k m"] k by (simp add: min_absorb2)
  moreover have "le_nat (take k m) < 256 ^ k"
    using le_nat_less [of "take k m"] k by (simp add: min_absorb2)
  ultimately show "le_nat (take k m) = le_nat m mod 256 ^ k" "le_nat (drop k m) = le_nat m div 256 ^ k"
    by simp_all
qed

lemma le_nat_replicate: "le_nat (replicate n 0) = 0"
  by (induction n) (simp_all add: le_nat_Cons)

lemma unat_or_high:
  assumes "unat (a :: u32) < 2 ^ n" and "unat b * 2 ^ n + unat a < 2 ^ 32" and "n \<le> 32"
  shows "unat (a OR push_bit n b) = unat a + unat b * 2 ^ n"
  using unat_join [OF assms(1), of b] assms by (simp add: or.commute)

lemma unat_load32:
  assumes "4 \<le> length p"
  shows "unat (load32 p) = le_nat (take 4 p)"
proof -
  obtain a b c d rest where p: "p = a # b # c # d # rest"
    using assms by (auto simp: numeral_eq_Suc Suc_le_length_iff)
  have lt: "unat a + unat b * 256 < 65536" "unat a + unat b * 256 + unat c * 65536 < 16777216"
    "unat a + unat b * 256 + unat c * 65536 + unat d * 16777216 < 4294967296"
    using unat_byte_less [of a] unat_byte_less [of b] unat_byte_less [of c] unat_byte_less [of d] by linarith+
  have ab: "unat (ucast a OR push_bit 8 (ucast b) :: u32) = unat a + unat b * 256"
    using lt(1) by (subst unat_or_high) simp_all
  have abc: "unat ((ucast a OR push_bit 8 (ucast b)) OR push_bit 16 (ucast c) :: u32) = unat a + unat b * 256 + unat c * 65536"
    using lt(1,2) ab by (subst unat_or_high) simp_all
  have "unat (((ucast a OR push_bit 8 (ucast b)) OR push_bit 16 (ucast c)) OR push_bit 24 (ucast d) :: u32) =
      unat a + unat b * 256 + unat c * 65536 + unat d * 16777216"
    using lt(2,3) abc by (subst unat_or_high) simp_all
  then show ?thesis by (simp add: p load32_def le_nat_Cons or.assoc)
qed

lemma unat_load32_drop:
  assumes "k + 4 \<le> length m"
  shows "unat (load32 (drop k m)) = le_nat m div 256 ^ k mod 4294967296"
proof -
  have "unat (load32 (drop k m)) = le_nat (drop k m) mod 256 ^ 4"
    using assms by (simp add: unat_load32 le_nat_take_drop(1))
  then show ?thesis using assms by (simp add: le_nat_take_drop)
qed

section \<open>Limbs\<close>

definition limbs_nat :: "limbs \<Rightarrow> nat" where
  "limbs_nat h = (case h of (h0, h1, h2, h3, h4) \<Rightarrow>
     unat h0 + unat h1 * 2 ^ 26 + unat h2 * 2 ^ 52 + unat h3 * 2 ^ 78 + unat h4 * 2 ^ 104)"

definition limbs_ok :: "limbs \<Rightarrow> bool" where
  "limbs_ok h = (case h of (h0, h1, h2, h3, h4) \<Rightarrow>
     unat h0 < 2 ^ 26 \<and> unat h1 < 2 ^ 26 + 64 \<and> unat h2 < 2 ^ 26 \<and> unat h3 < 2 ^ 26 \<and> unat h4 < 2 ^ 26)"

definition r_ok :: "u32 list \<Rightarrow> bool" where
  "r_ok r \<longleftrightarrow> length r = 5 \<and> (\<forall>i < 5. unat (r ! i) < 2 ^ 26)"

definition r_nat :: "u32 list \<Rightarrow> nat" where
  "r_nat r = limbs_nat (r ! 0, r ! 1, r ! 2, r ! 3, r ! 4)"

lemma mask26: "(x :: 'a::len word) AND 0x3ffffff = take_bit 26 x"
  by (simp add: take_bit_eq_mask mask_numeral)

lemma unat_mask26 [unat_simps]: "unat ((x :: 'a::len word) AND 0x3ffffff) = unat x mod 67108864"
  unfolding mask26 unat_take_bit by simp

lemma limb_of:
  assumes "b \<le> 6"
  shows "(n :: nat) div 2 ^ a mod 4294967296 div 2 ^ b mod 67108864 = n div 2 ^ (a + b) mod 67108864"
proof -
  have "(67108864 :: nat) * 2 ^ b dvd 4294967296"
  proof -
    have "(2 :: nat) ^ (26 + b) dvd 2 ^ 32" using assms by (intro le_imp_power_dvd) simp
    then show ?thesis by (simp add: power_add)
  qed
  then have "n div 2 ^ a mod 4294967296 mod (2 ^ b * 67108864) = n div 2 ^ a mod (2 ^ b * 67108864)"
    by (simp add: mod_mod_cancel mult.commute)
  moreover have "x div 2 ^ b mod 67108864 = x mod (2 ^ b * 67108864) div 2 ^ b" for x :: nat
    by (simp add: mod_mult2_eq)
  ultimately show ?thesis by (simp add: div_mult2_eq power_add)
qed

lemma div_chain:
  "(n :: nat) div 2 ^ 52 = n div 2 ^ 26 div 2 ^ 26" "n div 2 ^ 78 = n div 2 ^ 26 div 2 ^ 26 div 2 ^ 26"
  "n div 2 ^ 104 = n div 2 ^ 26 div 2 ^ 26 div 2 ^ 26 div 2 ^ 26"
  by (simp_all add: div_mult2_eq [symmetric])

lemma join_lin:
  "(n :: nat) = q1 * 2 ^ 26 + m0 \<Longrightarrow> q1 = q2 * 2 ^ 26 + m1 \<Longrightarrow> q2 = q3 * 2 ^ 26 + m2 \<Longrightarrow> q3 = q4 * 2 ^ 26 + m3 \<Longrightarrow>
   m0 + m1 * 2 ^ 26 + m2 * 2 ^ 52 + m3 * 2 ^ 78 + q4 * 2 ^ 104 = n"
  by simp

lemma join_limbs:
  "(n :: nat) mod 2 ^ 26 + n div 2 ^ 26 mod 2 ^ 26 * 2 ^ 26 + n div 2 ^ 52 mod 2 ^ 26 * 2 ^ 52 +
   n div 2 ^ 78 mod 2 ^ 26 * 2 ^ 78 + n div 2 ^ 104 * 2 ^ 104 = n"
proof -
  define q1 q2 q3 q4 where "q1 = n div 2 ^ 26" and "q2 = q1 div 2 ^ 26" and "q3 = q2 div 2 ^ 26" and "q4 = q3 div 2 ^ 26"
  have "n = q1 * 2 ^ 26 + n mod 2 ^ 26" "q1 = q2 * 2 ^ 26 + q1 mod 2 ^ 26"
    "q2 = q3 * 2 ^ 26 + q2 mod 2 ^ 26" "q3 = q4 * 2 ^ 26 + q3 mod 2 ^ 26"
    by (simp_all only: q1_def q2_def q3_def q4_def div_mult_mod_eq)
  then show ?thesis
    unfolding div_chain q1_def [symmetric] q2_def [symmetric] q3_def [symmetric] q4_def [symmetric] by (rule join_lin)
qed

lemma load32_take: "k + 4 \<le> n \<Longrightarrow> n \<le> length m \<Longrightarrow> load32 (drop k (take n m)) = load32 (drop k m)"
  by (simp add: load32_def)

lemma message_limbs:
  assumes "16 \<le> length m" and "N = le_nat (take 16 m)"
  shows "unat (load32 m AND 0x3ffffff) = N mod 2 ^ 26"
    and "unat (drop_bit 2 (load32 (drop 3 m)) AND 0x3ffffff) = N div 2 ^ 26 mod 2 ^ 26"
    and "unat (drop_bit 4 (load32 (drop 6 m)) AND 0x3ffffff) = N div 2 ^ 52 mod 2 ^ 26"
    and "unat (drop_bit 6 (load32 (drop 9 m)) AND 0x3ffffff) = N div 2 ^ 78 mod 2 ^ 26"
    and "unat (drop_bit 8 (load32 (drop 12 m))) = N div 2 ^ 104"
    and "N < 2 ^ 128"
proof -
  have l: "unat (load32 (drop k m)) = N div 2 ^ (8 * k) mod 4294967296" if "k + 4 \<le> 16" for k
  proof -
    have "load32 (drop k m) = load32 (drop k (take 16 m))" using that assms(1) by (simp add: load32_take)
    then show ?thesis
      using that assms by (simp add: unat_load32_drop power_mult)
  qed
  show "unat (load32 m AND 0x3ffffff) = N mod 2 ^ 26"
    using l [of 0] by (simp add: unat_mask26 mod_mod_cancel)
  have e: "8 * 3 = (24 :: nat)" "8 * 6 = (48 :: nat)" "8 * 9 = (72 :: nat)"
    "24 + 2 = (26 :: nat)" "48 + 4 = (52 :: nat)" "72 + 6 = (78 :: nat)" "3 + 4 \<le> (16 :: nat)" "6 + 4 \<le> (16 :: nat)"
    "9 + 4 \<le> (16 :: nat)" "2 \<le> (6 :: nat)" "4 \<le> (6 :: nat)" "6 \<le> (6 :: nat)"
    by simp_all
  show "unat (drop_bit 2 (load32 (drop 3 m)) AND 0x3ffffff) = N div 2 ^ 26 mod 2 ^ 26"
    "unat (drop_bit 4 (load32 (drop 6 m)) AND 0x3ffffff) = N div 2 ^ 52 mod 2 ^ 26"
    "unat (drop_bit 6 (load32 (drop 9 m)) AND 0x3ffffff) = N div 2 ^ 78 mod 2 ^ 26"
    unfolding unat_mask26 unat_drop_bit
    by (simp_all only: l e limb_of) simp_all
  show N: "N < 2 ^ 128"
    using le_nat_less [of "take 16 m"] assms by (simp add: min_absorb2)
  have "N div 2 ^ 96 < 4294967296"
    by (rule less_mult_imp_div_less) (use N in simp)
  then show "unat (drop_bit 8 (load32 (drop 12 m))) = N div 2 ^ 104"
    using l [of 12] by (simp add: unat_drop_bit div_mult2_eq [symmetric])
qed

lemma message_limbs_ex:
  assumes "16 \<le> length m"
  obtains n0 n1 n2 n3 n4 where
    "unat (load32 m AND 0x3ffffff) = n0" "unat (drop_bit 2 (load32 (drop 3 m)) AND 0x3ffffff) = n1"
    "unat (drop_bit 4 (load32 (drop 6 m)) AND 0x3ffffff) = n2" "unat (drop_bit 6 (load32 (drop 9 m)) AND 0x3ffffff) = n3"
    "unat (drop_bit 8 (load32 (drop 12 m))) = n4"
    "n0 < 2 ^ 26" "n1 < 2 ^ 26" "n2 < 2 ^ 26" "n3 < 2 ^ 26" "n4 < 2 ^ 24"
    "n0 + n1 * 2 ^ 26 + n2 * 2 ^ 52 + n3 * 2 ^ 78 + n4 * 2 ^ 104 = le_nat (take 16 m)"
proof -
  note ml = message_limbs [OF assms refl]
  have "le_nat (take 16 m) div 2 ^ 104 < 2 ^ 24"
    by (rule less_mult_imp_div_less) (use ml(6) in simp)
  then show ?thesis
    by (intro that [OF ml(1-5) _ _ _ _ _ join_limbs]) simp_all
qed

lemma unat_add_small: "unat (a :: 'a::len word) + unat b < 2 ^ LENGTH('a) \<Longrightarrow> unat (a + b) = unat a + unat b"
  by (simp add: unat_word_ariths)

lemma add_block_nat:
  assumes "limbs_ok h" and "16 \<le> length m" and "high_bit = 0 \<or> high_bit = push_bit 24 1"
    and "add_block h m high_bit = (k0, k1, k2, k3, k4)"
  shows "limbs_nat (k0, k1, k2, k3, k4) = limbs_nat h + le_nat (take 16 m) + unat high_bit * 2 ^ 104"
    and "unat k0 < 2 ^ 27" and "unat k1 < 2 ^ 27 + 64" and "unat k2 < 2 ^ 27" and "unat k3 < 2 ^ 27" and "unat k4 < 2 ^ 27"
proof -
  obtain h0 h1 h2 h3 h4 where h: "h = (h0, h1, h2, h3, h4)" by (cases h) auto
  obtain n0 n1 n2 n3 n4 where n:
    "unat (load32 m AND 0x3ffffff) = n0" "unat (drop_bit 2 (load32 (drop 3 m)) AND 0x3ffffff) = n1"
    "unat (drop_bit 4 (load32 (drop 6 m)) AND 0x3ffffff) = n2" "unat (drop_bit 6 (load32 (drop 9 m)) AND 0x3ffffff) = n3"
    "unat (drop_bit 8 (load32 (drop 12 m))) = n4"
    "n0 < 2 ^ 26" "n1 < 2 ^ 26" "n2 < 2 ^ 26" "n3 < 2 ^ 26" "n4 < 2 ^ 24"
    "n0 + n1 * 2 ^ 26 + n2 * 2 ^ 52 + n3 * 2 ^ 78 + n4 * 2 ^ 104 = le_nat (take 16 m)"
    using message_limbs_ex [OF assms(2)] .
  have hb: "unat high_bit \<le> 2 ^ 24" using assms(3) by auto
  have hi: "unat (drop_bit 8 (load32 (drop 12 m)) OR high_bit) = n4 + unat high_bit"
    using assms(3) n(5,10) unat_or_high [of "drop_bit 8 (load32 (drop 12 m))" 24 1] by auto
  have bh: "unat h0 < 2 ^ 26" "unat h1 < 2 ^ 26 + 64" "unat h2 < 2 ^ 26" "unat h3 < 2 ^ 26" "unat h4 < 2 ^ 26"
    using assms(1) by (simp_all add: h limbs_ok_def)
  have k: "k0 = h0 + (load32 m AND 0x3ffffff)" "k1 = h1 + (drop_bit 2 (load32 (drop 3 m)) AND 0x3ffffff)"
    "k2 = h2 + (drop_bit 4 (load32 (drop 6 m)) AND 0x3ffffff)" "k3 = h3 + (drop_bit 6 (load32 (drop 9 m)) AND 0x3ffffff)"
    "k4 = h4 + (drop_bit 8 (load32 (drop 12 m)) OR high_bit)"
    using assms(4) unfolding h add_block_def by auto
  have u: "unat k0 = unat h0 + n0" "unat k1 = unat h1 + n1" "unat k2 = unat h2 + n2" "unat k3 = unat h3 + n3"
    "unat k4 = unat h4 + (n4 + unat high_bit)"
    unfolding k using bh n hi hb by (subst unat_add_small; simp)+
  show "unat k0 < 2 ^ 27" "unat k1 < 2 ^ 27 + 64" "unat k2 < 2 ^ 27" "unat k3 < 2 ^ 27" "unat k4 < 2 ^ 27"
    using u bh n(6-10) hb by simp_all
  show "limbs_nat (k0, k1, k2, k3, k4) = limbs_nat h + le_nat (take 16 m) + unat high_bit * 2 ^ 104"
    unfolding n(11) [symmetric] by (simp add: limbs_nat_def h u algebra_simps)
qed

section \<open>One block\<close>

lemma unat_sum5:
  assumes "unat (a :: u64) \<le> 2 ^ 57" "unat b \<le> 2 ^ 57" "unat c \<le> 2 ^ 57" "unat d \<le> 2 ^ 57" "unat e \<le> 2 ^ 57"
  shows "unat (a + b + c + d + e) = unat a + unat b + unat c + unat d + unat e"
proof -
  have "unat (a + b) = unat a + unat b" using assms by (intro unat_add_small) simp
  moreover from this have "unat (a + b + c) = unat a + unat b + unat c" using assms by (subst unat_add_small) simp_all
  moreover from this have "unat (a + b + c + d) = unat a + unat b + unat c + unat d" using assms by (subst unat_add_small) simp_all
  ultimately show ?thesis using assms by (subst unat_add_small) simp_all
qed

lemma product_bound:
  assumes "unat (h :: u32) < 2 ^ 28" and "unat (r :: u32) < 5 * 2 ^ 26"
  shows "unat (ct_widemul h r) \<le> 2 ^ 57"
proof -
  have "unat h * unat r \<le> 2 ^ 28 * (5 * 2 ^ 26)" using assms by (intro mult_le_mono) simp_all
  then show ?thesis by (simp add: unat_ct_widemul)
qed

lemma unat_products:
  assumes "unat k0 < 2 ^ 28" "unat k1 < 2 ^ 28" "unat k2 < 2 ^ 28" "unat k3 < 2 ^ 28" "unat k4 < 2 ^ 28"
    and "unat x0 < 5 * 2 ^ 26" "unat x1 < 5 * 2 ^ 26" "unat x2 < 5 * 2 ^ 26" "unat x3 < 5 * 2 ^ 26" "unat x4 < 5 * 2 ^ 26"
  shows "unat (ct_widemul k0 x0 + ct_widemul k1 x1 + ct_widemul k2 x2 + ct_widemul k3 x3 + ct_widemul k4 x4) =
    unat k0 * unat x0 + unat k1 * unat x1 + unat k2 * unat x2 + unat k3 * unat x3 + unat k4 * unat x4"
  using unat_sum5 [OF product_bound [OF assms(1,6)] product_bound [OF assms(2,7)] product_bound [OF assms(3,8)]
      product_bound [OF assms(4,9)] product_bound [OF assms(5,10)]]
  by (simp add: unat_ct_widemul)

lemma unat_times5: "unat (r :: u32) < 2 ^ 26 \<Longrightarrow> unat (r * 5) = unat r * 5"
  by (simp add: unat_word_ariths)

lemma mul_limbs_nat:
  assumes "r_ok r" and "mul_limbs r (k0, k1, k2, k3, k4) = (d0, d1, d2, d3, d4)"
    and "unat k0 < 2 ^ 28" "unat k1 < 2 ^ 28" "unat k2 < 2 ^ 28" "unat k3 < 2 ^ 28" "unat k4 < 2 ^ 28"
    and "r0 = unat (r ! 0)" "r1 = unat (r ! 1)" "r2 = unat (r ! 2)" "r3 = unat (r ! 3)" "r4 = unat (r ! 4)"
  shows "unat d0 = unat k0 * r0 + unat k1 * (r4 * 5) + unat k2 * (r3 * 5) + unat k3 * (r2 * 5) + unat k4 * (r1 * 5)"
    and "unat d1 = unat k0 * r1 + unat k1 * r0 + unat k2 * (r4 * 5) + unat k3 * (r3 * 5) + unat k4 * (r2 * 5)"
    and "unat d2 = unat k0 * r2 + unat k1 * r1 + unat k2 * r0 + unat k3 * (r4 * 5) + unat k4 * (r3 * 5)"
    and "unat d3 = unat k0 * r3 + unat k1 * r2 + unat k2 * r1 + unat k3 * r0 + unat k4 * (r4 * 5)"
    and "unat d4 = unat k0 * r4 + unat k1 * r3 + unat k2 * r2 + unat k3 * r1 + unat k4 * r0"
proof -
  have r: "unat (r ! 0) < 2 ^ 26" "unat (r ! 1) < 2 ^ 26" "unat (r ! 2) < 2 ^ 26" "unat (r ! 3) < 2 ^ 26" "unat (r ! 4) < 2 ^ 26"
    using assms(1) by (simp_all add: r_ok_def)
  have lt: "unat (r ! 0) < 5 * 2 ^ 26" "unat (r ! 1) < 5 * 2 ^ 26" "unat (r ! 2) < 5 * 2 ^ 26" "unat (r ! 3) < 5 * 2 ^ 26"
    "unat (r ! 4) < 5 * 2 ^ 26" "unat (r ! 1 * 5) < 5 * 2 ^ 26" "unat (r ! 2 * 5) < 5 * 2 ^ 26" "unat (r ! 3 * 5) < 5 * 2 ^ 26"
    "unat (r ! 4 * 5) < 5 * 2 ^ 26"
    using r by (simp_all add: unat_times5)
  have eqs: "d0 = ct_widemul k0 (r ! 0) + ct_widemul k1 (r ! 4 * 5) + ct_widemul k2 (r ! 3 * 5) + ct_widemul k3 (r ! 2 * 5) + ct_widemul k4 (r ! 1 * 5)"
    "d1 = ct_widemul k0 (r ! 1) + ct_widemul k1 (r ! 0) + ct_widemul k2 (r ! 4 * 5) + ct_widemul k3 (r ! 3 * 5) + ct_widemul k4 (r ! 2 * 5)"
    "d2 = ct_widemul k0 (r ! 2) + ct_widemul k1 (r ! 1) + ct_widemul k2 (r ! 0) + ct_widemul k3 (r ! 4 * 5) + ct_widemul k4 (r ! 3 * 5)"
    "d3 = ct_widemul k0 (r ! 3) + ct_widemul k1 (r ! 2) + ct_widemul k2 (r ! 1) + ct_widemul k3 (r ! 0) + ct_widemul k4 (r ! 4 * 5)"
    "d4 = ct_widemul k0 (r ! 4) + ct_widemul k1 (r ! 3) + ct_widemul k2 (r ! 2) + ct_widemul k3 (r ! 1) + ct_widemul k4 (r ! 0)"
    using assms(2) unfolding mul_limbs_def by (simp_all add: Let_def)
  show "unat d0 = unat k0 * r0 + unat k1 * (r4 * 5) + unat k2 * (r3 * 5) + unat k3 * (r2 * 5) + unat k4 * (r1 * 5)"
    "unat d1 = unat k0 * r1 + unat k1 * r0 + unat k2 * (r4 * 5) + unat k3 * (r3 * 5) + unat k4 * (r2 * 5)"
    "unat d2 = unat k0 * r2 + unat k1 * r1 + unat k2 * r0 + unat k3 * (r4 * 5) + unat k4 * (r3 * 5)"
    "unat d3 = unat k0 * r3 + unat k1 * r2 + unat k2 * r1 + unat k3 * r0 + unat k4 * (r4 * 5)"
    "unat d4 = unat k0 * r4 + unat k1 * r3 + unat k2 * r2 + unat k3 * r1 + unat k4 * r0"
    unfolding assms(8-12) eqs unat_times5 [OF r(2), symmetric] unat_times5 [OF r(3), symmetric]
      unat_times5 [OF r(4), symmetric] unat_times5 [OF r(5), symmetric]
    by (rule unat_products [OF assms(3-7)]; rule lt)+
qed

text \<open>The schoolbook product, with \<open>2^130\<close> folded to five.\<close>

lemma fold_product:
  fixes k0 :: nat
  shows "(k0 + k1 * 2 ^ 26 + k2 * 2 ^ 52 + k3 * 2 ^ 78 + k4 * 2 ^ 104) * (r0 + r1 * 2 ^ 26 + r2 * 2 ^ 52 + r3 * 2 ^ 78 + r4 * 2 ^ 104) =
    (k0 * r0 + k1 * (r4 * 5) + k2 * (r3 * 5) + k3 * (r2 * 5) + k4 * (r1 * 5)) +
    (k0 * r1 + k1 * r0 + k2 * (r4 * 5) + k3 * (r3 * 5) + k4 * (r2 * 5)) * 2 ^ 26 +
    (k0 * r2 + k1 * r1 + k2 * r0 + k3 * (r4 * 5) + k4 * (r3 * 5)) * 2 ^ 52 +
    (k0 * r3 + k1 * r2 + k2 * r1 + k3 * r0 + k4 * (r4 * 5)) * 2 ^ 78 +
    (k0 * r4 + k1 * r3 + k2 * r2 + k3 * r1 + k4 * r0) * 2 ^ 104 +
    P1305 * ((k1 * r4 + k2 * r3 + k3 * r2 + k4 * r1) + (k2 * r4 + k3 * r3 + k4 * r2) * 2 ^ 26 +
             (k3 * r4 + k4 * r3) * 2 ^ 52 + k4 * r4 * 2 ^ 78)"
  unfolding P1305_def by (simp add: algebra_simps)

lemma carry_value:
  fixes d0 :: nat
  assumes "d0 = q0 * 2 ^ 26 + m0" and "d1 + q0 = q1 * 2 ^ 26 + m1" and "d2 + q1 = q2 * 2 ^ 26 + m2"
    and "d3 + q2 = q3 * 2 ^ 26 + m3" and "d4 + q3 = c * 2 ^ 26 + m4" and "m0 + c * 5 = t * 2 ^ 26 + n0"
  shows "n0 + (m1 + t) * 2 ^ 26 + m2 * 2 ^ 52 + m3 * 2 ^ 78 + m4 * 2 ^ 104 + c * P1305 =
    d0 + d1 * 2 ^ 26 + d2 * 2 ^ 52 + d3 * 2 ^ 78 + d4 * 2 ^ 104"
  using assms unfolding P1305_def by simp

lemma unat_low26: "unat (ucast (d :: u64) AND 0x3ffffff :: u32) = unat d mod 2 ^ 26"
  by (simp add: unat_mask26 unat_ucast_mod mod_mod_cancel)

lemma carry_limbs_nat:
  assumes "unat d0 < 2 ^ 60" "unat d1 < 2 ^ 60" "unat d2 < 2 ^ 60" "unat d3 < 2 ^ 60" "unat d4 < 5 * 2 ^ 53 + 2 ^ 35"
    and "carry_limbs (d0, d1, d2, d3, d4) = h"
  shows "limbs_ok h"
    and "limbs_nat h mod P1305 = (unat d0 + unat d1 * 2 ^ 26 + unat d2 * 2 ^ 52 + unat d3 * 2 ^ 78 + unat d4 * 2 ^ 104) mod P1305"
proof -
  have step: "unat (d + drop_bit 26 e) = unat d + unat e div 2 ^ 26 \<and> unat (d + drop_bit 26 e) < 2 ^ 61"
    if "unat d < 2 ^ 60" "unat e < 2 ^ 61" for d e :: u64
  proof -
    have "unat e div 2 ^ 26 < 2 ^ 35" by (rule less_mult_imp_div_less) (use that in simp)
    then show ?thesis using that by (subst unat_add_small; simp add: unat_drop_bit)+
  qed
  define e1 where "e1 = d1 + drop_bit 26 d0"
  define e2 where "e2 = d2 + drop_bit 26 e1"
  define e3 where "e3 = d3 + drop_bit 26 e2"
  define e4 where "e4 = d4 + drop_bit 26 e3"
  define c where "c = unat e4 div 2 ^ 26"
  define m0 where "m0 = unat d0 mod 2 ^ 26"
  define g0 where "g0 = (ucast d0 AND 0x3ffffff) + ucast (drop_bit 26 e4) * (5 :: u32)"
  have e1: "unat e1 = unat d1 + unat d0 div 2 ^ 26" "unat e1 < 2 ^ 61"
    using step [of d1 d0] assms unfolding e1_def by simp_all
  have e2: "unat e2 = unat d2 + unat e1 div 2 ^ 26" "unat e2 < 2 ^ 61"
    using step [of d2 e1] assms e1 unfolding e2_def by simp_all
  have e3: "unat e3 = unat d3 + unat e2 div 2 ^ 26" "unat e3 < 2 ^ 61"
    using step [of d3 e2] assms e2 unfolding e3_def by simp_all
  have e4: "unat e4 = unat d4 + unat e3 div 2 ^ 26"
    using step [of d4 e3] assms e3 unfolding e4_def by simp
  have "unat e3 div 2 ^ 26 < 2 ^ 35" by (rule less_mult_imp_div_less) (use e3 in simp)
  then have c: "c < 5 * 2 ^ 27 + 2 ^ 11"
    unfolding c_def using e4 assms(5) by (intro less_mult_imp_div_less) simp
  have "unat (ucast (drop_bit 26 e4) :: u32) = c"
    using c by (simp add: unat_ucast_mod unat_drop_bit c_def)
  then have "unat (ucast (drop_bit 26 e4) * (5 :: u32)) = c * 5"
    using c by (simp add: unat_word_ariths)
  moreover have m0: "m0 < 2 ^ 26" by (simp add: m0_def)
  ultimately have g0: "unat g0 = m0 + c * 5"
    using c unfolding g0_def m0_def by (subst unat_add_small) (simp_all add: unat_low26)
  have t: "unat g0 div 2 ^ 26 < 64"
    by (rule less_mult_imp_div_less) simp
  define h1 where "h1 = (ucast e1 AND 0x3ffffff) + drop_bit 26 g0"
  have "unat e1 mod 2 ^ 26 < 2 ^ 26" by simp
  then have h1: "unat h1 = unat e1 mod 2 ^ 26 + unat g0 div 2 ^ 26"
    using t unfolding h1_def by (subst unat_add_small) (simp_all add: unat_low26 unat_drop_bit)
  have h: "h = (g0 AND 0x3ffffff, h1, ucast e2 AND 0x3ffffff, ucast e3 AND 0x3ffffff, ucast e4 AND 0x3ffffff)"
    unfolding assms(6) [symmetric] carry_limbs_def h1_def g0_def e1_def e2_def e3_def e4_def by (simp add: Let_def)
  have "unat h1 < 2 ^ 26 + 64" using h1 t \<open>unat e1 mod 2 ^ 26 < 2 ^ 26\<close> by linarith
  then show "limbs_ok h" by (simp add: h limbs_ok_def unat_low26 unat_mask26)
  have p: "unat d0 = unat d0 div 2 ^ 26 * 2 ^ 26 + m0"
    "unat d1 + unat d0 div 2 ^ 26 = unat e1 div 2 ^ 26 * 2 ^ 26 + unat e1 mod 2 ^ 26"
    "unat d2 + unat e1 div 2 ^ 26 = unat e2 div 2 ^ 26 * 2 ^ 26 + unat e2 mod 2 ^ 26"
    "unat d3 + unat e2 div 2 ^ 26 = unat e3 div 2 ^ 26 * 2 ^ 26 + unat e3 mod 2 ^ 26"
    "unat d4 + unat e3 div 2 ^ 26 = c * 2 ^ 26 + unat e4 mod 2 ^ 26"
    "m0 + c * 5 = unat g0 div 2 ^ 26 * 2 ^ 26 + unat g0 mod 2 ^ 26"
    unfolding e1(1) [symmetric] e2(1) [symmetric] e3(1) [symmetric] e4 [symmetric] c_def m0_def
    by (simp_all only: div_mult_mod_eq g0 c_def m0_def)
  have low: "unat (g0 AND 0x3ffffff) = unat g0 mod 2 ^ 26" by (simp add: unat_mask26)
  have "limbs_nat h + c * P1305 = unat d0 + unat d1 * 2 ^ 26 + unat d2 * 2 ^ 52 + unat d3 * 2 ^ 78 + unat d4 * 2 ^ 104"
    unfolding h limbs_nat_def prod.case h1 unat_low26 low by (rule carry_value [OF p])
  then show "limbs_nat h mod P1305 = (unat d0 + unat d1 * 2 ^ 26 + unat d2 * 2 ^ 52 + unat d3 * 2 ^ 78 + unat d4 * 2 ^ 104) mod P1305"
    by (metis mod_mult_self1 mult.commute mod_mult_self2)
qed

lemma mul_bound:
  assumes "unat (a :: u32) \<le> 2 ^ 27 + 64" and "x \<le> y * (2 ^ 26 :: nat)"
  shows "unat a * x \<le> (2 ^ 27 + 64) * (y * 2 ^ 26)"
  using assms by (intro mult_le_mono)

lemma sum_bound:
  "(a :: nat) \<le> M \<Longrightarrow> b \<le> M \<Longrightarrow> c \<le> M \<Longrightarrow> d \<le> M \<Longrightarrow> e \<le> M \<Longrightarrow> a + b + c + d + e \<le> 5 * M"
  by simp

lemma block_step_nat:
  assumes "r_ok r" and "limbs_ok h" and "16 \<le> length m" and "high_bit = 0 \<or> high_bit = push_bit 24 1"
    and "h' = carry_limbs (mul_limbs r (add_block h m high_bit))"
  shows "limbs_ok h'"
    and "limbs_nat h' mod P1305 = (limbs_nat h + le_nat (take 16 m) + unat high_bit * 2 ^ 104) * r_nat r mod P1305"
proof -
  obtain k0 k1 k2 k3 k4 where add: "add_block h m high_bit = (k0, k1, k2, k3, k4)" by (cases "add_block h m high_bit") auto
  note k = add_block_nat [OF assms(2-4) add]
  obtain d0 d1 d2 d3 d4 where mul: "mul_limbs r (k0, k1, k2, k3, k4) = (d0, d1, d2, d3, d4)"
    by (cases "mul_limbs r (k0, k1, k2, k3, k4)") auto
  define r0 r1 r2 r3 r4 where r: "r0 = unat (r ! 0)" "r1 = unat (r ! 1)" "r2 = unat (r ! 2)" "r3 = unat (r ! 3)" "r4 = unat (r ! 4)"
  have rlt: "r0 \<le> 1 * 2 ^ 26" "r1 \<le> 1 * 2 ^ 26" "r2 \<le> 1 * 2 ^ 26" "r3 \<le> 1 * 2 ^ 26" "r4 \<le> 1 * 2 ^ 26"
    "r1 * 5 \<le> 5 * 2 ^ 26" "r2 * 5 \<le> 5 * 2 ^ 26" "r3 * 5 \<le> 5 * 2 ^ 26" "r4 * 5 \<le> 5 * 2 ^ 26"
    using assms(1) by (simp_all add: r_ok_def r less_imp_le)
  have kle: "unat k0 \<le> 2 ^ 27 + 64" "unat k1 \<le> 2 ^ 27 + 64" "unat k2 \<le> 2 ^ 27 + 64" "unat k3 \<le> 2 ^ 27 + 64" "unat k4 \<le> 2 ^ 27 + 64"
    using k by simp_all
  have klt: "unat k0 < 2 ^ 28" "unat k1 < 2 ^ 28" "unat k2 < 2 ^ 28" "unat k3 < 2 ^ 28" "unat k4 < 2 ^ 28"
    using k by simp_all
  note d = mul_limbs_nat [OF assms(1) mul klt r]
  note kb = mul_bound [OF kle(1)] mul_bound [OF kle(2)] mul_bound [OF kle(3)] mul_bound [OF kle(4)] mul_bound [OF kle(5)]
  have r5: "x \<le> 5 * 2 ^ 26" if "x \<le> 1 * 2 ^ 26" for x :: nat using that by simp
  note rw = r5 [OF rlt(1)] r5 [OF rlt(2)] r5 [OF rlt(3)] r5 [OF rlt(4)] rlt(6-9)
  have dle: "unat d0 \<le> 5 * ((2 ^ 27 + 64) * (5 * 2 ^ 26))" "unat d1 \<le> 5 * ((2 ^ 27 + 64) * (5 * 2 ^ 26))"
    "unat d2 \<le> 5 * ((2 ^ 27 + 64) * (5 * 2 ^ 26))" "unat d3 \<le> 5 * ((2 ^ 27 + 64) * (5 * 2 ^ 26))"
    "unat d4 \<le> 5 * ((2 ^ 27 + 64) * (1 * 2 ^ 26))"
    unfolding d by (intro sum_bound kb rw rlt(1-5))+
  have dlt: "unat d0 < 2 ^ 60" "unat d1 < 2 ^ 60" "unat d2 < 2 ^ 60" "unat d3 < 2 ^ 60" "unat d4 < 5 * 2 ^ 53 + 2 ^ 35"
    using dle by simp_all
  have h': "carry_limbs (d0, d1, d2, d3, d4) = h'" using assms(5) add mul by simp
  show "limbs_ok h'" by (rule carry_limbs_nat(1) [OF dlt h'])
  have "(limbs_nat h + le_nat (take 16 m) + unat high_bit * 2 ^ 104) * r_nat r mod P1305 =
      limbs_nat (k0, k1, k2, k3, k4) * limbs_nat (r ! 0, r ! 1, r ! 2, r ! 3, r ! 4) mod P1305"
    unfolding k(1) r_nat_def ..
  also have "\<dots> = (unat d0 + unat d1 * 2 ^ 26 + unat d2 * 2 ^ 52 + unat d3 * 2 ^ 78 + unat d4 * 2 ^ 104) mod P1305"
    unfolding limbs_nat_def prod.case r [symmetric] fold_product d by (rule mod_mult_self2)
  also have "\<dots> = limbs_nat h' mod P1305" by (rule carry_limbs_nat(2) [OF dlt h', symmetric])
  finally show "limbs_nat h' mod P1305 = (limbs_nat h + le_nat (take 16 m) + unat high_bit * 2 ^ 104) * r_nat r mod P1305" ..
qed

section \<open>Runs of blocks\<close>

lemma poly_acc_Nil [simp]: "poly_acc r acc [] = acc"
  by (simp add: poly_acc.simps)

lemma poly_acc_step:
  "m \<noteq> [] \<Longrightarrow> poly_acc r acc m =
     poly_acc r ((acc + le_nat (take 16 m) + 2 ^ (8 * length (take 16 m))) * r mod P1305) (drop 16 m)"
  by (simp add: poly_acc.simps [of r acc m])

lemma poly_acc_append: "16 dvd length a \<Longrightarrow> poly_acc r acc (a @ b) = poly_acc r (poly_acc r acc a) b"
proof (induction "length a" arbitrary: a acc rule: less_induct)
  case less
  show ?case
  proof (cases "a = []")
    case False
    then have l: "16 \<le> length a" using less.prems by (simp add: dvd_imp_le)
    moreover have "16 dvd length (drop 16 a)" using less.prems l by (simp add: dvd_diff_nat)
    ultimately show ?thesis
      using less.hyps [of "drop 16 a"] False
      by (simp add: poly_acc_step [of "a @ b"] poly_acc_step [of a])
  qed simp
qed

lemma poly_acc_less: "acc < P1305 \<Longrightarrow> poly_acc r acc m < P1305"
proof (induction r acc m rule: poly_acc.induct)
  case (1 r acc m)
  show ?case
  proof (cases "m = []")
    case False
    have "0 < P1305" by (simp add: P1305_def)
    then show ?thesis using 1(1) [OF False] by (simp add: poly_acc_step [OF False])
  qed (simp add: 1(2))
qed

lemma mod_add_mult: "((a :: nat) mod p + x) * y mod p = (a + x) * y mod p"
  by (metis mod_add_left_eq mod_mult_left_eq)

lemma blocks_loop_acc:
  assumes "r_ok r" and "limbs_ok h" and "16 dvd n" and "n \<le> length m"
    and "limbs_nat h mod P1305 = acc" and "h' = blocks_loop r (push_bit 24 1) h m n"
  shows "limbs_ok h' \<and> limbs_nat h' mod P1305 = poly_acc (r_nat r) acc (take n m)"
  using assms
proof (induction n arbitrary: h m acc rule: less_induct)
  case (less n)
  show ?case
  proof (cases "n = 0")
    case True
    then show ?thesis using less.prems by (simp add: blocks_loop.simps)
  next
    case False
    then have n: "16 \<le> n" "16 dvd n - 16" using less.prems(3) by (auto simp: dvd_imp_le dvd_diff_nat)
    define g where "g = carry_limbs (mul_limbs r (add_block h m (push_bit 24 1)))"
    have m: "16 \<le> length m" "n - 16 \<le> length (drop 16 m)" using n less.prems(4) by simp_all
    note step = block_step_nat [OF less.prems(1,2) m(1) disjI2 [OF refl] g_def]
    have "limbs_nat g mod P1305 = (limbs_nat h + le_nat (take 16 m) + 2 ^ 128) * r_nat r mod P1305"
      using step(2) by simp
    also have "\<dots> = (acc + le_nat (take 16 m) + 2 ^ 128) * r_nat r mod P1305"
      unfolding less.prems(5) [symmetric] add.assoc by (rule mod_add_mult [symmetric])
    finally have g: "limbs_nat g mod P1305 = (acc + le_nat (take 16 m) + 2 ^ 128) * r_nat r mod P1305" .
    have "h' = blocks_loop r (push_bit 24 1) g (drop 16 m) (n - 16)"
      using n less.prems(6) by (simp add: blocks_loop.simps [of _ _ h] g_def)
    moreover have "n - 16 < n" using n by simp
    ultimately have "limbs_ok h' \<and> limbs_nat h' mod P1305 =
        poly_acc (r_nat r) ((acc + le_nat (take 16 m) + 2 ^ 128) * r_nat r mod P1305) (take (n - 16) (drop 16 m))"
      using less.IH [OF _ less.prems(1) step(1) n(2) m(2) g] by blast
    moreover have "take n m \<noteq> []" "take 16 (take n m) = take 16 m" "drop 16 (take n m) = take (n - 16) (drop 16 m)"
      using n m by (auto simp: min_absorb1 drop_take)
    ultimately show ?thesis
      using m(1) by (simp add: poly_acc_step [of "take n m"] min_absorb2)
  qed
qed

section \<open>The final reduction\<close>

lemma finish_carry_value:
  fixes h0 :: nat
  assumes "h1 = c1 * 2 ^ 26 + m1" and "h2 + c1 = c2 * 2 ^ 26 + m2" and "h3 + c2 = c3 * 2 ^ 26 + m3"
    and "h4 + c3 = c4 * 2 ^ 26 + m4" and "h0 + c4 * 5 = c5 * 2 ^ 26 + n0"
  shows "n0 + (m1 + c5) * 2 ^ 26 + m2 * 2 ^ 52 + m3 * 2 ^ 78 + m4 * 2 ^ 104 + c4 * P1305 =
    h0 + h1 * 2 ^ 26 + h2 * 2 ^ 52 + h3 * 2 ^ 78 + h4 * 2 ^ 104"
  using assms unfolding P1305_def by simp

lemma finish_carry_small:
  fixes h0 :: nat
  assumes "h1 = c1 * 2 ^ 26 + m1" and "h2 + c1 = c2 * 2 ^ 26 + m2" and "h3 + c2 = c3 * 2 ^ 26 + m3"
    and "h4 + c3 = c4 * 2 ^ 26 + m4" and "h0 + c4 * 5 = c5 * 2 ^ 26 + n0"
    and "h0 < 2 ^ 26" "h1 < 2 ^ 26 + 64" "h2 < 2 ^ 26" "h3 < 2 ^ 26" "h4 < 2 ^ 26" "m1 < 2 ^ 26"
  shows "m1 + c5 < 2 ^ 26"
proof -
  have e: "(2 :: nat) ^ 26 = 67108864" by simp
  note a = assms [unfolded e]
  show ?thesis
  proof (cases "c4 = 0")
    case True
    then have "c5 = 0" using a by linarith
    then show ?thesis using a by simp
  next
    case False
    then have "c3 \<noteq> 0" using a by linarith
    then have "c2 \<noteq> 0" using a by linarith
    then have "c1 \<noteq> 0" using a by linarith
    moreover have "c1 \<le> 1" using a by linarith
    moreover have "c2 \<le> 1" using a \<open>c1 \<le> 1\<close> by linarith
    moreover have "c3 \<le> 1" using a \<open>c2 \<le> 1\<close> by linarith
    moreover have "c4 \<le> 1" using a \<open>c3 \<le> 1\<close> by linarith
    ultimately show ?thesis unfolding e using a by linarith
  qed
qed

definition limbs_small :: "limbs \<Rightarrow> bool" where
  "limbs_small h = (case h of (h0, h1, h2, h3, h4) \<Rightarrow>
     unat h0 < 2 ^ 26 \<and> unat h1 < 2 ^ 26 \<and> unat h2 < 2 ^ 26 \<and> unat h3 < 2 ^ 26 \<and> unat h4 < 2 ^ 26)"

lemma unat_add_carry:
  assumes "unat (d :: u32) < 2 ^ 30" and "unat (e :: u32) < 2 ^ 32"
  shows "unat (d + drop_bit 26 e) = unat d + unat e div 2 ^ 26"
proof -
  have "unat e div 2 ^ 26 < 2 ^ 6" by (rule less_mult_imp_div_less) simp
  then show ?thesis using assms by (subst unat_add_small) (simp_all add: unat_drop_bit)
qed

lemma finish_carry_nat:
  assumes "limbs_ok h"
  shows "limbs_small (finish_carry h)" and "limbs_nat (finish_carry h) mod P1305 = limbs_nat h mod P1305"
proof -
  obtain h0 h1 h2 h3 h4 where h: "h = (h0, h1, h2, h3, h4)" by (cases h) auto
  have b: "unat h0 < 2 ^ 26" "unat h1 < 2 ^ 26 + 64" "unat h2 < 2 ^ 26" "unat h3 < 2 ^ 26" "unat h4 < 2 ^ 26"
    using assms by (simp_all add: h limbs_ok_def)
  define k2 where "k2 = h2 + drop_bit 26 h1"
  define k3 where "k3 = h3 + drop_bit 26 k2"
  define k4 where "k4 = h4 + drop_bit 26 k3"
  define k0 where "k0 = h0 + drop_bit 26 k4 * 5"
  define k1 where "k1 = (h1 AND 0x3ffffff) + drop_bit 26 k0"
  have k2: "unat k2 = unat h2 + unat h1 div 2 ^ 26" unfolding k2_def using b by (intro unat_add_carry) simp_all
  have k3: "unat k3 = unat h3 + unat k2 div 2 ^ 26" unfolding k3_def using b by (intro unat_add_carry) simp_all
  have k4: "unat k4 = unat h4 + unat k3 div 2 ^ 26" unfolding k4_def using b by (intro unat_add_carry) simp_all
  have c4: "unat k4 div 2 ^ 26 < 2 ^ 6" by (rule less_mult_imp_div_less) simp
  then have "unat (drop_bit 26 k4 * 5) = unat k4 div 2 ^ 26 * 5" by (simp add: unat_word_ariths unat_drop_bit)
  then have k0: "unat k0 = unat h0 + unat k4 div 2 ^ 26 * 5"
    unfolding k0_def using b c4 by (subst unat_add_small) simp_all
  have "unat (h1 AND 0x3ffffff) < 2 ^ 30" by (simp add: unat_mask26 order_less_trans [OF mod_less_divisor])
  then have k1: "unat k1 = unat h1 mod 2 ^ 26 + unat k0 div 2 ^ 26"
    unfolding k1_def by (subst unat_add_carry) (simp_all add: unat_mask26)
  have fc: "finish_carry h = (k0 AND 0x3ffffff, k1, k2 AND 0x3ffffff, k3 AND 0x3ffffff, k4 AND 0x3ffffff)"
    unfolding h finish_carry_def k1_def k0_def k4_def k3_def k2_def by (simp add: Let_def)
  have p: "unat h1 = unat h1 div 2 ^ 26 * 2 ^ 26 + unat h1 mod 2 ^ 26"
    "unat h2 + unat h1 div 2 ^ 26 = unat k2 div 2 ^ 26 * 2 ^ 26 + unat k2 mod 2 ^ 26"
    "unat h3 + unat k2 div 2 ^ 26 = unat k3 div 2 ^ 26 * 2 ^ 26 + unat k3 mod 2 ^ 26"
    "unat h4 + unat k3 div 2 ^ 26 = unat k4 div 2 ^ 26 * 2 ^ 26 + unat k4 mod 2 ^ 26"
    "unat h0 + unat k4 div 2 ^ 26 * 5 = unat k0 div 2 ^ 26 * 2 ^ 26 + unat k0 mod 2 ^ 26"
    unfolding k2 [symmetric] k3 [symmetric] k4 [symmetric] k0 [symmetric] by (simp_all only: div_mult_mod_eq)
  have m: "unat (x AND 0x3ffffff) = unat x mod 2 ^ 26" for x :: u32 by (simp add: unat_mask26)
  have "unat h1 mod 2 ^ 26 < 2 ^ 26" by simp
  then have "unat k1 < 2 ^ 26"
    unfolding k1 by (intro finish_carry_small [OF p b])
  then show "limbs_small (finish_carry h)" by (simp add: fc limbs_small_def m)
  have "limbs_nat (finish_carry h) + unat k4 div 2 ^ 26 * P1305 = limbs_nat h"
    unfolding fc unfolding h limbs_nat_def prod.case m k1 by (rule finish_carry_value [OF p])
  then show "limbs_nat (finish_carry h) mod P1305 = limbs_nat h mod P1305"
    by (metis mod_mult_self1)
qed

lemma limbs_small_less: "limbs_small h \<Longrightarrow> limbs_nat h < 2 ^ 130"
  by (cases h) (simp add: limbs_small_def limbs_nat_def)

lemma select_mask:
  "(x AND NOT m) OR (y AND m) = (if m = 0 then x else y)" if "m = 0 \<or> m = - 1" for m :: u32
  using that by auto

lemma finish_reduce_value:
  fixes h0 :: nat
  assumes "h0 + 5 = c0 * 2 ^ 26 + m0" and "h1 + c0 = c1 * 2 ^ 26 + m1" and "h2 + c1 = c2 * 2 ^ 26 + m2"
    and "h3 + c2 = c3 * 2 ^ 26 + m3"
  shows "m0 + m1 * 2 ^ 26 + m2 * 2 ^ 52 + m3 * 2 ^ 78 + (h4 + c3) * 2 ^ 104 =
    h0 + h1 * 2 ^ 26 + h2 * 2 ^ 52 + h3 * 2 ^ 78 + h4 * 2 ^ 104 + 5"
  using assms by simp

lemma finish_reduce_nat:
  assumes "limbs_small h"
  shows "limbs_small (finish_reduce h)" and "limbs_nat (finish_reduce h) = limbs_nat h mod P1305"
proof -
  obtain h0 h1 h2 h3 h4 where h: "h = (h0, h1, h2, h3, h4)" by (cases h) auto
  have b: "unat h0 < 2 ^ 26" "unat h1 < 2 ^ 26" "unat h2 < 2 ^ 26" "unat h3 < 2 ^ 26" "unat h4 < 2 ^ 26"
    using assms by (simp_all add: h limbs_small_def)
  define g0 where "g0 = h0 + 5"
  define g1 where "g1 = h1 + drop_bit 26 g0"
  define g2 where "g2 = h2 + drop_bit 26 g1"
  define g3 where "g3 = h3 + drop_bit 26 g2"
  define e4 where "e4 = h4 + drop_bit 26 g3"
  define mask where "mask = drop_bit 31 (e4 - push_bit 26 1) - 1"
  have g0: "unat g0 = unat h0 + 5" unfolding g0_def using b by (subst unat_add_small) simp_all
  have g1: "unat g1 = unat h1 + unat g0 div 2 ^ 26" unfolding g1_def using b by (intro unat_add_carry) simp_all
  have g2: "unat g2 = unat h2 + unat g1 div 2 ^ 26" unfolding g2_def using b by (intro unat_add_carry) simp_all
  have g3: "unat g3 = unat h3 + unat g2 div 2 ^ 26" unfolding g3_def using b by (intro unat_add_carry) simp_all
  have e4: "unat e4 = unat h4 + unat g3 div 2 ^ 26" unfolding e4_def using b by (intro unat_add_carry) simp_all
  have p: "unat h0 + 5 = unat g0 div 2 ^ 26 * 2 ^ 26 + unat g0 mod 2 ^ 26"
    "unat h1 + unat g0 div 2 ^ 26 = unat g1 div 2 ^ 26 * 2 ^ 26 + unat g1 mod 2 ^ 26"
    "unat h2 + unat g1 div 2 ^ 26 = unat g2 div 2 ^ 26 * 2 ^ 26 + unat g2 mod 2 ^ 26"
    "unat h3 + unat g2 div 2 ^ 26 = unat g3 div 2 ^ 26 * 2 ^ 26 + unat g3 mod 2 ^ 26"
    unfolding g0 [symmetric] g1 [symmetric] g2 [symmetric] g3 [symmetric] by (simp_all only: div_mult_mod_eq)
  have v: "unat g0 mod 2 ^ 26 + unat g1 mod 2 ^ 26 * 2 ^ 26 + unat g2 mod 2 ^ 26 * 2 ^ 52 + unat g3 mod 2 ^ 26 * 2 ^ 78 +
      unat e4 * 2 ^ 104 = limbs_nat h + 5"
    unfolding e4 h limbs_nat_def prod.case by (rule finish_reduce_value [OF p])
  have small: "limbs_nat h < 2 ^ 130" by (rule limbs_small_less [OF assms])
  then have e4le: "unat e4 \<le> 2 ^ 26" using v by simp
  have m26: "unat (x AND 0x3ffffff) = unat x mod 2 ^ 26" for x :: u32 by (simp add: unat_mask26)
  have fr: "finish_reduce h = ((h0 AND NOT mask) OR ((g0 AND 0x3ffffff) AND mask), (h1 AND NOT mask) OR ((g1 AND 0x3ffffff) AND mask),
      (h2 AND NOT mask) OR ((g2 AND 0x3ffffff) AND mask), (h3 AND NOT mask) OR ((g3 AND 0x3ffffff) AND mask),
      (h4 AND NOT mask) OR ((e4 - push_bit 26 1) AND mask))"
    unfolding h finish_reduce_def mask_def e4_def g3_def g2_def g1_def g0_def by (simp add: Let_def)
  show "limbs_small (finish_reduce h)" and "limbs_nat (finish_reduce h) = limbs_nat h mod P1305"
  proof (atomize (full), cases "unat e4 = 2 ^ 26")
    case True
    then have "e4 = 67108864" by (simp add: word_unat_eq_iff)
    then have z: "e4 - push_bit 26 1 = 0" by simp
    then have "mask = - 1" by (simp add: mask_def)
    then have fr: "finish_reduce h = (g0 AND 0x3ffffff, g1 AND 0x3ffffff, g2 AND 0x3ffffff, g3 AND 0x3ffffff, 0)"
      unfolding fr z by simp
    have "limbs_nat (finish_reduce h) + 2 ^ 130 = limbs_nat h + 5"
      using v True by (simp add: fr limbs_nat_def m26)
    then have "limbs_nat (finish_reduce h) = limbs_nat h - P1305" "P1305 \<le> limbs_nat h" "limbs_nat h < 2 * P1305"
      using small by (simp_all add: P1305_def)
    then show "limbs_small (finish_reduce h) \<and> limbs_nat (finish_reduce h) = limbs_nat h mod P1305"
      by (simp add: fr limbs_small_def m26 le_mod_geq)
  next
    case False
    then have lt: "unat e4 < 2 ^ 26" using e4le by simp
    have "unat (e4 - push_bit 26 1) = 2 ^ 32 + unat e4 - 2 ^ 26"
      using lt by (simp add: unat_sub_if_size word_size)
    moreover have "(2 ^ 32 + unat e4 - 2 ^ 26) div 2 ^ 31 = 1"
      using lt by (intro div_nat_eqI) simp_all
    ultimately have "unat (drop_bit 31 (e4 - push_bit 26 1)) = 1" by (simp add: unat_drop_bit)
    then have "drop_bit 31 (e4 - push_bit 26 1) = 1" by (simp add: word_unat_eq_iff)
    then have "mask = 0" by (simp add: mask_def)
    then have fr: "finish_reduce h = h" unfolding fr by (simp add: h)
    have "unat g0 mod 2 ^ 26 < 2 ^ 26" "unat g1 mod 2 ^ 26 < 2 ^ 26" "unat g2 mod 2 ^ 26 < 2 ^ 26" "unat g3 mod 2 ^ 26 < 2 ^ 26"
      by simp_all
    then have "limbs_nat h + 5 < 2 ^ 130"
      unfolding v [symmetric] using lt by simp
    then have "limbs_nat h < P1305" by (simp add: P1305_def)
    then show "limbs_small (finish_reduce h) \<and> limbs_nat (finish_reduce h) = limbs_nat h mod P1305"
      using assms by (simp add: fr)
  qed
qed

section \<open>The tag\<close>

definition words_nat :: "u32 list \<Rightarrow> nat" where
  "words_nat ws = le_nat (concat (map store32 ws))"

lemma join_bytes:
  fixes n :: nat
  assumes "n = q1 * 256 + m0" and "q1 = q2 * 256 + m1" and "q2 = q3 * 256 + m2"
  shows "m0 + 256 * (m1 + 256 * (m2 + 256 * q3)) = n"
  using assms by simp

lemma le_nat_store32: "le_nat (store32 v) = unat v"
proof -
  define n where "n = unat v"
  have d: "n div 65536 = n div 256 div 256" "n div 16777216 = n div 256 div 256 div 256"
    by (simp_all add: div_mult2_eq [symmetric])
  have "n div 16777216 < 256" by (rule less_mult_imp_div_less) (simp add: n_def)
  then have top: "n div 256 div 256 div 256 mod 256 = n div 256 div 256 div 256" by (simp only: d mod_less)
  have "n mod 256 + 256 * (n div 256 mod 256 + 256 * (n div 256 div 256 mod 256 + 256 * (n div 256 div 256 div 256))) = n"
    by (rule join_bytes) (simp_all only: div_mult_mod_eq)
  then show ?thesis
    using top by (simp add: store32_def le_nat_Cons unat_ucast_mod unat_drop_bit n_def [symmetric] d)
qed

lemma words_nat_Nil [simp]: "words_nat [] = 0"
  and words_nat_Cons: "words_nat (w # ws) = unat w + 2 ^ 32 * words_nat ws"
  by (simp_all add: words_nat_def le_nat_append le_nat_store32)

lemma le_bytes_le_nat: "le_bytes (length bs) (le_nat bs) = bs"
proof (rule nth_equalityI)
  show "length (le_bytes (length bs) (le_nat bs)) = length bs" by (simp add: le_bytes_def)
  fix i assume "i < length (le_bytes (length bs) (le_nat bs))"
  then have i: "i < length bs" by (simp add: le_bytes_def)
  then have "le_nat bs div 256 ^ i = unat (bs ! i) + 256 * le_nat (drop (Suc i) bs)"
    using le_nat_take_drop(2) [of i bs] by (simp add: Cons_nth_drop_Suc [symmetric] le_nat_Cons)
  then show "le_bytes (length bs) (le_nat bs) ! i = bs ! i"
    using i by (simp add: le_bytes_def word_unat_eq_iff unat_of_nat unat_word_ariths)
qed

lemma pack_value:
  fixes h0 :: nat
  assumes "h1 = b1 * 64 + a1" and "h2 = b2 * 4096 + a2" and "h3 = b3 * 2 ^ 18 + a3" and "h4 = b4 * 2 ^ 24 + a4"
  shows "(h0 + a1 * 2 ^ 26) + 2 ^ 32 * ((b1 + a2 * 2 ^ 20) + 2 ^ 32 * ((b2 + a3 * 2 ^ 14) + 2 ^ 32 * (b3 + a4 * 2 ^ 8))) + b4 * 2 ^ 128 =
    h0 + h1 * 2 ^ 26 + h2 * 2 ^ 52 + h3 * 2 ^ 78 + h4 * 2 ^ 104"
  using assms by simp

lemma unat_pack:
  assumes "unat (a :: u32) < 2 ^ n" and "n \<le> 32"
  shows "unat ((a OR push_bit n b) AND 0xffffffff) = unat a + unat b mod 2 ^ (32 - n) * 2 ^ n"
proof -
  have ones: "(0xffffffff :: u32) = - 1" by simp
  have "unat ((a OR push_bit n b) AND 0xffffffff) = (unat b * 2 ^ n) mod 2 ^ 32 + unat a"
    unfolding ones and.right_neutral
    using unat_join [OF assms(1), of b] assms(2) by (simp add: or.commute)
  moreover have "(unat b * 2 ^ n) mod 2 ^ 32 = unat b mod 2 ^ (32 - n) * 2 ^ n"
    using assms(2) mult_mod_left [of "unat b" "2 ^ (32 - n)" "2 ^ n"] by (simp add: power_add [symmetric])
  ultimately show ?thesis by simp
qed

lemma finish_pack_nat:
  assumes "limbs_small h"
  shows "words_nat (finish_pack h) = limbs_nat h mod 2 ^ 128"
proof -
  obtain h0 h1 h2 h3 h4 where h: "h = (h0, h1, h2, h3, h4)" by (cases h) auto
  have b: "unat h0 < 2 ^ 26" "unat h1 < 2 ^ 26" "unat h2 < 2 ^ 26" "unat h3 < 2 ^ 26" "unat h4 < 2 ^ 26"
    using assms by (simp_all add: h limbs_small_def)
  have d: "unat (drop_bit 6 h1) < 2 ^ 20" "unat (drop_bit 12 h2) < 2 ^ 14" "unat (drop_bit 18 h3) < 2 ^ 8"
    unfolding unat_drop_bit using b by (intro less_mult_imp_div_less; simp)+
  have "words_nat (finish_pack h) + unat h4 div 2 ^ 24 * 2 ^ 128 = limbs_nat h"
    unfolding h finish_pack_def prod.case words_nat_Cons words_nat_Nil limbs_nat_def
      unat_pack [OF b(1), simplified] unat_pack [OF d(1), simplified] unat_pack [OF d(2), simplified] unat_pack [OF d(3), simplified]
      unat_drop_bit
    using pack_value [of "unat h1" "unat h1 div 64" "unat h1 mod 64" "unat h2" "unat h2 div 4096" "unat h2 mod 4096"
        "unat h3" "unat h3 div 2 ^ 18" "unat h3 mod 2 ^ 18" "unat h4" "unat h4 div 2 ^ 24" "unat h4 mod 2 ^ 24" "unat h0"]
    by simp
  moreover have "words_nat (finish_pack h) < 2 ^ 128"
    using le_nat_less [of "concat (map store32 (finish_pack h))"]
    by (simp add: words_nat_def h finish_pack_def)
  ultimately show ?thesis by (metis mod_less mod_mult_self1)
qed

lemma add_value:
  fixes a0 :: nat
  assumes "a0 + b0 = q0 * 2 ^ 32 + m0" and "a1 + b1 + q0 = q1 * 2 ^ 32 + m1"
    and "a2 + b2 + q1 = q2 * 2 ^ 32 + m2" and "a3 + b3 + q2 = q3 * 2 ^ 32 + m3"
  shows "m0 + 2 ^ 32 * (m1 + 2 ^ 32 * (m2 + 2 ^ 32 * m3)) + q3 * 2 ^ 128 =
    (a0 + 2 ^ 32 * (a1 + 2 ^ 32 * (a2 + 2 ^ 32 * a3))) + (b0 + 2 ^ 32 * (b1 + 2 ^ 32 * (b2 + 2 ^ 32 * b3)))"
  using assms by simp

lemma unat_add3:
  assumes "unat (f :: u64) < 2 ^ 34"
  shows "unat (ucast (a :: u32) + ucast (b :: u32) + drop_bit 32 f :: u64) = unat a + unat b + unat f div 2 ^ 32"
    and "unat (ucast (a :: u32) + ucast (b :: u32) + drop_bit 32 f :: u64) < 2 ^ 34"
proof -
  have f: "unat f div 2 ^ 32 < 4" by (rule less_mult_imp_div_less) (use assms in simp)
  have "unat a + unat b < 8589934592" using unat_u32_less [of a] unat_u32_less [of b] by linarith
  then have ab: "unat a + unat b < 2 ^ 33" by simp
  then have "unat (ucast a + ucast b :: u64) = unat a + unat b" by (subst unat_add_small) simp_all
  then show "unat (ucast a + ucast b + drop_bit 32 f :: u64) = unat a + unat b + unat f div 2 ^ 32"
    using f ab by (subst unat_add_small) (simp_all add: unat_drop_bit)
  then show "unat (ucast a + ucast b + drop_bit 32 f :: u64) < 2 ^ 34" using f ab by simp
qed

lemma finish_add_nat:
  assumes "length h = 4" and "length pad = 4"
  shows "words_nat (finish_add h pad) = (words_nat h + words_nat pad) mod 2 ^ 128"
proof -
  obtain a0 a1 a2 a3 where h: "h = [a0, a1, a2, a3]" using assms(1) by (auto simp: numeral_eq_Suc length_Suc_conv)
  obtain b0 b1 b2 b3 where pad: "pad = [b0, b1, b2, b3]" using assms(2) by (auto simp: numeral_eq_Suc length_Suc_conv)
  define f0 where "f0 = (ucast a0 + ucast b0 + drop_bit 32 0 :: u64)"
  define f1 where "f1 = (ucast a1 + ucast b1 + drop_bit 32 f0 :: u64)"
  define f2 where "f2 = (ucast a2 + ucast b2 + drop_bit 32 f1 :: u64)"
  define f3 where "f3 = (ucast a3 + ucast b3 + drop_bit 32 f2 :: u64)"
  have f0: "unat f0 = unat a0 + unat b0" "unat f0 < 2 ^ 34"
    using unat_add3 [of 0 a0 b0] unfolding f0_def by simp_all
  have f1: "unat f1 = unat a1 + unat b1 + unat f0 div 2 ^ 32" "unat f1 < 2 ^ 34"
    using unat_add3 [OF f0(2)] unfolding f1_def by simp_all
  have f2: "unat f2 = unat a2 + unat b2 + unat f1 div 2 ^ 32" "unat f2 < 2 ^ 34"
    using unat_add3 [OF f1(2)] unfolding f2_def by simp_all
  have f3: "unat f3 = unat a3 + unat b3 + unat f2 div 2 ^ 32"
    using unat_add3 [OF f2(2)] unfolding f3_def by simp
  have fa: "finish_add h pad = [ucast f0, ucast f1, ucast f2, ucast f3]"
    unfolding finish_add_def h pad f3_def f2_def f1_def f0_def by (simp add: Let_def)
  have p: "unat a0 + unat b0 = unat f0 div 2 ^ 32 * 2 ^ 32 + unat f0 mod 2 ^ 32"
    "unat a1 + unat b1 + unat f0 div 2 ^ 32 = unat f1 div 2 ^ 32 * 2 ^ 32 + unat f1 mod 2 ^ 32"
    "unat a2 + unat b2 + unat f1 div 2 ^ 32 = unat f2 div 2 ^ 32 * 2 ^ 32 + unat f2 mod 2 ^ 32"
    "unat a3 + unat b3 + unat f2 div 2 ^ 32 = unat f3 div 2 ^ 32 * 2 ^ 32 + unat f3 mod 2 ^ 32"
    unfolding f0(1) [symmetric] f1(1) [symmetric] f2(1) [symmetric] f3 [symmetric] by (simp_all only: div_mult_mod_eq)
  have "words_nat (finish_add h pad) + unat f3 div 2 ^ 32 * 2 ^ 128 = words_nat h + words_nat pad"
    unfolding fa using add_value [OF p] by (simp add: words_nat_Cons h pad unat_ucast_mod)
  moreover have "words_nat (finish_add h pad) < 2 ^ 128"
    using le_nat_less [of "concat (map store32 (finish_add h pad))"] by (simp add: words_nat_def fa)
  ultimately show ?thesis by (metis mod_less mod_mult_self1)
qed

lemma finish_tag:
  assumes "limbs_ok h" and "length pad = 4"
  shows "concat (map store32 (finish_add (finish_pack (finish_reduce (finish_carry h))) pad)) =
    le_bytes 16 ((limbs_nat h mod P1305 + words_nat pad) mod 2 ^ 128)"
proof -
  let ?ws = "finish_add (finish_pack (finish_reduce (finish_carry h))) pad"
  note c = finish_carry_nat [OF assms(1)]
  note r = finish_reduce_nat [OF c(1)]
  have l: "length (finish_pack g) = 4" for g by (cases g) (simp add: finish_pack_def)
  have "words_nat ?ws = (words_nat (finish_pack (finish_reduce (finish_carry h))) + words_nat pad) mod 2 ^ 128"
    by (rule finish_add_nat [OF l assms(2)])
  also have "\<dots> = (limbs_nat h mod P1305 + words_nat pad) mod 2 ^ 128"
    unfolding finish_pack_nat [OF r(1)] r(2) c(2) by (rule mod_add_left_eq)
  finally have "le_nat (concat (map store32 ?ws)) = (limbs_nat h mod P1305 + words_nat pad) mod 2 ^ 128"
    unfolding words_nat_def .
  moreover have "length (concat (map store32 ?ws)) = 16"
    by (simp add: finish_add_def Let_def)
  ultimately show ?thesis using le_bytes_le_nat [of "concat (map store32 ?ws)"] by simp
qed

section \<open>The key\<close>

lemma and_limb: "((n :: nat) AND m) div 2 ^ a mod 2 ^ k = (n div 2 ^ a mod 2 ^ k) AND (m div 2 ^ a mod 2 ^ k)"
  by (simp add: take_bit_eq_mod [symmetric] drop_bit_eq_div [symmetric])

lemma and_top: "((n :: nat) AND m) div 2 ^ a = (n div 2 ^ a) AND (m div 2 ^ a)"
  by (simp add: drop_bit_eq_div [symmetric])

lemma unat_and: "unat ((a :: 'a::len word) AND b) = unat a AND unat b"
  by (rule unsigned_and_eq)

lemma mask_in: "(x :: u32) AND 0x3ffff03 = (x AND 0x3ffffff) AND 0x3ffff03"
  "(x :: u32) AND 0x3ffc0ff = (x AND 0x3ffffff) AND 0x3ffc0ff"
  "(x :: u32) AND 0x3f03fff = (x AND 0x3ffffff) AND 0x3f03fff"
  by (simp_all add: and.assoc)

lemma all_less_5: "(\<forall>i < 5. P i) \<longleftrightarrow> P 0 \<and> P 1 \<and> P 2 \<and> P 3 \<and> P (4 :: nat)"
  by (auto simp: less_Suc_eq numeral_eq_Suc)

lemma init_r:
  assumes "16 \<le> length key" and "r = p_r (poly1305_init p key)"
  shows "r_ok r" and "r_nat r = clamp_r key"
proof -
  define N where "N = le_nat (take 16 key)"
  note ml = message_limbs [OF assms(1) N_def]
  define M where "M = (0x0ffffffc0ffffffc0ffffffc0fffffff :: nat)"
  have M: "M div 2 ^ 0 mod 2 ^ 26 = 0x3ffffff" "M div 2 ^ 26 mod 2 ^ 26 = 0x3ffff03" "M div 2 ^ 52 mod 2 ^ 26 = 0x3ffc0ff"
    "M div 2 ^ 78 mod 2 ^ 26 = 0x3f03fff" "M div 2 ^ 104 = 0xfffff"
    by (simp_all add: M_def)
  have full: "n mod 2 ^ 26 AND 0x3ffffff = n mod 2 ^ 26" for n :: nat
    using take_bit_eq_mask [of 26 "n mod 2 ^ 26"] by (simp add: take_bit_eq_mod mask_numeral)
  have rl: "r ! 0 = load32 key AND 0x3ffffff"
    "r ! 1 = (drop_bit 2 (load32 (drop 3 key)) AND 0x3ffffff) AND 0x3ffff03"
    "r ! 2 = (drop_bit 4 (load32 (drop 6 key)) AND 0x3ffffff) AND 0x3ffc0ff"
    "r ! 3 = (drop_bit 6 (load32 (drop 9 key)) AND 0x3ffffff) AND 0x3f03fff"
    "r ! 4 = drop_bit 8 (load32 (drop 12 key)) AND 0xfffff"
    unfolding mask_in [symmetric] by (simp_all add: assms(2) poly1305_init_def numeral_nat)
  have k: "unat (0x3ffff03 :: u32) = 0x3ffff03" "unat (0x3ffc0ff :: u32) = 0x3ffc0ff" "unat (0x3f03fff :: u32) = 0x3f03fff"
    "unat (0xfffff :: u32) = 0xfffff"
    by simp_all
  have l: "unat (r ! 0) = (N AND M) div 2 ^ 0 mod 2 ^ 26" "unat (r ! 1) = (N AND M) div 2 ^ 26 mod 2 ^ 26"
    "unat (r ! 2) = (N AND M) div 2 ^ 52 mod 2 ^ 26" "unat (r ! 3) = (N AND M) div 2 ^ 78 mod 2 ^ 26"
    "unat (r ! 4) = (N AND M) div 2 ^ 104"
    unfolding rl ml(1) unat_and [of "_ AND _"] unat_and [of "drop_bit 8 _"] ml(2-5) k
    by (simp_all only: and_limb M and_top [of N M 104] power_0 div_by_1 full [of N])
      (simp only: and_limb [of N M 0 26, unfolded power_0 div_by_1] M(1) [unfolded power_0 div_by_1] full)
  have "r ! 4 \<le> 0xfffff" unfolding rl by (simp add: word_and_le1 word_and_le2)
  then have "unat (r ! 4) < 2 ^ 26" by (simp add: word_le_nat_alt)
  moreover have "unat (r ! 0) < 2 ^ 26" "unat (r ! 1) < 2 ^ 26" "unat (r ! 2) < 2 ^ 26" "unat (r ! 3) < 2 ^ 26"
    unfolding l by simp_all
  moreover have "length r = 5" by (simp add: assms(2) poly1305_init_def)
  ultimately show "r_ok r" unfolding r_ok_def all_less_5 by (intro conjI)
  show "r_nat r = clamp_r key"
    unfolding r_nat_def limbs_nat_def prod.case l power_0 div_by_1 clamp_r_def N_def [symmetric] M_def [symmetric]
    by (rule join_limbs)
qed

section \<open>The state stands for the bytes absorbed\<close>

abbreviation h_limbs :: "poly1305 \<Rightarrow> limbs" where
  "h_limbs p \<equiv> (p_h p ! 0, p_h p ! 1, p_h p ! 2, p_h p ! 3, p_h p ! 4)"

abbreviation whole_of :: "bytes \<Rightarrow> nat" where
  "whole_of m \<equiv> length m - length m mod 16"

definition poly_holds :: "poly1305 \<Rightarrow> bytes \<Rightarrow> bytes \<Rightarrow> bool" where
  "poly_holds p key m \<longleftrightarrow>
     r_ok (p_r p) \<and> r_nat (p_r p) = clamp_r key \<and>
     length (p_pad p) = 4 \<and> words_nat (p_pad p) = le_nat (take 16 (drop 16 key)) \<and>
     limbs_ok (h_limbs p) \<and> limbs_nat (h_limbs p) mod P1305 = poly_acc (clamp_r key) 0 (take (whole_of m) m) \<and>
     length (p_block p) = 16 \<and> p_fill p = length m mod 16 \<and> take (p_fill p) (p_block p) = drop (whole_of m) m"

lemma whole_dvd: "16 dvd whole_of m"
  by (simp add: dvd_minus_mod)

lemma blocks_fields [simp]:
  "p_r (blocks p m n hb) = p_r p" "p_pad (blocks p m n hb) = p_pad p"
  "p_block (blocks p m n hb) = p_block p" "p_fill (blocks p m n hb) = p_fill p"
  by (simp_all add: blocks_def Let_def split: prod.splits)

lemma blocks_limbs: "h_limbs (blocks p m n hb) = blocks_loop (p_r p) hb (h_limbs p) m n"
  by (simp add: blocks_def Let_def numeral_nat split: prod.splits)

lemma take_chunks: "take 16 x = take 4 x @ take 4 (drop 4 x) @ take 4 (drop 8 x) @ take 4 (drop 12 x)"
  using take_add [of 4 12 x] take_add [of 4 8 "drop 4 x"] take_add [of 4 4 "drop 8 x"] by simp

lemma poly1305_init_holds:
  assumes "32 \<le> length key" and "length (p_block p) = 16"
  shows "poly_holds (poly1305_init p key) key []"
proof -
  have "16 \<le> length key" using assms by simp
  note r = init_r [OF this refl, of p]
  have w: "unat (load32 (drop (16 + 4 * i) key)) = le_nat (take 4 (drop (16 + 4 * i) key))" if "i < 4" for i
    using that assms(1) by (intro unat_load32) simp
  have "words_nat (p_pad (poly1305_init p key)) = le_nat (concat (map (\<lambda>i. take 4 (drop (16 + 4 * i) key)) [0..<4]))"
    using w [of 0] w [of 1] w [of 2] w [of 3] assms(1)
    by (simp add: poly1305_init_def words_nat_Cons upt_conv_Cons le_nat_append min_absorb2)
  also have "concat (map (\<lambda>i. take 4 (drop (16 + 4 * i) key)) [0..<4]) = take 16 (drop 16 key)"
    using take_chunks [of "drop 16 key"] by (simp add: upt_conv_Cons)
  finally show ?thesis
    using r assms(2)
    by (simp add: poly_holds_def limbs_ok_def limbs_nat_def) (simp add: poly1305_init_def)
qed

lemma fill_block_put:
  "p_fill p \<le> 16 \<Longrightarrow> length (p_block p) = 16 \<Longrightarrow> k = min (16 - p_fill p) (length inp) \<Longrightarrow>
   fill_block p inp = (p\<lparr>p_block := mem_put (p_block p) (p_fill p) (take k inp), p_fill := p_fill p + k\<rparr>, drop k inp)"
proof (induction p inp arbitrary: k rule: fill_block.induct)
  case (1 p)
  then show ?case by (simp add: mem_put_def)
next
  case (2 p b inp)
  show ?case
  proof (cases "p_fill p < 16")
    case True
    let ?q = "p\<lparr>p_block := (p_block p)[p_fill p := b], p_fill := p_fill p + 1\<rparr>"
    define j where "j = min (16 - p_fill ?q) (length inp)"
    have k: "k = Suc j" using True 2(4) by (simp add: j_def)
    have "p_fill p + length [b] + length (take j inp) \<le> length (p_block p)" using True 2(3) by (simp add: j_def)
    then have "mem_put ((p_block p)[p_fill p := b]) (p_fill p + 1) (take j inp) = mem_put (p_block p) (p_fill p) (b # take j inp)"
      using mem_put_join [of "p_fill p" "[b]" "take j inp" "p_block p"] True 2(3) by (simp add: mem_put_one)
    moreover have "fill_block ?q inp =
        (?q\<lparr>p_block := mem_put (p_block ?q) (p_fill ?q) (take j inp), p_fill := p_fill ?q + j\<rparr>, drop j inp)"
      by (rule 2(1) [OF True _ _ j_def]) (use True 2(3) in simp_all)
    ultimately show ?thesis using True by (simp add: k)
  next
    case False
    then have "p_fill p = 16" "k = 0" using 2(2,4) by simp_all
    then show ?thesis using 2(3) by (simp add: mem_put_def)
  qed
qed

lemma blocks_absorb:
  assumes "poly_holds p key m" and "p_fill p = 0" and "16 dvd n" and "n \<le> length a"
  shows "poly_holds (blocks p a n (push_bit 24 1)) key (m @ take n a)"
proof -
  have m: "length m mod 16 = 0" using assms(1,2) by (simp add: poly_holds_def)
  have ta: "length (take n a) mod 16 = 0" using assms(3,4) by (simp add: min_absorb2)
  then have t: "length (m @ take n a) mod 16 = 0" using m by (metis mod_add_eq length_append add_0 mod_0)
  note loop = blocks_loop_acc [of "p_r p" "h_limbs p" n a, OF _ _ assms(3,4) refl refl]
  have "poly_acc (clamp_r key) 0 (m @ take n a) = poly_acc (clamp_r key) (poly_acc (clamp_r key) 0 m) (take n a)"
    using m by (intro poly_acc_append) (simp add: dvd_eq_mod_eq_0)
  then show ?thesis
    using assms(1,2,4) m t loop by (simp only: poly_holds_def blocks_fields blocks_limbs) (simp add: min_absorb2)
qed

lemma absorb_tail:
  assumes "poly_holds p key m" and "p_fill p = 0" and "length a < 16"
  shows "poly_holds (fst (fill_block p a)) key (m @ a)"
proof -
  have m: "length m mod 16 = 0" and b: "length (p_block p) = 16" using assms(1,2) by (simp_all add: poly_holds_def)
  have fb: "fst (fill_block p a) = p\<lparr>p_block := mem_put (p_block p) 0 a, p_fill := length a\<rparr>"
    using fill_block_put [of p "length a" a] assms(2,3) b by simp
  have t: "length (m @ a) mod 16 = length a"
    using m assms(3) by (metis add_0 length_append mod_add_left_eq mod_less)
  show ?thesis
    unfolding fb using assms(1,2,3) m b t
    by (simp add: poly_holds_def mem_put_def min_absorb2)
qed

lemma absorb_fill:
  assumes "poly_holds p key m" and "p_fill p > 0" and "fill_block p a = (q, rest)"
    and "length a = k + length rest" and "k = min (16 - p_fill p) (length a)"
  shows "if p_fill q = 16 then poly_holds ((blocks q (p_block q) 16 (push_bit 24 1))\<lparr>p_fill := 0\<rparr>) key (m @ take k a)
    else poly_holds q key (m @ a) \<and> rest = []"
proof -
  define f where "f = p_fill p"
  have f: "f = length m mod 16" "f < 16" "length (p_block p) = 16" "take f (p_block p) = drop (whole_of m) m"
    using assms(1) by (auto simp: poly_holds_def f_def)
  have fb: "q = p\<lparr>p_block := mem_put (p_block p) f (take k a), p_fill := f + k\<rparr>" "rest = drop k a"
    using fill_block_put [of p k a] assms(3,5) f by (simp_all add: f_def)
  have k: "f + k \<le> 16" "k \<le> length a" using assms(5) f by (simp_all add: f_def)
  have blk: "take (f + k) (mem_put (p_block p) f (take k a)) = drop (whole_of m) m @ take k a"
    using mem_put_append(3) [of f "take k a" "p_block p"] k f by (simp add: min_absorb2)
  have lm: "whole_of (m @ take k a) = (if f + k = 16 then length (m @ take k a) else whole_of m)"
    "length (m @ take k a) mod 16 = (if f + k = 16 then 0 else f + k)"
  proof -
    have "length (m @ take k a) = whole_of m + (f + k)" using f(1) k(2) by (simp add: min_absorb2)
    moreover have "whole_of m mod 16 = 0" using whole_dvd [of m] by (simp add: dvd_eq_mod_eq_0)
    ultimately show "length (m @ take k a) mod 16 = (if f + k = 16 then 0 else f + k)"
      using k(1) by (metis add_0 le_neq_implies_less mod_add_left_eq mod_less mod_self)
    then show "whole_of (m @ take k a) = (if f + k = 16 then length (m @ take k a) else whole_of m)"
      using \<open>length (m @ take k a) = whole_of m + (f + k)\<close> by simp
  qed
  show ?thesis
  proof (cases "f + k = 16")
    case True
    let ?q = "p\<lparr>p_block := mem_put (p_block p) f (take k a), p_fill := 0\<rparr>"
    define w where "w = whole_of m"
    have w: "length (take w m) = w" "w mod 16 = 0"
      using whole_dvd [of m] by (simp_all add: w_def min_absorb2 dvd_eq_mod_eq_0)
    have "length (mem_put (p_block p) f (take k a)) = 16" using k f by (simp add: min_absorb2)
    then have hq: "poly_holds ?q key (take (whole_of m) m)"
      using assms(1) unfolding poly_holds_def w_def [symmetric] w by (simp add: w)
    have "poly_holds (blocks ?q (p_block ?q) 16 (push_bit 24 1)) key (take (whole_of m) m @ take 16 (p_block ?q))"
      using blocks_absorb [OF hq, of 16 "p_block ?q"] f k by (simp add: mem_put_append min_absorb2)
    moreover have "take (whole_of m) m @ take 16 (p_block ?q) = m @ take k a"
      using blk True by simp
    moreover have "(blocks q (p_block q) 16 (push_bit 24 1))\<lparr>p_fill := 0\<rparr> = blocks ?q (p_block ?q) 16 (push_bit 24 1)"
      unfolding fb(1) by (simp add: blocks_def Let_def split: prod.splits)
    ultimately show ?thesis using True by (simp add: fb(1))
  next
    case False
    then have "k = length a" using assms(5) f by (simp add: f_def min_def split: if_splits)
    moreover from this have "rest = []" using fb by simp
    ultimately show ?thesis
      using assms(1) False f k blk lm unfolding poly_holds_def fb(1)
      by (simp add: mem_put_append min_absorb2)
  qed
qed

lemma update_aligned:
  assumes "poly_holds p key m" and "p_fill p = 0" and "whole = whole_of a"
    and "(q, rest) = (if whole > 0 then (whole_blocks p a whole, drop whole a) else (p, a))"
  shows "p_fill q + length rest < 16 \<and> poly_holds (fst (fill_block q rest)) key (m @ a)"
proof -
  have q: "q = (if whole > 0 then blocks p a whole (push_bit 24 1) else p)" "rest = drop whole a"
    using assms(4) by (auto simp: whole_blocks_def split: if_splits)
  have w: "16 dvd whole" "whole \<le> length a" using assms(3) whole_dvd [of a] by simp_all
  have "poly_holds q key (m @ take whole a)"
    unfolding q using blocks_absorb [OF assms(1,2) w] assms(1) by simp
  moreover have "p_fill q = 0" using q assms(2) by simp
  moreover have "length rest < 16" using q(2) assms(3) by simp
  ultimately show ?thesis
    using absorb_tail [of q key "m @ take whole a" rest] q(2) by simp
qed

lemma poly1305_update_holds:
  assumes "poly_holds p key m"
  shows "\<exists>q. poly1305_update p a = Some q \<and> poly_holds q key (m @ a)"
proof -
  have aligned: "\<exists>q'. update_whole q b = Some q' \<and> poly_holds q' key (n @ b)" if "poly_holds q key n" "p_fill q = 0" for q n b
  proof -
    obtain q1 rest where e: "(q1, rest) = (if whole_of b > 0 then (whole_blocks q b (whole_of b), drop (whole_of b) b) else (q, b))"
      by (metis surj_pair)
    show ?thesis
      using update_aligned [OF that refl e] by (simp only: update_whole_def Let_def e [symmetric] prod.case) simp
  qed
  show ?thesis
  proof (cases "p_fill p > 0")
    case False
    then show ?thesis using aligned [OF assms, of a] by (simp add: poly1305_update_def)
  next
    case True
    obtain q rest where fb: "fill_block p a = (q, rest)" by fastforce
    define k where "k = min (16 - p_fill p) (length a)"
    have b: "p_fill p \<le> 16" "length (p_block p) = 16" using assms by (auto simp: poly_holds_def)
    have rest: "rest = drop k a" "k \<le> length a" using fill_block_put [OF b k_def] fb by (simp_all add: k_def)
    note af = absorb_fill [OF assms True fb _ k_def]
    show ?thesis
    proof (cases "p_fill q = 16")
      case True
      let ?q = "(blocks q (p_block q) 16 (push_bit 24 1))\<lparr>p_fill := 0\<rparr>"
      have upd: "poly1305_update p a = update_whole ?q rest"
        using \<open>p_fill p > 0\<close> True fb by (simp add: poly1305_update_def)
      have "poly_holds ?q key (m @ take k a)" using True af rest by simp
      from aligned [OF this, of rest] show ?thesis unfolding upd using rest by simp
    next
      case False
      then have q: "poly_holds q key (m @ a)" "rest = []" using af rest by simp_all
      then have "p_fill q < 16" by (simp add: poly_holds_def)
      moreover have "poly1305_update p a = update_whole q []"
        using \<open>p_fill p > 0\<close> False fb q(2) by (simp add: poly1305_update_def)
      ultimately show ?thesis using q(1) by (simp add: update_whole_def)
    qed
  qed
qed

lemma poly1305_final_holds:
  assumes "poly_holds p key m"
  shows "poly1305_final p = Some (poly1305_spec key m, poly1305_wiped)"
proof -
  let ?r = "clamp_r key" and ?w = "whole_of m"
  define q where "q = (if p_fill p > 0
       then let blk = take (p_fill p) (p_block p) @ 1 # replicate (15 - p_fill p) 0
            in blocks (p\<lparr>p_block := blk, p_fill := 16\<rparr>) blk 16 0 else p)"
  have fill: "p_fill p = length m mod 16" "p_fill p < 16" "take (p_fill p) (p_block p) = drop ?w m"
    and pad: "length (p_pad p) = 4" "words_nat (p_pad p) = le_nat (take 16 (drop 16 key))"
    and r: "r_ok (p_r p)" "r_nat (p_r p) = ?r"
    and h: "limbs_ok (h_limbs p)" "limbs_nat (h_limbs p) mod P1305 = poly_acc ?r 0 (take ?w m)"
    using assms by (auto simp: poly_holds_def)
  have acc: "poly_acc ?r 0 m = poly_acc ?r (poly_acc ?r 0 (take ?w m)) (drop ?w m)"
    using poly_acc_append [of "take ?w m" ?r 0 "drop ?w m"] whole_dvd [of m] by simp
  have q: "limbs_ok (h_limbs q)" "limbs_nat (h_limbs q) mod P1305 = poly_acc ?r 0 m" "p_pad q = p_pad p"
  proof -
    show "p_pad q = p_pad p" by (simp add: q_def Let_def)
    show "limbs_ok (h_limbs q)" "limbs_nat (h_limbs q) mod P1305 = poly_acc ?r 0 m"
    proof (atomize (full), cases "p_fill p > 0")
      case True
      define blk where "blk = take (p_fill p) (p_block p) @ 1 # replicate (15 - p_fill p) 0"
      define d where "d = drop ?w m"
      have d: "length d = p_fill p" "d \<noteq> []" "length d < 16" using True fill by (auto simp: d_def)
      have bd: "blk = d @ 1 # replicate (15 - p_fill p) 0" using fill(3) by (simp add: blk_def d_def)
      then have lb: "length blk = 16" "le_nat blk = le_nat d + 2 ^ (8 * length d)"
        using d by (simp_all add: le_nat_append le_nat_Cons le_nat_replicate power_mult)
      define g where "g = carry_limbs (mul_limbs (p_r p) (add_block (h_limbs p) blk 0))"
      have hq: "h_limbs q = g"
        using True lb(1) unfolding q_def blk_def [symmetric] Let_def
        by (simp only: if_True blocks_limbs) (simp add: blocks_loop.simps g_def)
      have "limbs_ok g" "limbs_nat g mod P1305 = (limbs_nat (h_limbs p) + le_nat (take 16 blk) + unat (0 :: u32) * 2 ^ 104) * r_nat (p_r p) mod P1305"
        using block_step_nat [OF r(1) h(1) _ disjI1 [OF refl] g_def] lb(1) by simp_all
      moreover have "\<dots> = (poly_acc ?r 0 (take ?w m) + (le_nat d + 2 ^ (8 * length d))) * ?r mod P1305"
        using lb mod_add_mult [of "limbs_nat (h_limbs p)" P1305 "le_nat d + 2 ^ (8 * length d)" ?r] h(2) r(2) by simp
      ultimately have "limbs_ok g \<and> limbs_nat g mod P1305 = poly_acc ?r (poly_acc ?r 0 (take ?w m)) d"
        using d by (simp add: poly_acc_step [OF d(2)] add.assoc)
      then show "limbs_ok (h_limbs q) \<and> limbs_nat (h_limbs q) mod P1305 = poly_acc ?r 0 m"
        unfolding hq acc d_def .
    next
      case False
      then have "drop ?w m = []" and qp: "q = p" using fill by (simp_all add: q_def)
      then have "poly_acc ?r 0 m = poly_acc ?r 0 (take ?w m)" using acc by (simp only: poly_acc_Nil)
      then show "limbs_ok (h_limbs q) \<and> limbs_nat (h_limbs q) mod P1305 = poly_acc ?r 0 m"
        unfolding qp using h by (simp only: simp_thms)
    qed
  qed
  have "poly1305_final p = Some (concat (map store32 (finish_add (finish_pack (finish_reduce (finish_carry (h_limbs q)))) (p_pad q))), poly1305_wiped)"
    unfolding poly1305_final_def q_def [symmetric] using fill(2) by (simp only: Let_def not_less if_False simp_thms)
  also have "concat (map store32 (finish_add (finish_pack (finish_reduce (finish_carry (h_limbs q)))) (p_pad q))) = poly1305_spec key m"
    using finish_tag [OF q(1), of "p_pad q"] q pad by (simp add: poly1305_spec_def)
  finally show ?thesis .
qed

interpretation poly: streaming "\<lambda>(key, p). poly1305_init p key" poly1305_update
  "\<lambda>s (key, p) m. poly_holds s key m" "\<lambda>(key, p). 32 \<le> length key \<and> length (p_block p) = 16" poly1305_final
  "\<lambda>(key, p) m. (poly1305_spec key m, poly1305_wiped)"
  by unfold_locales (auto simp: poly1305_init_holds poly1305_update_holds poly1305_final_holds)

section \<open>Properties\<close>

text \<open>C19: Initialising with a key of 32 bytes (the first 32, when more are at the pointer), absorbing a message in any pieces and finishing gives the tag of RFC 8439
  for the whole message: the blocks summed by Horner's rule with the clamped key half modulo \<open>2^130 - 5\<close>, plus
  the other half modulo \<open>2^128\<close>, little-endian.  No assertion stops on the way, and the state ends wiped.\<close>

theorem poly1305_tag:
  assumes "32 \<le> length key" and "length (p_block p) = 16"
  shows "Option.bind (run_updates poly1305_update (poly1305_init p key) ms) poly1305_final =
    Some (poly1305_spec key (concat ms), poly1305_wiped)"
  using poly.digest [of "(key, p)" ms] assms by simp

theorem poly1305_tag_witness:
  "Option.bind (run_updates poly1305_update (poly1305_init poly1305_wiped (replicate 32 1)) [[1, 2], replicate 20 3]) poly1305_final =
    Some (poly1305_spec (replicate 32 1) ([1, 2] @ replicate 20 3), poly1305_wiped)"
  using poly1305_tag [of "replicate 32 1" poly1305_wiped "[[1, 2], replicate 20 3]"]
  by (simp add: poly1305_wiped_def)

end
