(* ===== verification/Aead.thy ===== *)
theory Aead
  imports Poly1305
begin

text \<open>
  ChaCha20-Poly1305 as \<open>src/aead.c\<close> composes it: the one-time key from keystream block 0, the
  MAC over the padded associated data and ciphertext and their lengths, and the open that
  checks the tag before it decrypts.  \<open>None\<close> at the outside is a stop in an assertion of the
  MAC; the result of an open is then \<open>None\<close> for a tag that does not match, with no
  plaintext, and \<open>Some\<close> plaintext for one that does.
\<close>

section \<open>Model\<close>

text \<open>
  The local \<open>poly1305\<close> has indeterminate contents before \<open>poly1305_init\<close>; they are taken as
  zero, and the tag does not depend on them.
\<close>

definition mac :: "bytes \<Rightarrow> bytes \<Rightarrow> bytes \<Rightarrow> bytes \<Rightarrow> bytes option" where
  "mac key nonce aad ct =
     (let otk = chacha20_block key nonce 0;
          p = poly1305_init poly1305_wiped otk;
          zeros = replicate 16 0;
          len = map (\<lambda>i. of_nat (length aad div 2 ^ (8 * i))) [0..<8] @
                map (\<lambda>i. of_nat (length ct div 2 ^ (8 * i))) [0..<8]
      in do {
           p \<leftarrow> poly1305_update p aad;
           p \<leftarrow> poly1305_update p (take ((16 - length aad mod 16) mod 16) zeros);
           p \<leftarrow> poly1305_update p ct;
           p \<leftarrow> poly1305_update p (take ((16 - length ct mod 16) mod 16) zeros);
           p \<leftarrow> poly1305_update p len;
           (tag, p) \<leftarrow> poly1305_final p;
           Some tag
         })"

definition aead_seal :: "bytes \<Rightarrow> bytes \<Rightarrow> bytes \<Rightarrow> bytes \<Rightarrow> (bytes \<times> bytes) option" where
  "aead_seal key nonce aad pt =
     (let ct = chacha20_xor key nonce 1 pt
      in map_option (\<lambda>tag. (ct, tag)) (mac key nonce aad ct))"

definition tag_matches :: "bytes \<Rightarrow> bytes \<Rightarrow> bytes \<Rightarrow> bytes \<Rightarrow> bytes \<Rightarrow> bool option" where
  "tag_matches key nonce aad ct tag =
     map_option (\<lambda>want. ct_memeq_public want tag 16 \<noteq> 0) (mac key nonce aad ct)"

definition aead_open :: "bytes \<Rightarrow> bytes \<Rightarrow> bytes \<Rightarrow> bytes \<Rightarrow> bytes \<Rightarrow> bytes option option" where
  "aead_open key nonce aad ct tag =
     map_option (\<lambda>ok. if \<not> ok then None else Some (chacha20_xor key nonce 1 ct)) (tag_matches key nonce aad ct tag)"

subsection \<open>Specification\<close>

definition pad16 :: "bytes \<Rightarrow> bytes" where
  "pad16 m = m @ replicate ((16 - length m mod 16) mod 16) 0"

definition aead_tag :: "bytes \<Rightarrow> bytes \<Rightarrow> bytes \<Rightarrow> bytes \<Rightarrow> bytes" where
  "aead_tag key nonce aad ct =
     poly1305_spec (chacha20_block key nonce 0)
       (pad16 aad @ pad16 ct @ le_bytes 8 (length aad) @ le_bytes 8 (length ct))"

section \<open>Authenticated encryption as a contract\<close>

text \<open>What the record layer relies on: sealing returns as many bytes and one tag, and opening accepts that tag alone.\<close>

locale aead =
  fixes seal :: "'k \<Rightarrow> bytes \<Rightarrow> bytes \<Rightarrow> bytes \<Rightarrow> (bytes \<times> bytes) option"
    and open' :: "'k \<Rightarrow> bytes \<Rightarrow> bytes \<Rightarrow> bytes \<Rightarrow> bytes \<Rightarrow> bytes option option"
    and tag_of :: "'k \<Rightarrow> bytes \<Rightarrow> bytes \<Rightarrow> bytes \<Rightarrow> bytes" and crypt :: "'k \<Rightarrow> bytes \<Rightarrow> bytes \<Rightarrow> bytes"
  assumes seal_eq: "seal k nonce aad pt = Some (crypt k nonce pt, tag_of k nonce aad (crypt k nonce pt))"
    and open_eq: "length tag = 16 \<Longrightarrow>
      open' k nonce aad ct tag = Some (if tag = tag_of k nonce aad ct then Some (crypt k nonce ct) else None)"
    and crypt_crypt: "crypt k nonce (crypt k nonce m) = m"
    and crypt_length: "length (crypt k nonce m) = length m"
    and tag_length: "length (tag_of k nonce aad ct) = 16"
begin

lemma open_seal: "seal k nonce aad pt = Some (ct, tag) \<Longrightarrow> open' k nonce aad ct tag = Some (Some pt)"
  by (auto simp: seal_eq open_eq tag_length crypt_crypt)

lemma seal_lengths: "seal k nonce aad pt = Some (ct, tag) \<Longrightarrow> length ct = length pt \<and> length tag = 16"
  by (auto simp: seal_eq crypt_length tag_length)

lemma open_only_sealed:
  assumes "length tag = 16" and "open' k nonce aad ct tag = Some (Some pt)"
  shows "seal k nonce aad pt = Some (ct, tag)"
  using assms by (auto simp: open_eq seal_eq crypt_crypt split: if_splits)

lemma open_length:
  assumes "length tag = 16" and "open' k nonce aad ct tag = Some (Some pt)"
  shows "length pt = length ct"
  using seal_lengths [OF open_only_sealed [OF assms]] by simp

end

section \<open>The construction\<close>

lemma length_le_bytes [simp]: "length (le_bytes k n) = k"
  by (simp add: le_bytes_def)

lemma length_poly1305_spec [simp]: "length (poly1305_spec key m) = 16"
  by (simp add: poly1305_spec_def)

lemma mac_eq: "mac key nonce aad ct = Some (aead_tag key nonce aad ct)"
proof -
  let ?otk = "chacha20_block key nonce 0"
  let ?pads = "\<lambda>m :: bytes. take ((16 - length m mod 16) mod 16) (replicate 16 0 :: bytes)"
  let ?len = "map (\<lambda>i. of_nat (length aad div 2 ^ (8 * i))) [0..<8] @ map (\<lambda>i. of_nat (length ct div 2 ^ (8 * i))) [0..<8]"
  have d: "Option.bind (run_updates poly1305_update (poly1305_init poly1305_wiped ?otk) [aad, ?pads aad, ct, ?pads ct, ?len]) poly1305_final =
      Some (poly1305_spec ?otk (concat [aad, ?pads aad, ct, ?pads ct, ?len]), poly1305_wiped)"
    by (rule poly.digest [of "(?otk, poly1305_wiped)", unfolded prod.case]) (simp add: poly1305_wiped_def)
  have pads: "?pads m = replicate ((16 - length m mod 16) mod 16) 0" for m
    by (simp add: min_absorb2 less_imp_le)
  have len: "?len = le_bytes 8 (length aad) @ le_bytes 8 (length ct)"
    by (simp add: le_bytes_def power_mult)
  have m: "mac key nonce aad ct = map_option fst
      (Option.bind (run_updates poly1305_update (poly1305_init poly1305_wiped ?otk) [aad, ?pads aad, ct, ?pads ct, ?len]) poly1305_final)"
    by (simp add: mac_def Let_def map_option_case case_prod_beta split: Option.bind_split option.splits)
  show ?thesis
    unfolding m d unfolding pads len by (simp add: aead_tag_def pad16_def)
qed

lemma length_aead_tag [simp]: "length (aead_tag key nonce aad ct) = 16"
  by (simp add: aead_tag_def)

interpretation chachapoly: aead aead_seal aead_open aead_tag "\<lambda>key nonce. chacha20_xor key nonce 1"
  by unfold_locales
    (auto simp: aead_seal_def Let_def aead_open_def tag_matches_def mac_eq ct_memeq_public_def ct_memeq_iff)

section \<open>Properties\<close>

text \<open>C20: Sealing is RFC 8439's construction, and opening what was sealed, under the same key, nonce and associated
  data, returns the plaintext.\<close>

theorem aead_roundtrip:
  "aead_seal key nonce aad pt = Some (chacha20_xor key nonce 1 pt, aead_tag key nonce aad (chacha20_xor key nonce 1 pt)) \<and>
   (\<exists>ct tag. aead_seal key nonce aad pt = Some (ct, tag) \<and> aead_open key nonce aad ct tag = Some (Some pt))"
  using chachapoly.seal_eq [of key nonce aad pt] chachapoly.open_seal [of key nonce aad pt] by auto

text \<open>C21: Opening accepts a 16-byte tag only when the ciphertext and tag are what sealing the returned plaintext under the
  same key, nonce and associated data gives; every other tag is refused and yields no plaintext.\<close>

theorem aead_open_authentic:
  assumes "length tag = 16"
  shows "(aead_open key nonce aad ct tag = Some (Some pt) \<longleftrightarrow> aead_seal key nonce aad pt = Some (ct, tag)) \<and>
    (aead_open key nonce aad ct tag = Some None \<longleftrightarrow> tag \<noteq> aead_tag key nonce aad ct)"
  using chachapoly.open_only_sealed [OF assms, of key nonce aad ct pt] chachapoly.open_seal [of key nonce aad pt ct tag]
    chachapoly.open_eq [OF assms, of key nonce aad ct]
  by auto

theorem aead_open_authentic_witness:
  "aead_open [] [] [] [] (replicate 16 0) = Some None \<longleftrightarrow> replicate 16 0 \<noteq> aead_tag [] [] [] []"
  using aead_open_authentic [of "replicate 16 0" "[]" "[]" "[]" "[]" "[]"] by simp

end
