(* ===== verification/Rec_Layer.thy ===== *)
theory Rec_Layer
  imports Keysched Aead
begin

text \<open>
  TLS 1.3 record protection, \<open>src/record.c\<close>, under the one AEAD of the build.  A direction holds a key, an IV
  and a sequence number.  The outer \<open>None\<close> is a stop in an assertion; a call that returns \<open>-1\<close>
  has the inner result \<open>None\<close>, beside the direction as the call leaves it.
\<close>

section \<open>Model\<close>

definition REC_CCS :: u8 where "REC_CCS = 20"
definition REC_ALERT :: u8 where "REC_ALERT = 21"
definition REC_HANDSHAKE :: u8 where "REC_HANDSHAKE = 22"
definition REC_APPDATA :: u8 where "REC_APPDATA = 23"

abbreviation (input) REC_HDR :: nat where "REC_HDR \<equiv> 5"
abbreviation (input) AEAD_TAG :: nat where "AEAD_TAG \<equiv> 16"
abbreviation (input) REC_OVERHEAD :: nat where "REC_OVERHEAD \<equiv> 22"

definition rec_body_max :: "u8 \<Rightarrow> nat" where
  "rec_body_max outer = (if outer = REC_APPDATA then 0x4001 + AEAD_TAG else 0x4000)"

record rec_dir =
  rd_key :: bytes
  rd_iv :: bytes
  rd_seq :: u64

definition rec_dir_init :: "rec_dir \<Rightarrow> bytes \<Rightarrow> rec_dir option" where
  "rec_dir_init d secret =
     do {
       key \<leftarrow> hkdf_expand_label 32 secret (ascii ''key'') [] 32;
       iv \<leftarrow> hkdf_expand_label 32 secret (ascii ''iv'') [] 12;
       Some (d\<lparr>rd_key := key, rd_iv := iv, rd_seq := 0\<rparr>)
     }"

text \<open>The next traffic secret, which replaces the caller's, and the direction keyed from it.\<close>

definition rec_dir_update :: "bytes \<Rightarrow> rec_dir \<Rightarrow> (bytes \<times> rec_dir) option" where
  "rec_dir_update secret d =
     do {
       secret \<leftarrow> hkdf_expand_label 32 secret (ascii ''traffic upd'') [] 32;
       d \<leftarrow> rec_dir_init d secret;
       Some (secret, d)
     }"

definition nonce_of :: "rec_dir \<Rightarrow> bytes" where
  "nonce_of d =
     foldl (\<lambda>nonce i. nonce[12 - 1 - i := nonce ! (12 - 1 - i) XOR ucast (drop_bit (8 * i) (rd_seq d))])
       (map (\<lambda>i. rd_iv d ! i) [0..<12]) [0..<8]"

definition seal_body :: "rec_dir \<Rightarrow> bytes \<Rightarrow> bytes \<Rightarrow> bytes \<Rightarrow> (bytes \<times> bytes) option" where
  "seal_body d nonce hdr body = aead_seal (rd_key d) nonce hdr body"

definition open_body :: "rec_dir \<Rightarrow> bytes \<Rightarrow> bytes \<Rightarrow> nat \<Rightarrow> bytes option option" where
  "open_body d nonce rec len =
     aead_open (rd_key d) nonce (take 5 rec) (take len (drop 5 rec)) (take 16 (drop (5 + len) rec))"

text \<open>\<open>cap\<close> is the room at \<open>out\<close>; the result is what is written there.\<close>

definition rec_seal :: "rec_dir \<Rightarrow> u8 \<Rightarrow> bytes \<Rightarrow> nat \<Rightarrow> (bytes option \<times> rec_dir) option" where
  "rec_seal d type pt cap =
     (if rd_seq d = - 1 then Some (None, d)
      else
        let body = length pt + 1 + AEAD_TAG
        in if body > 0x4000 + 256 \<or> REC_HDR + body > cap then Some (None, d)
           else
             let hdr = [REC_APPDATA, 0x03, 0x03, of_nat (body div 2 ^ 8), of_nat body];
                 inner = pt @ [type];
                 nonce = nonce_of d
             in do {
                  (ct, tag) \<leftarrow> seal_body d nonce hdr inner;
                  Some (Some (hdr @ ct @ tag), d\<lparr>rd_seq := rd_seq d + 1\<rparr>)
                })"

text \<open>The loop that strips the zero padding off the first \<open>n\<close> bytes.\<close>

primrec strip_len :: "bytes \<Rightarrow> nat \<Rightarrow> nat" where
  "strip_len pt 0 = 0"
| "strip_len pt (Suc n) = (if pt ! n = 0 then strip_len pt n else Suc n)"

text \<open>The result is the content and its type.\<close>

definition rec_open :: "rec_dir \<Rightarrow> bytes \<Rightarrow> nat \<Rightarrow> ((bytes \<times> u8) option \<times> rec_dir) option" where
  "rec_open d rec cap =
     (let n = length rec
      in if rd_seq d = - 1 then Some (None, d)
         else if n < REC_HDR + 1 + AEAD_TAG then Some (None, d)
         else
           let body = unat (rec ! 3) * 2 ^ 8 + unat (rec ! 4)
           in if rec ! 0 \<noteq> REC_APPDATA \<or> body \<noteq> n - REC_HDR \<or> body > 0x4000 + 256 then Some (None, d)
              else
                let inner_len = body - AEAD_TAG
                in if inner_len > 0x4001 \<or> inner_len > cap then Some (None, d)
                   else do {
                     opened \<leftarrow> open_body d (nonce_of d) rec inner_len;
                     case opened of
                       None \<Rightarrow> Some (None, d)
                     | Some pt \<Rightarrow>
                         let d = d\<lparr>rd_seq := rd_seq d + 1\<rparr>;
                             inner_len = strip_len pt inner_len
                         in if inner_len = 0 then Some (None, d)
                            else Some (Some (take (inner_len - 1) pt, pt ! (inner_len - 1)), d)
                   })"

section \<open>Nonces\<close>

lemma nonce_of_nth:
  "i < 12 \<Longrightarrow> nonce_of d ! i = (if 4 \<le> i then rd_iv d ! i XOR ucast (drop_bit (8 * (11 - i)) (rd_seq d)) else rd_iv d ! i)"
proof -
  let ?f = "\<lambda>nonce i. nonce[12 - 1 - i := nonce ! (12 - 1 - i) XOR ucast (drop_bit (8 * i) (rd_seq d))]"
  have "length (foldl ?f v [0..<k]) = length v \<and> (\<forall>i < 12. foldl ?f v [0..<k] ! i =
      (if 12 - k \<le> i then v ! i XOR ucast (drop_bit (8 * (11 - i)) (rd_seq d)) else v ! i))"
    if "length v = 12" "k \<le> 8" for v :: bytes and k
    using that by (induction k) (auto simp: nth_list_update)
  from this [of "map (\<lambda>i. rd_iv d ! i) [0..<12]" 8] show "i < 12 \<Longrightarrow> ?thesis"
    by (simp add: nonce_of_def)
qed

lemma length_nonce_of [simp]: "length (nonce_of d) = 12"
proof -
  have "length (foldl (\<lambda>nonce i. nonce[g i := h nonce i]) v xs) = length v" for v :: bytes and xs :: "nat list" and g h
    by (induction xs arbitrary: v) simp_all
  then show ?thesis by (simp add: nonce_of_def)
qed

lemma byte_bit: "bit (s :: u64) k = bit (ucast (drop_bit (8 * (k div 8)) s) :: u8) (k mod 8)"
proof -
  have "bit (ucast (drop_bit (8 * (k div 8)) s) :: u8) (k mod 8) = bit s (8 * (k div 8) + k mod 8)"
    by (simp add: bit_ucast_iff bit_drop_bit_eq)
  then show ?thesis by simp
qed

lemma xor_left_inject: "a XOR b = a XOR c \<Longrightarrow> b = (c :: 'a::len word)"
  by (drule arg_cong [of _ _ "\<lambda>z. a XOR z"]) (simp add: xor.assoc [symmetric])

lemma nonce_inject:
  assumes "nonce_of d = nonce_of d'" and "rd_iv d = rd_iv d'"
  shows "rd_seq d = rd_seq d'"
proof (rule bit_word_eqI)
  fix k assume k: "k < LENGTH(64)"
  define i where "i = 11 - k div 8"
  have i: "4 \<le> i" "i < 12" "11 - i = k div 8" using k by (simp_all add: i_def)
  have "nonce_of d ! i = nonce_of d' ! i" using assms(1) by simp
  then have "rd_iv d ! i XOR ucast (drop_bit (8 * (k div 8)) (rd_seq d)) = rd_iv d ! i XOR ucast (drop_bit (8 * (k div 8)) (rd_seq d'))"
    using i assms(2) by (simp add: nonce_of_nth)
  then have "(ucast (drop_bit (8 * (k div 8)) (rd_seq d)) :: u8) = ucast (drop_bit (8 * (k div 8)) (rd_seq d'))"
    by (rule xor_left_inject)
  then show "bit (rd_seq d) k \<longleftrightarrow> bit (rd_seq d') k" using byte_bit [of _ k] by metis
qed

section \<open>Sealing and opening\<close>

lemma strip_len_le: "strip_len pt n \<le> n"
  by (induction n) auto

lemma strip_len_zero: "strip_len pt n = 0 \<longleftrightarrow> (\<forall>i < n. pt ! i = 0)"
  by (induction n) (auto simp: less_Suc_eq)

lemma strip_len_content:
  "t \<noteq> 0 \<Longrightarrow> strip_len (pt @ [t] @ replicate k 0) (length pt + 1 + j) = Suc (length pt)" if "j \<le> k"
  using that by (induction j) (simp_all add: nth_append)

lemma strip_len_split:
  assumes "strip_len pt (length pt) = Suc n"
  shows "pt = take n pt @ [pt ! n] @ replicate (length pt - Suc n) 0 \<and> pt ! n \<noteq> 0 \<and> n < length pt"
proof -
  have "\<lbrakk>strip_len pt m = Suc n\<rbrakk> \<Longrightarrow> pt ! n \<noteq> 0 \<and> n < m \<and> (\<forall>i. n < i \<and> i < m \<longrightarrow> pt ! i = 0)" for m
    by (induction m) (auto simp: less_Suc_eq split: if_splits)
  from this [OF assms] have n: "pt ! n \<noteq> 0" "n < length pt" "\<forall>i. n < i \<and> i < length pt \<longrightarrow> pt ! i = 0" by auto
  have "drop (Suc n) pt = replicate (length pt - Suc n) 0"
    by (rule nth_equalityI) (use n in simp_all)
  then show ?thesis using n by (metis append_Cons append_Nil id_take_nth_drop)
qed

abbreviation rec_hdr :: "nat \<Rightarrow> bytes" where
  "rec_hdr body \<equiv> [REC_APPDATA, 3, 3, of_nat (body div 2 ^ 8), of_nat body]"

text \<open>The record that carries an inner plaintext under a direction.\<close>

definition record_of :: "rec_dir \<Rightarrow> bytes \<Rightarrow> bytes" where
  "record_of d inner =
     (let hdr = rec_hdr (length inner + 16); ct = chacha20_xor (rd_key d) (nonce_of d) 1 inner
      in hdr @ ct @ aead_tag (rd_key d) (nonce_of d) hdr ct)"

lemma length_record_of [simp]: "length (record_of d inner) = length inner + 21"
  by (simp add: record_of_def Let_def)

lemma rec_seal_eq:
  "rec_seal d type pt cap =
     Some (if rd_seq d \<noteq> - 1 \<and> length pt + 17 \<le> 0x4100 \<and> length pt + REC_OVERHEAD \<le> cap
       then (Some (record_of d (pt @ [type])), d\<lparr>rd_seq := rd_seq d + 1\<rparr>) else (None, d))"
  by (auto simp: rec_seal_def seal_body_def chachapoly.seal_eq record_of_def Let_def)

lemma body_length: "body < 65536 \<Longrightarrow> unat (of_nat (body div 2 ^ 8) :: u8) * 2 ^ 8 + unat (of_nat body :: u8) = body"
  by (simp add: unat_of_nat)

text \<open>What opening a record gives, once its framing is right: the inner plaintext with its padding taken off.\<close>

definition unpadded :: "bytes \<Rightarrow> (bytes \<times> u8) option" where
  "unpadded inner =
     (let n = strip_len inner (length inner) in if n = 0 then None else Some (take (n - 1) inner, inner ! (n - 1)))"

lemma rec_open_record:
  assumes "rd_seq d \<noteq> - 1" and "0 < length inner" and "length inner \<le> 0x4001" and "length inner \<le> cap"
  shows "rec_open d (record_of d inner) cap = Some (unpadded inner, d\<lparr>rd_seq := rd_seq d + 1\<rparr>)"
proof -
  let ?r = "record_of d inner" and ?b = "length inner + 16"
  have len: "unat (?r ! 3) * 2 ^ 8 + unat (?r ! 4) = ?b"
    using body_length [of ?b] assms(3) by (simp add: record_of_def Let_def)
  have "open_body d (nonce_of d) ?r (length inner) = Some (Some inner)"
    by (simp add: open_body_def record_of_def Let_def chachapoly.open_eq drop_drop [symmetric] add.commute [of 5] del: drop_drop)
  moreover have "?r ! 0 = REC_APPDATA" by (simp add: record_of_def Let_def)
  ultimately show ?thesis
    using assms len by (simp add: rec_open_def Let_def unpadded_def)
qed

text \<open>The checks ahead of the AEAD, and the call past them.\<close>

definition rec_framed :: "rec_dir \<Rightarrow> bytes \<Rightarrow> nat \<Rightarrow> bool" where
  "rec_framed d rec cap \<longleftrightarrow> rd_seq d \<noteq> - 1 \<and> 22 \<le> length rec \<and> rec ! 0 = REC_APPDATA \<and>
     unat (rec ! 3) * 2 ^ 8 + unat (rec ! 4) = length rec - 5 \<and> length rec - 21 \<le> 0x4001 \<and> length rec - 21 \<le> cap"

lemma rec_open_unframed: "\<not> rec_framed d rec cap \<Longrightarrow> rec_open d rec cap = Some (None, d)"
  unfolding rec_framed_def rec_open_def Let_def by (simp, linarith)

lemma rec_open_framed:
  "rec_framed d rec cap \<Longrightarrow> rec_open d rec cap =
     Option.bind (open_body d (nonce_of d) rec (length rec - 21))
       (\<lambda>opened. Some (case opened of None \<Rightarrow> (None, d)
         | Some pt \<Rightarrow> (let n = strip_len pt (length rec - 21)
             in if n = 0 then None else Some (take (n - 1) pt, pt ! (n - 1)), d\<lparr>rd_seq := rd_seq d + 1\<rparr>)))"
  unfolding rec_framed_def rec_open_def Let_def
  by (cases "open_body d (nonce_of d) rec (length rec - 21)") (auto split: option.splits)

lemma rec_parts:
  assumes "22 \<le> length rec"
  shows "rec = take 5 rec @ take (length rec - 21) (drop 5 rec) @ take 16 (drop (5 + (length rec - 21)) rec)"
proof -
  have "take 16 (drop (5 + (length rec - 21)) rec) = drop (length rec - 21) (drop 5 rec)"
    using assms by (simp add: add.commute)
  then show ?thesis by (simp only: append_take_drop_id)
qed

lemma rec_open_sealed:
  assumes "rec_open d rec cap = Some (r, d')" and "d' \<noteq> d"
  shows "\<exists>inner ct tag. aead_seal (rd_key d) (nonce_of d) (take 5 rec) inner = Some (ct, tag) \<and> rec = take 5 rec @ ct @ tag \<and>
    length inner = length rec - 21 \<and> r = unpadded inner \<and> d' = d\<lparr>rd_seq := rd_seq d + 1\<rparr> \<and> rec_framed d rec cap"
proof -
  have fr: "rec_framed d rec cap" using assms rec_open_unframed by force
  define ct where "ct = take (length rec - 21) (drop 5 rec)"
  define tag where "tag = take 16 (drop (5 + (length rec - 21)) rec)"
  have l: "length tag = 16" "length ct = length rec - 21" "rec = take 5 rec @ ct @ tag"
    using fr rec_parts [of rec] by (simp_all add: rec_framed_def ct_def tag_def)
  obtain pt where pt: "aead_open (rd_key d) (nonce_of d) (take 5 rec) ct tag = Some (Some pt)"
      "r = (let n = strip_len pt (length rec - 21) in if n = 0 then None else Some (take (n - 1) pt, pt ! (n - 1)))"
      "d' = d\<lparr>rd_seq := rd_seq d + 1\<rparr>"
    using assms unfolding rec_open_framed [OF fr] open_body_def ct_def [symmetric] tag_def [symmetric]
    by (auto split: Option.bind_splits option.splits)
  have lp: "length pt = length rec - 21" using chachapoly.open_length [OF l(1) pt(1)] l(2) by simp
  then have "r = unpadded pt" using pt(2) by (simp add: unpadded_def)
  then show ?thesis
    using chachapoly.open_only_sealed [OF l(1) pt(1)] l(3) pt(3) lp fr by blast
qed

section \<open>Runs of records\<close>

text \<open>
  A run of seal calls on one direction: for each call that sealed, the nonce it used, the record, and what it carries.
  A run of open calls stops at the first refusal, which is fatal to the connection.
\<close>

fun seal_run :: "rec_dir \<Rightarrow> (u8 \<times> bytes \<times> nat) list \<Rightarrow> ((bytes \<times> bytes \<times> bytes \<times> u8) list \<times> rec_dir) option" where
  "seal_run d [] = Some ([], d)"
| "seal_run d ((type, pt, cap) # calls) =
     (case rec_seal d type pt cap of
        None \<Rightarrow> None
      | Some (None, d') \<Rightarrow> seal_run d' calls
      | Some (Some rec, d') \<Rightarrow> map_option (\<lambda>(l, d''). ((nonce_of d, rec, pt, type) # l, d'')) (seal_run d' calls))"

fun sealed_record :: "bytes \<times> bytes \<times> bytes \<times> u8 \<Rightarrow> bytes" where
  "sealed_record (nonce, rec, pt, type) = rec"

fun sealed_content :: "bytes \<times> bytes \<times> bytes \<times> u8 \<Rightarrow> bytes \<times> u8" where
  "sealed_content (nonce, rec, pt, type) = (pt, type)"

fun open_run :: "rec_dir \<Rightarrow> bytes list \<Rightarrow> nat \<Rightarrow> ((bytes \<times> u8) list \<times> rec_dir) option" where
  "open_run d [] cap = Some ([], d)"
| "open_run d (rec # recs) cap =
     (case rec_open d rec cap of
        Some (Some (pt, type), d') \<Rightarrow> map_option (\<lambda>(l, d''). ((pt, type) # l, d'')) (open_run d' recs cap)
      | _ \<Rightarrow> None)"

text \<open>RFC 8446 5.3: the sequence number as 64 bits, padded on the left to the length of the IV and combined with it by exclusive or.\<close>

definition rfc_nonce :: "bytes \<Rightarrow> nat \<Rightarrow> bytes" where
  "rfc_nonce iv n = map (\<lambda>j. iv ! j XOR (replicate 4 0 @ be_bytes 8 n) ! j) [0..<12]"

text \<open>The record is the header and what the AEAD makes of content and type under the key and this nonce, with the header as associated data.\<close>

definition sealed_as :: "bytes \<Rightarrow> bytes \<times> bytes \<times> bytes \<times> u8 \<Rightarrow> bool" where
  "sealed_as key = (\<lambda>(nonce, rec, pt, type). \<exists>ct tag. aead_seal key nonce (rec_hdr (length pt + 17)) (pt @ [type]) = Some (ct, tag) \<and>
     rec = rec_hdr (length pt + 17) @ ct @ tag)"

text \<open>The calls that seal: content within the record limit and room for the record.\<close>

definition seal_fits :: "u8 \<times> bytes \<times> nat \<Rightarrow> bool" where
  "seal_fits = (\<lambda>(type, pt, cap). length pt + 17 \<le> 0x4100 \<and> length pt + 22 \<le> cap)"

lemma unat_seq_step: "(s :: u64) \<noteq> - 1 \<Longrightarrow> unat (s + 1) = unat s + 1"
proof -
  assume "s \<noteq> - 1"
  then have "unat s \<noteq> unat (- 1 :: u64)" by (simp only: word_unat_eq_iff [symmetric] simp_thms)
  moreover have "unat (- 1 :: u64) = 2 ^ 64 - 1" by (simp add: unsigned_minus_1_eq_mask mask_eq_exp_minus_1)
  moreover have "unat s < 2 ^ 64" using unsigned_less [of s] by simp
  ultimately have "unat s + 1 < 2 ^ 64" by linarith
  then show ?thesis by (simp add: unat_word_ariths)
qed

lemma seal_run_nonces:
  "\<exists>l d'. seal_run d calls = Some (l, d') \<and> unat (rd_seq d') = unat (rd_seq d) + length l \<and>
    d' = d\<lparr>rd_seq := rd_seq d'\<rparr> \<and> distinct (map fst l) \<and>
    (\<forall>x \<in> set l. \<exists>s. fst x = nonce_of (d\<lparr>rd_seq := s\<rparr>) \<and> unat (rd_seq d) \<le> unat s)"
proof (induction calls arbitrary: d)
  case (Cons c calls)
  obtain type pt cap where c: "c = (type, pt, cap)" by (cases c)
  show ?case
  proof (cases "rd_seq d \<noteq> - 1 \<and> length pt + 17 \<le> 0x4100 \<and> length pt + REC_OVERHEAD \<le> cap")
    case True
    let ?d = "d\<lparr>rd_seq := rd_seq d + 1\<rparr>"
    obtain l d' where l: "seal_run ?d calls = Some (l, d')" "unat (rd_seq d') = unat (rd_seq ?d) + length l"
        "d' = ?d\<lparr>rd_seq := rd_seq d'\<rparr>" "distinct (map fst l)"
        "\<forall>x \<in> set l. \<exists>s. fst x = nonce_of (?d\<lparr>rd_seq := s\<rparr>) \<and> unat (rd_seq ?d) \<le> unat s"
      using Cons.IH [of ?d] by blast
    have seq: "unat (rd_seq ?d) = unat (rd_seq d) + 1" using True by (simp add: unat_seq_step)
    have "nonce_of d \<notin> fst ` set l"
    proof
      assume "nonce_of d \<in> fst ` set l"
      then obtain s where s: "nonce_of d = nonce_of (d\<lparr>rd_seq := s\<rparr>)" "unat (rd_seq ?d) \<le> unat s" using l(5) by auto
      then have "rd_seq d = s" using nonce_inject [OF s(1)] by simp
      then show False using s(2) seq by simp
    qed
    moreover have "seal_run d (c # calls) = Some ((nonce_of d, record_of d (pt @ [type]), pt, type) # l, d')"
      using True l(1) by (simp add: c rec_seal_eq)
    moreover have "\<exists>s. fst x = nonce_of (d\<lparr>rd_seq := s\<rparr>) \<and> unat (rd_seq d) \<le> unat s"
      if "x \<in> set ((nonce_of d, record_of d (pt @ [type]), pt, type) # l)" for x
      using that l(5) seq by (fastforce intro: exI [of _ "rd_seq d"])
    moreover have "d' = d\<lparr>rd_seq := rd_seq d'\<rparr>" using l(3) by simp
    ultimately show ?thesis
      using l(2,4) seq
      by (intro exI [of _ "(nonce_of d, record_of d (pt @ [type]), pt, type) # l"] exI [of _ d'] conjI ballI) simp_all
  next
    case False
    then have "rec_seal d type pt cap = Some (None, d)" by (auto simp: rec_seal_eq)
    then show ?thesis using Cons.IH [of d] by (simp add: c)
  qed
qed simp

lemma nonce_of_rfc: "nonce_of d = rfc_nonce (rd_iv d) (unat (rd_seq d))"
proof (rule nth_equalityI)
  fix i assume "i < length (nonce_of d)"
  then have i: "i < 12" by simp
  have "(ucast (drop_bit (8 * (11 - i)) (rd_seq d)) :: u8) = of_nat (unat (rd_seq d) div 256 ^ (11 - i))"
    by (rule word_unat_eq_iff [THEN iffD2]) (simp add: unat_ucast_mod unat_drop_bit unat_of_nat power_mult)
  then show "nonce_of d ! i = rfc_nonce (rd_iv d) (unat (rd_seq d)) ! i"
    using i by (cases "4 \<le> i") (auto simp: nonce_of_nth rfc_nonce_def nth_append be_bytes_def intro!: arg_cong [where f = "\<lambda>k. _ XOR word_of_nat (_ div 256 ^ k)"])
qed (simp add: rfc_nonce_def)

lemma sealed_as_record: "sealed_as (rd_key d) (nonce_of d, record_of d (pt @ [type]), pt, type)"
  by (simp add: sealed_as_def chachapoly.seal_eq record_of_def Let_def add.commute)

lemma last_seq: "rd_seq d = - 1 \<longleftrightarrow> unat (rd_seq d) = 2 ^ 64 - 1"
  by (simp add: word_unat_eq_iff unsigned_minus_1_eq_mask mask_eq_exp_minus_1)

lemma seal_run_sealed:
  "\<exists>l d'. seal_run d calls = Some (l, d') \<and> map fst l = map (\<lambda>i. rfc_nonce (rd_iv d) (unat (rd_seq d) + i)) [0..<length l] \<and>
    list_all (sealed_as (rd_key d)) l \<and>
    map sealed_content l = take (2 ^ 64 - 1 - unat (rd_seq d)) (map (\<lambda>(type, pt, cap). (pt, type)) (filter seal_fits calls))"
proof (induction calls arbitrary: d)
  case (Cons c calls)
  obtain type pt cap where c: "c = (type, pt, cap)" by (cases c)
  show ?case
  proof (cases "rd_seq d \<noteq> - 1 \<and> seal_fits c")
    case True
    let ?d = "d\<lparr>rd_seq := rd_seq d + 1\<rparr>" and ?x = "(nonce_of d, record_of d (pt @ [type]), pt, type)"
    have seq: "unat (rd_seq ?d) = unat (rd_seq d) + 1" using True by (simp add: unat_seq_step)
    obtain l d' where l: "seal_run ?d calls = Some (l, d')"
        "map fst l = map (\<lambda>i. rfc_nonce (rd_iv d) (unat (rd_seq ?d) + i)) [0..<length l]" "list_all (sealed_as (rd_key d)) l"
        "map sealed_content l = take (2 ^ 64 - 1 - unat (rd_seq ?d)) (map (\<lambda>(type, pt, cap). (pt, type)) (filter seal_fits calls))"
      using Cons.IH [of ?d] by auto
    have "seal_run d (c # calls) = Some (?x # l, d')" using True l(1) by (simp add: c rec_seal_eq seal_fits_def)
    moreover have "map fst (?x # l) = map (\<lambda>i. rfc_nonce (rd_iv d) (unat (rd_seq d) + i)) [0..<Suc (length l)]"
      using l(2) unfolding seq map_upt_Suc by (simp add: nonce_of_rfc)
    moreover have "2 ^ 64 - 1 - unat (rd_seq d) = Suc (2 ^ 64 - 1 - unat (rd_seq ?d))"
    proof -
      have "unat (rd_seq d) \<noteq> 18446744073709551615" using True last_seq [of d] by simp
      then have "unat (rd_seq d) < 18446744073709551615" using unat_u64_less [of "rd_seq d"] by linarith
      then show ?thesis unfolding seq by simp
    qed
    ultimately show ?thesis using l(3,4) True sealed_as_record [of d pt type] by (intro exI [of _ "?x # l"] exI [of _ d']) (simp add: c)
  next
    case False
    then have "rec_seal d type pt cap = Some (None, d)" by (auto simp: rec_seal_eq seal_fits_def c)
    then show ?thesis using Cons.IH [of d] False last_seq [of d] by (cases "seal_fits c") (auto simp: c)
  qed
qed simp

lemma unpadded_content: "t \<noteq> 0 \<Longrightarrow> unpadded (pt @ [t] @ replicate k 0) = Some (pt, t)"
  using strip_len_content [of k k t pt] by (simp add: unpadded_def Let_def)

lemma open_sealed_run:
  assumes "seal_run d calls = Some (l, d')" and "list_all (\<lambda>(type, pt, cap). type \<noteq> 0 \<and> length pt \<le> 0x4000) calls"
    and "0x4001 \<le> cap"
  shows "open_run d (map sealed_record l) cap = Some (map sealed_content l, d')"
  using assms
proof (induction d calls arbitrary: l rule: seal_run.induct)
  case (2 d type pt c calls)
  show ?case
  proof (cases "rd_seq d \<noteq> - 1 \<and> length pt + 17 \<le> 0x4100 \<and> length pt + REC_OVERHEAD \<le> c")
    case True
    let ?d = "d\<lparr>rd_seq := rd_seq d + 1\<rparr>"
    have s: "rec_seal d type pt c = Some (Some (record_of d (pt @ [type])), ?d)" using True by (simp add: rec_seal_eq)
    obtain m where m: "seal_run ?d calls = Some (m, d')" "l = (nonce_of d, record_of d (pt @ [type]), pt, type) # m"
      using 2(3) s by auto
    have "rec_open d (record_of d (pt @ [type])) cap = Some (Some (pt, type), ?d)"
      using rec_open_record [of d "pt @ [type]" cap] True 2(4,5) unpadded_content [of type pt 0] by simp
    moreover have "open_run ?d (map sealed_record m) cap = Some (map sealed_content m, d')"
      using 2(4,5) by (intro 2(2) [OF s refl refl m(1)]) simp_all
    ultimately show ?thesis by (simp add: m(2))
  next
    case False
    then have s: "rec_seal d type pt c = Some (None, d)" by (auto simp: rec_seal_eq)
    then show ?thesis using 2(1) [OF s refl refl] 2(3,4,5) by simp
  qed
qed simp

lemma seq_moves: "d\<lparr>rd_seq := rd_seq d + 1\<rparr> \<noteq> d"
proof
  assume "d\<lparr>rd_seq := rd_seq d + 1\<rparr> = d"
  then have "rd_seq (d\<lparr>rd_seq := rd_seq d + 1\<rparr>) = rd_seq d" by simp
  then show False by simp
qed

section \<open>Properties\<close>

text \<open>C2: Whatever calls a writer makes on a direction, with whatever content, type and room, every record it seals under that key uses a
  nonce of its own.  The records sealed are those of the calls whose content and room fit, up to the last sequence number, in order.  The nonce
  logged for a record is the RFC's of the IV and the record's number, counted from the direction's own, and the record is what the AEAD makes of the content, its type and
  the header under the key and that nonce.  The number ends past the records sealed and never wraps, because a direction at its last number refuses.\<close>

theorem rec_seal_nonces:
  "\<exists>sealed d'. seal_run d calls = Some (sealed, d') \<and> distinct (map fst sealed) \<and>
    map fst sealed = map (\<lambda>i. rfc_nonce (rd_iv d) (unat (rd_seq d) + i)) [0..<length sealed] \<and>
    list_all (sealed_as (rd_key d)) sealed \<and>
    map sealed_content sealed = take (2 ^ 64 - 1 - unat (rd_seq d)) (map (\<lambda>(type, pt, cap). (pt, type)) (filter seal_fits calls)) \<and>
    unat (rd_seq d') = unat (rd_seq d) + length sealed \<and> rd_key d' = rd_key d \<and> rd_iv d' = rd_iv d"
proof -
  obtain l d' where l: "seal_run d calls = Some (l, d')" "unat (rd_seq d') = unat (rd_seq d) + length l" "d' = d\<lparr>rd_seq := rd_seq d'\<rparr>"
    "distinct (map fst l)" using seal_run_nonces [of d calls] by blast
  then have "rd_key d' = rd_key d" "rd_iv d' = rd_iv d" by (metis rec_dir.select_convs(1,2) rec_dir.surjective rec_dir.update_convs(3))+
  then show ?thesis using l seal_run_sealed [of d calls] by auto
qed

text \<open>C3: Record streams round trip.  Whatever a writer sealed on a direction, in records of at most \<open>2^14\<close> bytes of content and a non-zero type, a
  reader that starts with the same key, IV and sequence number gets back the same contents and types, in order, from the same records, and
  ends at the same sequence number.\<close>

theorem rec_stream_roundtrip:
  assumes "seal_run d calls = Some (sealed, d')"
    and "list_all (\<lambda>(type, pt, cap). type \<noteq> 0 \<and> length pt \<le> 0x4000) calls" and "0x4001 \<le> cap"
  shows "open_run d (map sealed_record sealed) cap =
    Some (map sealed_content sealed, d')"
  by (rule open_sealed_run [OF assms])

theorem rec_stream_roundtrip_witness:
  "\<exists>rec d'. seal_run \<lparr>rd_key = [], rd_iv = [], rd_seq = 0\<rparr> [(23, [1, 2], 100)] = Some ([(nonce_of \<lparr>rd_key = [], rd_iv = [], rd_seq = 0\<rparr>, rec, [1, 2], 23)], d') \<and>
     open_run \<lparr>rd_key = [], rd_iv = [], rd_seq = 0\<rparr> [rec] 0x4001 = Some ([([1, 2], 23)], d')"
proof -
  let ?d = "\<lparr>rd_key = [], rd_iv = [], rd_seq = 0\<rparr>"
  have "seal_run ?d [(23, [1, 2], 100)] =
      Some ([(nonce_of ?d, record_of ?d [1, 2, 23], [1, 2], 23)], ?d\<lparr>rd_seq := 1\<rparr>)"
    by (simp add: rec_seal_eq)
  from rec_stream_roundtrip [OF this, where cap = "0x4001"] this show ?thesis by auto
qed

text \<open>C4: Opening moves a direction, and delivers content, only for a record that sealing under the direction's key, its current nonce and the
  record's own header produces: the header, then the ciphertext and tag of some inner plaintext of at most \<open>2^14 + 1\<close> bytes.  What it
  delivers is that plaintext without its zero padding and the non-zero type in front of it; a plaintext of zeros alone is refused.\<close>

theorem rec_open_authentic:
  assumes "rec_open d rec cap = Some (r, d')" and "d' \<noteq> d \<or> r \<noteq> None"
  shows "\<exists>inner ct tag. aead_seal (rd_key d) (nonce_of d) (take 5 rec) inner = Some (ct, tag) \<and> rec = take 5 rec @ ct @ tag \<and>
    rec ! 0 = REC_APPDATA \<and> length inner \<le> 0x4001 \<and> length inner \<le> cap \<and> d' = d\<lparr>rd_seq := rd_seq d + 1\<rparr> \<and> rd_seq d \<noteq> - 1 \<and>
    (case r of None \<Rightarrow> inner = replicate (length inner) 0
     | Some (content, type) \<Rightarrow> type \<noteq> 0 \<and> (\<exists>k. inner = content @ [type] @ replicate k 0))"
proof -
  have moved: "d' \<noteq> d"
  proof (cases "rec_framed d rec cap")
    case True
    then show ?thesis
      using assms rec_open_framed [OF True] seq_moves by (auto split: option.splits Option.bind_splits)
  next
    case False
    then show ?thesis using assms rec_open_unframed [OF False] by auto
  qed
  obtain inner ct tag where i: "aead_seal (rd_key d) (nonce_of d) (take 5 rec) inner = Some (ct, tag)" "rec = take 5 rec @ ct @ tag"
      "length inner = length rec - 21" "r = unpadded inner" "d' = d\<lparr>rd_seq := rd_seq d + 1\<rparr>" "rec_framed d rec cap"
    using rec_open_sealed [OF assms(1) moved] by blast
  have "case r of None \<Rightarrow> inner = replicate (length inner) 0
     | Some (content, type) \<Rightarrow> type \<noteq> 0 \<and> (\<exists>k. inner = content @ [type] @ replicate k 0)"
  proof (cases "strip_len inner (length inner)")
    case 0
    then have "inner = replicate (length inner) 0" using strip_len_zero [of inner] by (simp add: list_eq_iff_nth_eq)
    then show ?thesis using i(4) 0 by (simp add: unpadded_def)
  next
    case (Suc n)
    then show ?thesis using i(4) strip_len_split [OF Suc] by (auto simp: unpadded_def Let_def)
  qed
  moreover have "length inner \<le> 0x4001" "length inner \<le> cap" "rec ! 0 = REC_APPDATA" "rd_seq d \<noteq> - 1"
    using i(3,6) by (simp_all add: rec_framed_def)
  ultimately show ?thesis using i(1,2,5) by blast
qed

theorem rec_open_authentic_witness:
  "\<exists>r d'. rec_open \<lparr>rd_key = [], rd_iv = [], rd_seq = 0\<rparr> (record_of \<lparr>rd_key = [], rd_iv = [], rd_seq = 0\<rparr> [1, 23]) 100 = Some (r, d') \<and>
     r = Some ([1], 23) \<and> rd_seq d' = 1"
proof -
  let ?d = "\<lparr>rd_key = [], rd_iv = [], rd_seq = 0\<rparr>"
  have o: "rec_open ?d (record_of ?d [1, 23]) 100 = Some (Some ([1], 23), ?d\<lparr>rd_seq := rd_seq ?d + 1\<rparr>)"
    using rec_open_record [of ?d "[1, 23]" 100] unpadded_content [of 23 "[1]" 0] by simp
  then show ?thesis using rec_open_authentic [OF o] by auto
qed

end
