(* ===== verification/Sha512.thy ===== *)
theory Sha512
  imports Sha256
begin

text \<open>
  SHA-512 and SHA-384 of \<open>src/sha512.c\<close>, in its byte-wise arm over \<open>src/sha512_compress.c\<close>, and SHA-1 of \<open>src/sha1.c\<close>.  Both
  write their padding into the block array directly.  The context of a digest is spent after the final call.
\<close>

section \<open>Model\<close>

subsection \<open>SHA-512 and SHA-384\<close>

definition K512 :: "u64 list" where
  "K512 = concat [
     [0x428a2f98d728ae22, 0x7137449123ef65cd, 0xb5c0fbcfec4d3b2f, 0xe9b5dba58189dbbc],
     [0x3956c25bf348b538, 0x59f111f1b605d019, 0x923f82a4af194f9b, 0xab1c5ed5da6d8118],
     [0xd807aa98a3030242, 0x12835b0145706fbe, 0x243185be4ee4b28c, 0x550c7dc3d5ffb4e2],
     [0x72be5d74f27b896f, 0x80deb1fe3b1696b1, 0x9bdc06a725c71235, 0xc19bf174cf692694],
     [0xe49b69c19ef14ad2, 0xefbe4786384f25e3, 0x0fc19dc68b8cd5b5, 0x240ca1cc77ac9c65],
     [0x2de92c6f592b0275, 0x4a7484aa6ea6e483, 0x5cb0a9dcbd41fbd4, 0x76f988da831153b5],
     [0x983e5152ee66dfab, 0xa831c66d2db43210, 0xb00327c898fb213f, 0xbf597fc7beef0ee4],
     [0xc6e00bf33da88fc2, 0xd5a79147930aa725, 0x06ca6351e003826f, 0x142929670a0e6e70],
     [0x27b70a8546d22ffc, 0x2e1b21385c26c926, 0x4d2c6dfc5ac42aed, 0x53380d139d95b3df],
     [0x650a73548baf63de, 0x766a0abb3c77b2a8, 0x81c2c92e47edaee6, 0x92722c851482353b],
     [0xa2bfe8a14cf10364, 0xa81a664bbc423001, 0xc24b8b70d0f89791, 0xc76c51a30654be30],
     [0xd192e819d6ef5218, 0xd69906245565a910, 0xf40e35855771202a, 0x106aa07032bbd1b8],
     [0x19a4c116b8d2d0c8, 0x1e376c085141ab53, 0x2748774cdf8eeb99, 0x34b0bcb5e19b48a8],
     [0x391c0cb3c5c95a63, 0x4ed8aa4ae3418acb, 0x5b9cca4f7763e373, 0x682e6ff3d6b2b8a3],
     [0x748f82ee5defb2fc, 0x78a5636f43172f60, 0x84c87814a1f0ab72, 0x8cc702081a6439ec],
     [0x90befffa23631e28, 0xa4506cebde82bde9, 0xbef9a3f7b2c67915, 0xc67178f2e372532b],
     [0xca273eceea26619c, 0xd186b8c721c0c207, 0xeada7dd6cde0eb1e, 0xf57d4f7fee6ed178],
     [0x06f067aa72176fba, 0x0a637dc5a2c898a6, 0x113f9804bef90dae, 0x1b710b35131c471b],
     [0x28db77f523047d84, 0x32caab7b40c72493, 0x3c9ebe0a15c9bebc, 0x431d67c49c100d4c],
     [0x4cc5d4becb3e42b6, 0x597f299cfc657e2a, 0x5fcb6fab3ad6faec, 0x6c44198c4a475817]]"

definition rotate_right64 :: "u64 \<Rightarrow> nat \<Rightarrow> u64" where
  "rotate_right64 x r = drop_bit r x OR push_bit (64 - r) x"

definition load_be64 :: "bytes \<Rightarrow> u64" where
  "load_be64 p = foldl (\<lambda>v i. push_bit 8 v OR ucast (p ! i)) 0 [0..<8]"

definition schedule_word64 :: "u64 list \<Rightarrow> nat \<Rightarrow> u64" where
  "schedule_word64 w i =
     (let s0 = rotate_right64 (w ! (i - 15)) 1 XOR rotate_right64 (w ! (i - 15)) 8 XOR drop_bit 7 (w ! (i - 15));
          s1 = rotate_right64 (w ! (i - 2)) 19 XOR rotate_right64 (w ! (i - 2)) 61 XOR drop_bit 6 (w ! (i - 2))
      in w ! (i - 16) + s0 + w ! (i - 7) + s1)"

definition schedule64 :: "bytes \<Rightarrow> u64 list" where
  "schedule64 block =
     foldl (\<lambda>w i. w @ [schedule_word64 w i]) (map (\<lambda>i. load_be64 (drop (8 * i) block)) [0..<16]) [16..<80]"

type_synonym regs64 = "u64 \<times> u64 \<times> u64 \<times> u64 \<times> u64 \<times> u64 \<times> u64 \<times> u64"

fun sha512_round :: "regs64 \<Rightarrow> u64 \<Rightarrow> u64 \<Rightarrow> regs64" where
  "sha512_round (a, b, c, d, e, f, g, hh) k w =
     (let S1 = rotate_right64 e 14 XOR rotate_right64 e 18 XOR rotate_right64 e 41;
          ch = (e AND f) XOR (NOT e AND g);
          t1 = hh + S1 + ch + k + w;
          S0 = rotate_right64 a 28 XOR rotate_right64 a 34 XOR rotate_right64 a 39;
          maj = (a AND b) XOR (a AND c) XOR (b AND c);
          t2 = S0 + maj
      in (t1 + t2, a, b, c, d + t1, e, f, g))"

definition sha512_compress :: "u64 list \<Rightarrow> bytes \<Rightarrow> u64 list" where
  "sha512_compress h block =
     (let w = schedule64 block;
          (a, b, c, d, e, f, g, hh) =
            foldl (\<lambda>r i. sha512_round r (K512 ! i) (w ! i))
              (h ! 0, h ! 1, h ! 2, h ! 3, h ! 4, h ! 5, h ! 6, h ! 7) [0..<80]
      in [h ! 0 + a, h ! 1 + b, h ! 2 + c, h ! 3 + d, h ! 4 + e, h ! 5 + f, h ! 6 + g, h ! 7 + hh])"

type_synonym sha512 = "u64 hash_ctx"

definition IV512 :: "u64 list" where
  "IV512 = [0x6a09e667f3bcc908, 0xbb67ae8584caa73b, 0x3c6ef372fe94f82b, 0xa54ff53a5f1d36f1,
     0x510e527fade682d1, 0x9b05688c2b3e6c1f, 0x1f83d9abfb41bd6b, 0x5be0cd19137e2179]"

definition IV384 :: "u64 list" where
  "IV384 = [0xcbbb9d5dc1059ed8, 0x629a292a367cd507, 0x9159015a3070dd17, 0x152fecd8f70e5939,
     0x67332667ffc00b31, 0x8eb44a8768581511, 0xdb0c2e0d64f98fa7, 0x47b5481dbefa4fa4]"

definition init_from :: "sha512 \<Rightarrow> u64 list \<Rightarrow> sha512" where
  "init_from s iv = s\<lparr>hc_h := iv, hc_total := 0, hc_fill := 0\<rparr>"

definition sha512_init :: "sha512 \<Rightarrow> sha512" where
  "sha512_init s = init_from s IV512"

definition sha384_init :: "sha512 \<Rightarrow> sha512" where
  "sha384_init s = init_from s IV384"

definition store_be64 :: "u64 \<Rightarrow> bytes" where
  "store_be64 v = map (\<lambda>i. ucast (drop_bit (56 - 8 * i) v)) [0..<8]"

definition sha512_update :: "sha512 \<Rightarrow> bytes \<Rightarrow> sha512 option" where
  "sha512_update = block_update sha512_compress 128"

definition finalize :: "sha512 \<Rightarrow> sha512 option" where
  "finalize s =
     (let high = drop_bit 61 (hc_total s);
          low = push_bit 3 (hc_total s)
      in block_finalize sha512_compress 128 (store_be64 high @ store_be64 low) s)"

definition sha512_final :: "sha512 \<Rightarrow> bytes option" where
  "sha512_final s = map_option (\<lambda>s. concat (map (\<lambda>i. store_be64 (hc_h s ! i)) [0..<8])) (finalize s)"

definition sha384_final :: "sha512 \<Rightarrow> bytes option" where
  "sha384_final s = map_option (\<lambda>s. concat (map (\<lambda>i. store_be64 (hc_h s ! i)) [0..<6])) (finalize s)"

definition sha512_of :: "bytes \<Rightarrow> bytes option" where
  "sha512_of inp = Option.bind (sha512_update (sha512_init (ctx_fresh [] 128)) inp) sha512_final"

definition sha384_of :: "bytes \<Rightarrow> bytes option" where
  "sha384_of inp = Option.bind (sha512_update (sha384_init (ctx_fresh [] 128)) inp) sha384_final"

subsection \<open>SHA-1\<close>

definition rotate_left1 :: "u32 \<Rightarrow> nat \<Rightarrow> u32" where
  "rotate_left1 x r = push_bit r x OR drop_bit (32 - r) x"

definition sha1_schedule :: "bytes \<Rightarrow> u32 list" where
  "sha1_schedule p =
     foldl (\<lambda>w t. w @ [rotate_left1 (w ! (t - 3) XOR w ! (t - 8) XOR w ! (t - 14) XOR w ! (t - 16)) 1])
       (map (\<lambda>t. load_be32 p (4 * t)) [0..<16]) [16..<80]"

fun sha1_round :: "u32 \<times> u32 \<times> u32 \<times> u32 \<times> u32 \<Rightarrow> nat \<Rightarrow> u32 \<Rightarrow> u32 \<times> u32 \<times> u32 \<times> u32 \<times> u32" where
  "sha1_round (a, b, c, d, e) t w =
     (let (f, k) =
            (if t < 20 then ((b AND c) OR (NOT b AND d), 0x5a827999)
             else if t < 40 then (b XOR c XOR d, 0x6ed9eba1)
             else if t < 60 then ((b AND c) OR (b AND d) OR (c AND d), 0x8f1bbcdc)
             else (b XOR c XOR d, 0xca62c1d6));
          temp = rotate_left1 a 5 + f + e + k + w
      in (temp, a, rotate_left1 b 30, c, d))"

definition sha1_compress :: "u32 list \<Rightarrow> bytes \<Rightarrow> u32 list" where
  "sha1_compress h p =
     (let w = sha1_schedule p;
          (a, b, c, d, e) = foldl (\<lambda>r t. sha1_round r t (w ! t)) (h ! 0, h ! 1, h ! 2, h ! 3, h ! 4) [0..<80]
      in [h ! 0 + a, h ! 1 + b, h ! 2 + c, h ! 3 + d, h ! 4 + e])"

type_synonym sha1 = "u32 hash_ctx"

definition sha1_iv :: "u32 list" where
  "sha1_iv = [0x67452301, 0xefcdab89, 0x98badcfe, 0x10325476, 0xc3d2e1f0]"

definition sha1_init :: "sha1 \<Rightarrow> sha1" where
  "sha1_init s = s\<lparr>hc_h := sha1_iv, hc_total := 0, hc_fill := 0\<rparr>"

definition sha1_update :: "sha1 \<Rightarrow> bytes \<Rightarrow> sha1 option" where
  "sha1_update = block_update sha1_compress 64"

definition sha1_final :: "sha1 \<Rightarrow> bytes option" where
  "sha1_final s =
     (let bits = hc_total s * 8
      in map_option (\<lambda>s. concat (map (\<lambda>i. store_be32 (hc_h s ! i)) [0..<5]))
           (block_finalize sha1_compress 64 (map (\<lambda>i. ucast (drop_bit (56 - 8 * i) bits)) [0..<8]) s))"

subsection \<open>Specification\<close>

definition sha512_chain :: "u64 list \<Rightarrow> bytes \<Rightarrow> u64 list" where
  "sha512_chain iv m = chain sha512_compress 128 iv (hash_pad 128 16 m)"

definition sha512_hash :: "bytes \<Rightarrow> bytes" where
  "sha512_hash m = concat (map store_be64 (sha512_chain IV512 m))"

definition sha384_hash :: "bytes \<Rightarrow> bytes" where
  "sha384_hash m = take 48 (concat (map store_be64 (sha512_chain IV384 m)))"

definition sha1_hash :: "bytes \<Rightarrow> bytes" where
  "sha1_hash m = concat (map store_be32 (chain sha1_compress 64 sha1_iv (hash_pad 64 8 m)))"

section \<open>Digests\<close>

interpretation sha512_blocks: block_hash sha512_compress 128 IV512 by unfold_locales simp
interpretation sha384_blocks: block_hash sha512_compress 128 IV384 by unfold_locales simp
interpretation sha1_blocks: block_hash sha1_compress 64 sha1_iv by unfold_locales simp

lemma length_sha512_compress [simp]: "length (sha512_compress h p) = 8"
  by (simp add: sha512_compress_def Let_def split: prod.splits)

lemma length_sha1_compress [simp]: "length (sha1_compress h p) = 5"
  by (simp add: sha1_compress_def Let_def split: prod.splits)

lemma length_store_be64 [simp]: "length (store_be64 v) = 8"
  by (simp add: store_be64_def)

lemma store_be64_len: "store_be64 = len_be64"
  by (simp add: store_be64_def len_be64_def fun_eq_iff)

lemma be_bytes_split: "be_bytes (j + k) n = be_bytes j (n div 256 ^ k) @ be_bytes k n"
proof (rule nth_equalityI)
  fix i assume i: "i < length (be_bytes (j + k) n)"
  have "n div 256 ^ (j + k - 1 - i) = n div 256 ^ k div 256 ^ (j - 1 - i)" if "i < j"
  proof -
    have "j + k - 1 - i = k + (j - 1 - i)" using that by simp
    then show ?thesis by (simp add: power_add div_mult2_eq)
  qed
  then show "be_bytes (j + k) n ! i = (be_bytes j (n div 256 ^ k) @ be_bytes k n) ! i"
    using i by (cases "i < j") (simp_all add: be_bytes_def nth_append less_diff_conv2 add.commute)
qed simp

text \<open>A 64-bit count in bits, as two words.\<close>

lemma length_words:
  assumes "n < 2 ^ 64"
  shows "store_be64 (drop_bit 61 (of_nat n)) @ store_be64 (push_bit 3 (of_nat n)) = be_bytes 16 (8 * n)"
proof -
  have "drop_bit 61 (of_nat n :: u64) = of_nat (8 * n div 256 ^ 8)"
  proof -
    have "n div 2 ^ 61 = 8 * n div 256 ^ 8"
      using div_mult_mult1 [of 8 n "2 ^ 61"] by simp
    then show ?thesis
      using assms by (simp add: word_unat_eq_iff unat_drop_bit unat_of_nat)
  qed
  moreover have "push_bit 3 (of_nat n :: u64) = of_nat (8 * n)" by (simp add: push_bit_eq_mult)
  ultimately show ?thesis using be_bytes_split [of 8 8 "8 * n"] by (simp add: store_be64_len len_be64_eq del: of_nat_mult)
qed

lemma map_nth_chain: "length h = n \<Longrightarrow> map (\<lambda>i. f (h ! i)) [0..<n] = map f h"
  by (rule nth_equalityI) simp_all

lemma finalize_hash:
  assumes "ctx_holds sha512_compress 128 iv s m" and "length m < 2 ^ 64"
  shows "\<exists>s'. finalize s = Some s' \<and> hc_h s' = sha512_chain iv m"
proof -
  let ?len = "store_be64 (drop_bit 61 (hc_total s)) @ store_be64 (push_bit 3 (hc_total s))"
  have "hc_total s = of_nat (length m)" using assms(1) by (simp add: ctx_holds_def)
  then have len: "?len = be_bytes 16 (8 * length m)" using length_words [OF assms(2)] by simp
  have "\<exists>s'. block_finalize sha512_compress 128 ?len s = Some s' \<and> hc_h s' =
      chain sha512_compress 128 iv (m @ 0x80 # replicate (pad_zeros 128 (length ?len) (length m)) 0 @ ?len)"
    by (rule block_hash.finalize_chain [OF _ assms(1)]) (simp_all add: block_hash_def)
  then show ?thesis
    unfolding finalize_def Let_def sha512_chain_def hash_pad_def len by simp
qed

lemma length_sha512_chain [simp]: "length iv = 8 \<Longrightarrow> length (sha512_chain iv m) = 8"
  unfolding sha512_chain_def by (rule length_chain) simp_all

lemma sha512_final_holds:
  assumes "ctx_holds sha512_compress 128 IV512 s m" and "length m < 2 ^ 64"
  shows "sha512_final s = Some (sha512_hash m)"
  using finalize_hash [OF assms] length_sha512_chain [of IV512 m]
  by (auto simp: sha512_final_def sha512_hash_def IV512_def map_nth_chain)

lemma concat_take: "(\<And>x. x \<in> set xs \<Longrightarrow> length (f x) = k) \<Longrightarrow> concat (map f (take n xs)) = take (k * n) (concat (map f xs))"
  by (induction xs arbitrary: n) (auto simp: take_Cons split: nat.splits)

lemma sha384_final_holds:
  assumes "ctx_holds sha512_compress 128 IV384 s m" and "length m < 2 ^ 64"
  shows "sha384_final s = Some (sha384_hash m)"
proof -
  obtain s' where s': "finalize s = Some s'" "hc_h s' = sha512_chain IV384 m" using finalize_hash [OF assms] by blast
  have "map (\<lambda>i. store_be64 (hc_h s' ! i)) [0..<6] = map store_be64 (take 6 (hc_h s'))"
    using length_sha512_chain [of IV384 m] by (intro nth_equalityI) (simp_all add: s'(2) IV384_def)
  then show ?thesis
    using s' concat_take [of "hc_h s'" store_be64 8 6] by (simp add: sha384_final_def sha384_hash_def)
qed

lemma sha1_final_holds:
  assumes "ctx_holds sha1_compress 64 sha1_iv s m"
  shows "sha1_final s = Some (sha1_hash m)"
proof -
  have "hc_total s * 8 = of_nat (8 * length m)" using assms by (simp add: ctx_holds_def mult.commute)
  then have len: "map (\<lambda>i. ucast (drop_bit (56 - 8 * i) (hc_total s * 8))) [0..<8] = be_bytes 8 (8 * length m)"
    unfolding len_be64_def [symmetric] by (simp only: len_be64_eq)
  have "\<exists>s'. block_finalize sha1_compress 64 (be_bytes 8 (8 * length m)) s = Some s' \<and> hc_h s' =
      chain sha1_compress 64 sha1_iv (m @ 0x80 # replicate (pad_zeros 64 (length (be_bytes 8 (8 * length m))) (length m)) 0 @ be_bytes 8 (8 * length m))"
    by (rule sha1_blocks.finalize_chain [OF assms]) simp
  then obtain s' where "block_finalize sha1_compress 64 (be_bytes 8 (8 * length m)) s = Some s'"
      "hc_h s' = chain sha1_compress 64 sha1_iv (hash_pad 64 8 m)"
    by (auto simp: hash_pad_def)
  moreover have "length (chain sha1_compress 64 sha1_iv (hash_pad 64 8 m)) = 5"
    by (rule length_chain) (simp_all add: sha1_iv_def)
  ultimately show ?thesis
    unfolding sha1_final_def Let_def len by (simp add: sha1_hash_def map_nth_chain)
qed

interpretation sha1: streaming sha1_init sha1_update "\<lambda>s _ m. ctx_holds sha1_compress 64 sha1_iv s m"
    "\<lambda>s. length (hc_block s) = 64" sha1_final "\<lambda>_. sha1_hash"
  by unfold_locales (simp_all add: sha1_init_def holds_init sha1_update_def sha1_blocks.update_holds sha1_final_holds)

text \<open>The length field of the other two counts up to \<open>2^64\<close> bytes, so they are absorbers, with the final calls of the lemmas above.\<close>

interpretation sha512: absorber sha512_init sha512_update "\<lambda>s _ m. ctx_holds sha512_compress 128 IV512 s m" "\<lambda>s. length (hc_block s) = 128"
  by unfold_locales (simp_all add: sha512_init_def init_from_def holds_init sha512_update_def sha512_blocks.update_holds)

interpretation sha384: absorber sha384_init sha512_update "\<lambda>s _ m. ctx_holds sha512_compress 128 IV384 s m" "\<lambda>s. length (hc_block s) = 128"
  by unfold_locales (simp_all add: sha384_init_def init_from_def holds_init sha512_update_def sha384_blocks.update_holds)

section \<open>Properties\<close>

text \<open>C39: SHA-512, SHA-384 and SHA-1 of a message absorbed in any pieces are FIPS 180-4's: the compression function chained over the
  padded blocks.  The two 64-bit words of the length field hold the length in bits of every message under \<open>2^64\<close> bytes, and the padding takes
  one block or two as the length needs.\<close>

theorem sha2_digests:
  assumes "length (concat pieces) < 2 ^ 64"
  shows "Option.bind (run_updates sha512_update (sha512_init (ctx_fresh [] 128)) pieces) sha512_final = Some (sha512_hash (concat pieces)) \<and>
    Option.bind (run_updates sha512_update (sha384_init (ctx_fresh [] 128)) pieces) sha384_final = Some (sha384_hash (concat pieces)) \<and>
    Option.bind (run_updates sha1_update (sha1_init (ctx_fresh [] 64)) pieces) sha1_final = Some (sha1_hash (concat pieces))"
  using sha512.absorbed [of "ctx_fresh [] 128" pieces] sha384.absorbed [of "ctx_fresh [] 128" pieces]
    sha1.digest [of "ctx_fresh [] 64" pieces] sha512_final_holds [OF _ assms] sha384_final_holds [OF _ assms]
  by auto

theorem sha2_digests_witness:
  "Option.bind (run_updates sha512_update (sha384_init (ctx_fresh [] 128)) [[1], [2, 3]]) sha384_final = Some (sha384_hash [1, 2, 3])"
  using sha2_digests [of "[[1], [2, 3]]"] by simp

end
