(* ===== verification/Der.thy ===== *)
theory Der
  imports Buf Ct
begin

text \<open>
  The canonical-DER readers of \<open>src/x509_der.c\<close>, with the subject public key of the RSA build.  A reader takes the byte
  reader and gives the value it reads, \<open>None\<close> where the C function returns 0, and the reader as it leaves it; a pointer
  into the caller's buffer is the bytes it points at.
\<close>

section \<open>Model\<close>

definition x509_read_len :: "rbuf \<Rightarrow> nat option \<times> rbuf" where
  "x509_read_len r =
     (let (b, r) = rb_u8 r; len = unat b
      in if len = 0x80 \<or> len > 0x82 then (None, r)
         else
           let (ok, len, r) =
             (if len = 0x81 then
                let (b, r) = rb_u8 r; len = unat b in (\<not> len < 0x80, len, r)
              else if len = 0x82 then
                let (hi, r) = rb_u8 r; (lo, r) = rb_u8 r; len = unat hi * 2 ^ 8 + unat lo
                in (\<not> len < 0x100, len, r)
              else (True, len, r))
           in if \<not> ok then (None, r)
              else if rb_err r \<or> len > rb_left r then (None, r)
              else (Some len, r))"

definition x509_read_header :: "rbuf \<Rightarrow> u8 \<Rightarrow> nat option \<times> rbuf" where
  "x509_read_header r tag =
     (let (b, r) = rb_u8 r
      in if b \<noteq> tag \<or> rb_err r then (None, r) else x509_read_len r)"

definition x509_read_exact :: "rbuf \<Rightarrow> bytes \<Rightarrow> bool \<times> rbuf" where
  "x509_read_exact r want =
     (let (got, r) = rb_bytes r (length want)
      in case got of None \<Rightarrow> (False, r) | Some got \<Rightarrow> (ct_memeq got want (length want) \<noteq> 0, r))"

definition x509_skip :: "rbuf \<Rightarrow> u8 \<Rightarrow> bool \<times> rbuf" where
  "x509_skip r tag =
     (let (len, r) = x509_read_header r tag
      in case len of None \<Rightarrow> (False, r) | Some len \<Rightarrow> let r = rb_skip r len in (\<not> rb_err r, r))"

definition x509_read_serial :: "rbuf \<Rightarrow> bool \<times> rbuf" where
  "x509_read_serial r =
     (let (len, r) = x509_read_header r 0x02
      in case len of
           None \<Rightarrow> (False, r)
         | Some len \<Rightarrow>
             if len = 0 \<or> len > 21 then (False, r)
             else
               let (c, r) = rb_bytes r len
               in case c of
                    None \<Rightarrow> (False, r)
                  | Some c \<Rightarrow>
                      (\<not> bit (c ! 0) 7 \<and> \<not> (c ! 0 = 0 \<and> (len = 1 \<or> \<not> bit (c ! 1) 7)) \<and> \<not> (len = 21 \<and> c ! 0 \<noteq> 0), r))"

text \<open>The content bytes of a Time; their count is 13 or 15.\<close>

definition read_time_bytes :: "rbuf \<Rightarrow> bytes option \<times> rbuf" where
  "read_time_bytes r =
     (let (tag, r) = rb_u8 r
      in if tag \<noteq> 0x17 \<and> tag \<noteq> 0x18 then (None, r)
         else
           let want = (if tag = 0x17 then 13 else 15);
               (b, r) = rb_u8 r
           in if unat b \<noteq> want then (None, r)
              else
                let (c, r) = rb_bytes r want
                in case c of None \<Rightarrow> (None, r) | Some c \<Rightarrow> (if c ! (want - 1) = 0x5a then Some c else None, r))"

definition x509_read_time :: "rbuf \<Rightarrow> bool \<times> rbuf" where
  "x509_read_time r = (let (c, r) = read_time_bytes r in (c \<noteq> None, r))"

definition x509_read_keyusage :: "bytes \<Rightarrow> u8 \<Rightarrow> bool" where
  "x509_read_keyusage v required =
     (let r = rb_init v (length v);
          (len, r) = x509_read_header r 0x03
      in case len of
           None \<Rightarrow> False
         | Some len \<Rightarrow>
             if len < 2 \<or> len > 3 then False
             else
               let (c, r) = rb_bytes r len
               in case c of
                    None \<Rightarrow> False
                  | Some c \<Rightarrow>
                      if rb_err r \<or> rb_left r \<noteq> 0 then False
                      else
                        let unused = unat (c ! 0); lst = c ! (len - 1)
                        in if unused > 7 \<or> lst = 0 then False
                           else if lst AND of_nat (2 ^ unused - 1) \<noteq> 0 then False
                           else if drop_bit unused lst AND 1 = 0 then False
                           else c ! 1 AND required \<noteq> 0)"

definition x509_read_bitstring :: "rbuf \<Rightarrow> bytes option \<times> rbuf" where
  "x509_read_bitstring r =
     (let (len, r) = x509_read_header r 0x03
      in case len of
           None \<Rightarrow> (None, r)
         | Some len \<Rightarrow>
             if len < 1 then (None, r)
             else
               let (b, r) = rb_u8 r
               in if b \<noteq> 0 \<or> rb_err r then (None, r) else rb_bytes r (len - 1))"

text \<open>The epoch of an epoch-shaped date; \<open>Some None\<close> is a Time that passes with \<open>ok = 0\<close>.\<close>

definition x509_read_time_epoch :: "rbuf \<Rightarrow> u32 option option \<times> rbuf" where
  "x509_read_time_epoch r =
     (let (c, r) = read_time_bytes r
      in case c of
           None \<Rightarrow> (None, r)
         | Some c \<Rightarrow>
             if length c \<noteq> 13 then (Some None, r)
             else
               let digit = map (\<lambda>i. ucast (c ! i) - 48 :: u32) [0..<12]
               in if list_ex (\<lambda>d. d > 9) digit then (Some None, r)
                  else
                    let yy = digit ! 0 * 10 + digit ! 1;
                        mm = digit ! 2 * 10 + digit ! 3;
                        dd = digit ! 4 * 10 + digit ! 5;
                        hms = digit ! 6 + digit ! 7 + digit ! 8 + digit ! 9 + digit ! 10 + digit ! 11
                    in if yy > 49 \<or> mm < 1 \<or> mm > 12 \<or> dd < 1 \<or> dd > 28 \<or> hms \<noteq> 0 then (Some None, r)
                       else (Some (Some (yy * 336 + (mm - 1) * 28 + (dd - 1))), r))"

definition spki_algid :: bytes where
  "spki_algid = [0x30, 0x0d, 0x06, 0x09, 0x2a, 0x86, 0x48, 0x86, 0xf7, 0x0d, 0x01, 0x01, 0x01, 0x05, 0x00]"

definition spki_exponent :: bytes where
  "spki_exponent = [0x02, 0x03, 0x01, 0x00, 0x01]"

definition read_rsa_modulus :: "rbuf \<Rightarrow> bytes option \<times> rbuf" where
  "read_rsa_modulus k =
     (let (content_len, k) = x509_read_header k 0x02
      in case content_len of
           None \<Rightarrow> (None, k)
         | Some content_len \<Rightarrow>
             if content_len < 2 then (None, k)
             else
               let (b, k) = rb_u8 k
               in if b \<noteq> 0 \<or> rb_err k then (None, k)
                  else
                    let n = content_len - 1; (v, k) = rb_bytes k n
                    in case v of
                         None \<Rightarrow> (None, k)
                       | Some v \<Rightarrow>
                           (if \<not> bit (v ! 0) 7 then None
                            else if n < 256 \<or> n > 384 \<or> n mod 8 \<noteq> 0 then None
                            else if \<not> bit (v ! (n - 1)) 0 then None
                            else Some v, k))"

definition x509_read_spki :: "rbuf \<Rightarrow> bytes option \<times> rbuf" where
  "x509_read_spki r =
     (let (len, r) = x509_read_header r 0x30
      in case len of
           None \<Rightarrow> (None, r)
         | Some len \<Rightarrow>
             let (body, r) = rb_bytes r len
             in case body of
                  None \<Rightarrow> (None, r)
                | Some body \<Rightarrow>
                    let s = rb_init body len; (ok, s) = x509_read_exact s spki_algid
                    in if \<not> ok then (None, r)
                       else
                         let (bits, s) = x509_read_bitstring s
                         in case bits of
                              None \<Rightarrow> (None, r)
                            | Some bits \<Rightarrow>
                                if rb_err s \<or> rb_left s \<noteq> 0 then (None, r)
                                else
                                  let k = rb_init bits (length bits); (seq_len, k) = x509_read_header k 0x30
                                  in case seq_len of
                                       None \<Rightarrow> (None, r)
                                     | Some seq_len \<Rightarrow>
                                         if seq_len \<noteq> rb_left k then (None, r)
                                         else
                                           let (key, k) = read_rsa_modulus k
                                           in case key of
                                                None \<Rightarrow> (None, r)
                                              | Some key \<Rightarrow>
                                                  let (ok, k) = x509_read_exact k spki_exponent
                                                  in (if ok \<and> \<not> rb_err k \<and> rb_left k = 0 then Some key else None, r))"

fun oid_loop :: "bytes \<Rightarrow> bool \<Rightarrow> bool" where
  "oid_loop [] at_subid_start = at_subid_start"
| "oid_loop (b # oid) at_subid_start = (if at_subid_start \<and> b = 0x80 then False else oid_loop oid (\<not> bit b 7))"

definition oid_minimal :: "bytes \<Rightarrow> bool" where
  "oid_minimal oid = oid_loop oid True"

record x509_extension =
  xe_oid :: bytes
  xe_value :: bytes
  xe_critical :: bool

definition x509_read_extension :: "rbuf \<Rightarrow> nat \<Rightarrow> x509_extension option \<times> rbuf" where
  "x509_read_extension e tlv_cap =
     (let before = rb_left e; (xlen, e) = x509_read_header e 0x30
      in case xlen of
           None \<Rightarrow> (None, e)
         | Some xlen \<Rightarrow>
             if size_sub before (rb_left e) + xlen > tlv_cap then (None, e)
             else
               let (body, e) = rb_bytes e xlen
               in case body of
                    None \<Rightarrow> (None, e)
                  | Some body \<Rightarrow>
                      let x = rb_init body xlen; (oid_len, x) = x509_read_header x 0x06
                      in case oid_len of
                           None \<Rightarrow> (None, e)
                         | Some oid_len \<Rightarrow>
                             if oid_len = 0 \<or> oid_len > 16 then (None, e)
                             else
                               let (oid, x) = rb_bytes x oid_len
                               in case oid of
                                    None \<Rightarrow> (None, e)
                                  | Some oid \<Rightarrow>
                                      if \<not> oid_minimal oid then (None, e)
                                      else
                                        let (tag, x) = rb_u8 x;
                                            (ok, critical, tag, x) =
                                              (if tag = 0x01 then
                                                 let (bool_len, x) = rb_u8 x; (bool_val, x) = rb_u8 x
                                                 in if bool_len \<noteq> 0x01 \<or> bool_val \<noteq> 0xff \<or> rb_err x then (False, True, tag, x)
                                                    else let (tag, x) = rb_u8 x in (True, True, tag, x)
                                               else (True, False, tag, x))
                                        in if \<not> ok then (None, e)
                                           else if tag \<noteq> 0x04 \<or> rb_err x then (None, e)
                                           else
                                             let (vlen, x) = x509_read_len x
                                             in case vlen of
                                                  None \<Rightarrow> (None, e)
                                                | Some vlen \<Rightarrow>
                                                    let (value, x) = rb_bytes x vlen
                                                    in case value of
                                                         None \<Rightarrow> (None, e)
                                                       | Some value \<Rightarrow>
                                                           (if \<not> rb_err x \<and> rb_left x = 0
                                                            then Some \<lparr>xe_oid = oid, xe_value = value, xe_critical = critical\<rparr>
                                                            else None, e))"

text \<open>The bytes written to \<open>out\<close>; their count is the result.\<close>

definition x509_emit_header :: "u8 \<Rightarrow> nat \<Rightarrow> bytes" where
  "x509_emit_header tag len =
     (if len < 0x80 then [tag, of_nat len]
      else if len < 0x100 then [tag, 0x81, of_nat len]
      else [tag, 0x82, of_nat (len div 2 ^ 8), of_nat (len mod 256)])"

subsection \<open>Specification\<close>

text \<open>X.690's definite lengths in their shortest form, and a value with its tag and length in front.\<close>

definition der_len :: "nat \<Rightarrow> bytes" where
  "der_len n = (if n < 0x80 then [of_nat n] else if n < 0x100 then [0x81, of_nat n]
     else [0x82, of_nat (n div 2 ^ 8), of_nat n])"

definition der_tlv :: "u8 \<Rightarrow> bytes \<Rightarrow> bytes" where
  "der_tlv tag content = tag # der_len (length content) @ content"

text \<open>What a length reads as, on the bytes left.\<close>

fun len_parse :: "bytes \<Rightarrow> (nat \<times> bytes) option" where
  "len_parse [] = None"
| "len_parse (b # bs) =
     (if unat b < 0x80 then Some (unat b, bs)
      else if b = 0x81 then
        (case bs of [] \<Rightarrow> None | c # cs \<Rightarrow> if 0x80 \<le> unat c then Some (unat c, cs) else None)
      else if b = 0x82 then
        (case bs of c # d # ds \<Rightarrow> if 0x100 \<le> unat c * 2 ^ 8 + unat d then Some (unat c * 2 ^ 8 + unat d, ds) else None
         | _ \<Rightarrow> None)
      else None)"

section \<open>Lengths\<close>

lemma byte_numeral_cases: "(b :: u8) = 0x81 \<longleftrightarrow> unat b = 0x81" "b = 0x82 \<longleftrightarrow> unat b = 0x82"
  by (simp_all add: word_unat_eq_iff)

lemma of_nat_byte [simp]: "n < 256 \<Longrightarrow> unat (of_nat n :: u8) = n"
  by (simp add: unat_of_nat)

lemma byte_256: "(256 :: u8) = 0"
  by (simp add: word_unat_eq_iff)

lemma len_parse_exact: "len_parse bs = Some (n, rest) \<longleftrightarrow> n < 65536 \<and> bs = der_len n @ rest"
proof (cases bs)
  case (Cons b cs)
  show ?thesis
  proof
    assume p: "len_parse bs = Some (n, rest)"
    have w: "unat c * 256 + unat d < 65536" "(unat c * 256 + unat d) div 256 = unat c" for c d :: u8
      using unat_byte_less [of c] unat_byte_less [of d] by linarith+
    show "n < 65536 \<and> bs = der_len n @ rest"
      using p Cons w unat_byte_less
      by (auto simp: der_len_def byte_256 split: if_splits list.splits)
  next
    assume "n < 65536 \<and> bs = der_len n @ rest"
    then show "len_parse bs = Some (n, rest)"
      by (auto simp: der_len_def byte_numeral_cases unat_of_nat split: if_splits)
  qed
qed (auto simp: der_len_def)

lemma x509_read_len_parse:
  assumes "rb_wf r" and "rb_view r = Some bs"
  shows "rb_wf (snd (x509_read_len r)) \<and>
    (case len_parse bs of
       Some (n, rest) \<Rightarrow> rb_view (snd (x509_read_len r)) = Some rest \<and> fst (x509_read_len r) = (if n \<le> length rest then Some n else None)
     | None \<Rightarrow> fst (x509_read_len r) = None)"
proof (cases bs)
  case Nil
  then show ?thesis
    using assms by (simp add: x509_read_len_def Let_def case_prod_beta rb_laws rb_err_view)
next
  case (Cons b cs)
  consider "unat b < 0x80" | "b = 0x81" | "b = 0x82" | "unat b = 0x80 \<or> 0x82 < unat b"
    by (fastforce simp: byte_numeral_cases)
  then show ?thesis
  proof cases
    case 2
    then show ?thesis
      using assms Cons
      by (cases cs) (auto simp: x509_read_len_def Let_def case_prod_beta rb_laws rb_err_view)
  next
    case 3
    show ?thesis
    proof (cases "2 \<le> length cs")
      case True
      then obtain c d ds where "cs = c # d # ds" by (cases cs; cases "tl cs") auto
      then show ?thesis
        using 3 assms Cons by (auto simp: x509_read_len_def Let_def case_prod_beta rb_laws rb_err_view)
    next
      case False
      then show ?thesis
        using 3 assms Cons
        by (cases cs; cases "tl cs") (auto simp: x509_read_len_def Let_def case_prod_beta rb_laws rb_err_view split: list.splits)
    qed
  qed (use assms Cons in \<open>auto simp: x509_read_len_def Let_def case_prod_beta rb_laws rb_err_view byte_numeral_cases\<close>)
qed

lemma der_tlv_inject: "length c < 65536 \<Longrightarrow> length c' < 65536 \<Longrightarrow> der_tlv tag c @ rest = der_tlv tag c' @ rest' \<longleftrightarrow> c = c' \<and> rest = rest'"
proof -
  assume l: "length c < 65536" "length c' < 65536"
  have "length c = length c' \<and> c @ rest = c' @ rest'" if "der_len (length c) @ c @ rest = der_len (length c') @ c' @ rest'"
    using len_parse_exact [of "der_len (length c) @ c @ rest" "length c" "c @ rest"] len_parse_exact [of "der_len (length c) @ c @ rest" "length c'" "c' @ rest'"]
      l that by auto
  then show ?thesis by (auto simp: der_tlv_def)
qed

lemma der_tlv_eqD: "der_tlv tag c @ rest = der_tlv tag c' @ rest' \<Longrightarrow> length c < 65536 \<Longrightarrow> length c' < 65536 \<Longrightarrow> c = c'"
  by (simp add: der_tlv_inject)

text \<open>A header is read exactly where a whole value with that tag stands, in its one canonical form.\<close>

lemma header_cases [consumes 2, case_names none some]:
  assumes "rb_wf r" and "rb_view r = Some bs"
  obtains "fst (x509_read_header r tag) = None" "\<nexists>c rest. length c < 65536 \<and> bs = der_tlv tag c @ rest"
      "rb_wf (snd (x509_read_header r tag))"
  | c rest where "fst (x509_read_header r tag) = Some (length c)" "bs = der_tlv tag c @ rest" "length c < 65536"
      "rb_wf (snd (x509_read_header r tag))" "rb_view (snd (x509_read_header r tag)) = Some (c @ rest)"
proof (cases "\<exists>cs. bs = tag # cs")
  case False
  have "fst (x509_read_header r tag) = None \<and> rb_wf (snd (x509_read_header r tag))"
    using assms False by (cases bs) (auto simp: x509_read_header_def Let_def case_prod_beta rb_laws rb_err_view)
  then show ?thesis using that(1) False by (auto simp: der_tlv_def)
next
  case True
  then obtain cs where cs: "bs = tag # cs" by blast
  let ?r = "snd (rb_u8 r)"
  have r: "rb_wf ?r" "rb_view ?r = Some cs" using assms cs by (simp_all add: rb_laws)
  have h: "x509_read_header r tag = x509_read_len ?r"
    using assms cs r by (simp add: x509_read_header_def Let_def case_prod_beta rb_laws rb_err_view)
  show ?thesis
  proof (cases "\<exists>c rest. length c < 65536 \<and> cs = der_len (length c) @ c @ rest")
    case tlv: True
    then obtain c rest where c: "length c < 65536" "cs = der_len (length c) @ c @ rest" by blast
    then have "len_parse cs = Some (length c, c @ rest)" by (simp add: len_parse_exact)
    then show ?thesis
      using x509_read_len_parse [OF r] that(2) [of c rest] c cs by (simp add: h der_tlv_def)
  next
    case no: False
    have "fst (x509_read_len ?r) = None"
    proof (cases "len_parse cs")
      case (Some nr)
      obtain n rest where n: "nr = (n, rest)" by (cases nr)
      have "n < 65536 \<and> cs = der_len n @ rest" using Some n len_parse_exact by blast
      then have "\<not> n \<le> length rest"
        using no by (metis append_take_drop_id length_take min_absorb2)
      then show ?thesis using x509_read_len_parse [OF r] Some n by simp
    qed (use x509_read_len_parse [OF r] in simp)
    then show ?thesis using that(1) no x509_read_len_parse [OF r] cs by (auto simp: h der_tlv_def)
  qed
qed

lemma x509_read_exact_iff:
  assumes "rb_wf r" and "rb_view r = Some bs"
  shows "rb_wf (snd (x509_read_exact r want)) \<and> (fst (x509_read_exact r want) \<longleftrightarrow> (\<exists>rest. bs = want @ rest)) \<and>
    (fst (x509_read_exact r want) \<longrightarrow> rb_view (snd (x509_read_exact r want)) = Some (drop (length want) bs))"
proof (cases "length want \<le> length bs")
  case True
  have "(\<exists>rest. bs = want @ rest) \<longleftrightarrow> take (length want) bs = want"
    by (metis append_eq_conv_conj append_take_drop_id)
  then show ?thesis
    using True assms
    by (simp add: x509_read_exact_def Let_def case_prod_beta rb_laws ct_memeq_iff split: option.splits)
next
  case False
  then have "fst (rb_bytes r (length want)) = None" using assms by (simp add: rb_laws)
  then show ?thesis
    using False assms by (auto simp: x509_read_exact_def Let_def case_prod_beta rb_laws)
qed

lemma rb_init_full: "rb_wf (rb_init bs (length bs))" "rb_view (rb_init bs (length bs)) = Some bs"
  by (simp_all add: rb_init_wf rb_init_view)

section \<open>Values\<close>

lemma bitstring_cases [consumes 2, case_names none some]:
  assumes "rb_wf r" and "rb_view r = Some bs"
  obtains "fst (x509_read_bitstring r) = None" "\<nexists>bits rest. length (0 # bits) < 65536 \<and> bs = der_tlv 3 (0 # bits) @ rest"
      "rb_wf (snd (x509_read_bitstring r))"
  | bits rest where "fst (x509_read_bitstring r) = Some bits" "bs = der_tlv 3 (0 # bits) @ rest" "length (0 # bits) < 65536"
      "rb_wf (snd (x509_read_bitstring r))" "rb_view (snd (x509_read_bitstring r)) = Some rest"
  using assms
proof (cases rule: header_cases [where tag = 3])
  case none
  then have "x509_read_bitstring r = (None, snd (x509_read_header r 3))"
    by (simp add: x509_read_bitstring_def Let_def case_prod_beta)
  moreover have "\<nexists>bits rest. length (0 # bits) < 65536 \<and> bs = der_tlv 3 (0 # bits) @ rest"
    using none(2) by blast
  ultimately show ?thesis using that(1) none(3) by simp
next
  case (some c rest)
  show ?thesis
  proof (cases c)
    case Nil
    then have "fst (x509_read_bitstring r) = None" "rb_wf (snd (x509_read_bitstring r))"
      using some by (simp_all add: x509_read_bitstring_def Let_def case_prod_beta)
    moreover have "\<nexists>bits rest'. length (0 # bits) < 65536 \<and> bs = der_tlv 3 (0 # bits) @ rest'"
      using der_tlv_eqD [OF _ some(3)] some(2) Nil by force
    ultimately show ?thesis by (intro that(1))
  next
    case (Cons b bits)
    show ?thesis
    proof (cases "b = 0")
      case True
      show ?thesis
        by (rule that(2) [of bits rest])
          (use some Cons True in \<open>simp_all add: x509_read_bitstring_def Let_def case_prod_beta rb_laws rb_err_view\<close>)
    next
      case False
      then have "fst (x509_read_bitstring r) = None" "rb_wf (snd (x509_read_bitstring r))"
        using some Cons by (simp_all add: x509_read_bitstring_def Let_def case_prod_beta rb_laws rb_err_view)
      moreover have "\<nexists>bits rest'. length (0 # bits) < 65536 \<and> bs = der_tlv 3 (0 # bits) @ rest'"
        using der_tlv_eqD [OF _ some(3)] some(2) Cons False by force
      ultimately show ?thesis by (intro that(1))
    qed
  qed
qed

definition rsa_modulus_ok :: "bytes \<Rightarrow> bool" where
  "rsa_modulus_ok v \<longleftrightarrow> 256 \<le> length v \<and> length v \<le> 384 \<and> length v mod 8 = 0 \<and> bit (v ! 0) 7 \<and> bit (v ! (length v - 1)) 0"

lemma modulus_cases [consumes 2, case_names none some]:
  assumes "rb_wf r" and "rb_view r = Some bs"
  obtains "fst (read_rsa_modulus r) = None" "\<nexists>v rest. rsa_modulus_ok v \<and> bs = der_tlv 2 (0 # v) @ rest"
  | v rest where "fst (read_rsa_modulus r) = Some v" "bs = der_tlv 2 (0 # v) @ rest" "rsa_modulus_ok v"
      "rb_wf (snd (read_rsa_modulus r))" "rb_view (snd (read_rsa_modulus r)) = Some rest"
proof -
  have ok_len: "length (0 # v) < 65536" if "rsa_modulus_ok v" for v using that by (simp add: rsa_modulus_ok_def)
  show ?thesis
    using assms
  proof (cases rule: header_cases [where tag = 2])
    case none
    then have "fst (read_rsa_modulus r) = None"
      by (simp add: read_rsa_modulus_def Let_def case_prod_beta)
    moreover have "\<nexists>v rest. rsa_modulus_ok v \<and> bs = der_tlv 2 (0 # v) @ rest" using none(2) ok_len by blast
    ultimately show ?thesis by (rule that(1))
  next
    case (some c rest)
    show ?thesis
    proof (cases "\<exists>v. c = 0 # v \<and> rsa_modulus_ok v")
      case True
      then obtain v where v: "c = 0 # v" "rsa_modulus_ok v" by blast
      show ?thesis
        by (rule that(2) [of v rest])
          (use some v in \<open>auto simp: read_rsa_modulus_def Let_def case_prod_beta rb_laws rb_err_view rsa_modulus_ok_def\<close>)
    next
      case False
      have "fst (read_rsa_modulus r) = None"
        using some False
        by (cases c) (auto simp: read_rsa_modulus_def Let_def case_prod_beta rb_laws rb_err_view rsa_modulus_ok_def)
      moreover have "\<nexists>v rest'. rsa_modulus_ok v \<and> bs = der_tlv 2 (0 # v) @ rest'"
        using der_tlv_eqD [OF _ some(3)] some(2) False ok_len by metis
      ultimately show ?thesis by (rule that(1))
    qed
  qed
qed

text \<open>The one encoding of an RSA key the build takes.\<close>

definition rsa_spki :: "bytes \<Rightarrow> bytes" where
  "rsa_spki v = der_tlv 0x30 (spki_algid @ der_tlv 3 (0 # der_tlv 0x30 (der_tlv 2 (0 # v) @ spki_exponent)))"

lemma length_der_tlv: "length c < 65536 \<Longrightarrow> length (der_tlv tag c) \<le> length c + 4"
  by (simp add: der_tlv_def der_len_def)

lemma rsa_spki_lengths:
  assumes "rsa_modulus_ok v"
  shows "length (der_tlv 2 (0 # v) @ spki_exponent) < 65536"
    "length (0 # der_tlv 0x30 (der_tlv 2 (0 # v) @ spki_exponent)) < 65536"
    "length (spki_algid @ der_tlv 3 (0 # der_tlv 0x30 (der_tlv 2 (0 # v) @ spki_exponent))) < 65536"
proof -
  have v: "length (0 # v) \<le> 385" using assms by (simp add: rsa_modulus_ok_def)
  have a: "length (der_tlv 2 (0 # v) @ spki_exponent) \<le> 394"
    using length_der_tlv [where c = "0 # v" and tag = 2] v by (simp add: spki_exponent_def)
  then show "length (der_tlv 2 (0 # v) @ spki_exponent) < 65536" by simp
  have b: "length (0 # der_tlv 0x30 (der_tlv 2 (0 # v) @ spki_exponent)) \<le> 399"
    using length_der_tlv [where c = "der_tlv 2 (0 # v) @ spki_exponent" and tag = "0x30"] a by simp
  then show "length (0 # der_tlv 0x30 (der_tlv 2 (0 # v) @ spki_exponent)) < 65536" by simp
  then show "length (spki_algid @ der_tlv 3 (0 # der_tlv 0x30 (der_tlv 2 (0 # v) @ spki_exponent))) < 65536"
    using length_der_tlv [where c = "0 # der_tlv 0x30 (der_tlv 2 (0 # v) @ spki_exponent)" and tag = 3] b by (simp add: spki_algid_def)
qed

text \<open>The part of \<open>x509_read_spki\<close> inside the outer SEQUENCE, in two steps.\<close>

definition spki_key :: "bytes \<Rightarrow> bytes option" where
  "spki_key bits =
     (let k = rb_init bits (length bits); (seq_len, k) = x509_read_header k 0x30
      in case seq_len of
           None \<Rightarrow> None
         | Some seq_len \<Rightarrow>
             if seq_len \<noteq> rb_left k then None
             else
               let (key, k) = read_rsa_modulus k
               in case key of
                    None \<Rightarrow> None
                  | Some key \<Rightarrow>
                      let (ok, k) = x509_read_exact k spki_exponent
                      in if ok \<and> \<not> rb_err k \<and> rb_left k = 0 then Some key else None)"

definition spki_body :: "bytes \<Rightarrow> bytes option" where
  "spki_body body =
     (let s = rb_init body (length body); (ok, s) = x509_read_exact s spki_algid
      in if \<not> ok then None
         else
           let (bits, s) = x509_read_bitstring s
           in case bits of
                None \<Rightarrow> None
              | Some bits \<Rightarrow> if rb_err s \<or> rb_left s \<noteq> 0 then None else spki_key bits)"

lemma spki_key_exact:
  "spki_key bits = Some key \<longleftrightarrow> rsa_modulus_ok key \<and> bits = der_tlv 0x30 (der_tlv 2 (0 # key) @ spki_exponent)"
  using rb_init_full [of bits]
proof (cases rule: header_cases [where tag = "0x30"])
  case none
  then have "spki_key bits = None" by (simp add: spki_key_def Let_def case_prod_beta)
  moreover have "\<not> (rsa_modulus_ok key \<and> bits = der_tlv 0x30 (der_tlv 2 (0 # key) @ spki_exponent))"
    using none(2) rsa_spki_lengths(1) by (metis append_Nil2)
  ultimately show ?thesis by simp
next
  case (some c rest)
  let ?k = "snd (x509_read_header (rb_init bits (length bits)) 0x30)"
  have left: "rb_left ?k = length c + length rest" using some by (simp add: rb_laws)
  have conv: "rsa_modulus_ok key \<and> bits = der_tlv 0x30 (der_tlv 2 (0 # key) @ spki_exponent) \<longleftrightarrow>
      rest = [] \<and> rsa_modulus_ok key \<and> c = der_tlv 2 (0 # key) @ spki_exponent"
    using der_tlv_inject [OF some(3), of "der_tlv 2 (0 # key) @ spki_exponent" "0x30" rest "[]"] some(2) rsa_spki_lengths(1) by auto
  show ?thesis
  proof (cases "rest = []")
    case True
    then have v: "rb_view ?k = Some c" using some(5) by simp
    show ?thesis
      using some(4) v
    proof (cases rule: modulus_cases)
      case none
      then have "spki_key bits = None" using some(1) left True by (simp add: spki_key_def Let_def case_prod_beta)
      then show ?thesis using none(2) by (auto simp: conv)
    next
      case (some v rest')
      let ?m = "snd (read_rsa_modulus ?k)"
      have x: "fst (x509_read_exact ?m spki_exponent) \<longleftrightarrow> (\<exists>z. rest' = spki_exponent @ z)"
        "fst (x509_read_exact ?m spki_exponent) \<longrightarrow> rb_view (snd (x509_read_exact ?m spki_exponent)) = Some (drop (length spki_exponent) rest')"
        "rb_wf (snd (x509_read_exact ?m spki_exponent))"
        using x509_read_exact_iff [OF some(4,5)] by blast+
      have "spki_key bits = (if rest' = spki_exponent then Some v else None)"
        using \<open>fst (x509_read_header (rb_init bits (length bits)) 0x30) = Some (length c)\<close> left True some(1) x
        by (auto simp: spki_key_def Let_def case_prod_beta rb_laws rb_err_view)
      moreover have "rsa_modulus_ok key \<Longrightarrow> c = der_tlv 2 (0 # key) @ spki_exponent \<longleftrightarrow> v = key \<and> rest' = spki_exponent"
        using der_tlv_inject [of "0 # v" "0 # key" 2 rest' spki_exponent] some(2,3) by (auto simp: rsa_modulus_ok_def)
      ultimately show ?thesis unfolding conv using True some(3) by auto
    qed
  next
    case False
    then show ?thesis using some(1) left by (auto simp: spki_key_def Let_def case_prod_beta conv)
  qed
qed

lemma spki_body_exact:
  "spki_body body = Some key \<longleftrightarrow> rsa_modulus_ok key \<and>
     body = spki_algid @ der_tlv 3 (0 # der_tlv 0x30 (der_tlv 2 (0 # key) @ spki_exponent))"
proof -
  let ?s = "rb_init body (length body)"
  let ?t = "snd (x509_read_exact ?s spki_algid)"
  have x: "rb_wf ?t" "fst (x509_read_exact ?s spki_algid) \<longleftrightarrow> (\<exists>rest. body = spki_algid @ rest)"
    "fst (x509_read_exact ?s spki_algid) \<longrightarrow> rb_view ?t = Some (drop (length spki_algid) body)"
    using x509_read_exact_iff [OF rb_init_full] by blast+
  show ?thesis
  proof (cases "\<exists>rest. body = spki_algid @ rest")
    case True
    then obtain rest where body: "body = spki_algid @ rest" by blast
    then have t: "rb_view ?t = Some rest" "fst (x509_read_exact ?s spki_algid)" using x by auto
    show ?thesis
      using x(1) t(1)
    proof (cases rule: bitstring_cases)
      case none
      then have "spki_body body = None" using t(2) by (simp add: spki_body_def Let_def case_prod_beta)
      moreover have "\<not> (rsa_modulus_ok key \<and> rest = der_tlv 3 (0 # der_tlv 0x30 (der_tlv 2 (0 # key) @ spki_exponent)))"
        using none(2) rsa_spki_lengths(2) by (metis append_Nil2)
      ultimately show ?thesis using body by simp
    next
      case (some bits rest')
      have sb: "spki_body body = (if rest' = [] then spki_key bits else None)"
        using t(2) some by (simp add: spki_body_def Let_def case_prod_beta rb_laws rb_err_view)
      have "rsa_modulus_ok key \<Longrightarrow> rest = der_tlv 3 (0 # der_tlv 0x30 (der_tlv 2 (0 # key) @ spki_exponent)) \<longleftrightarrow>
          bits = der_tlv 0x30 (der_tlv 2 (0 # key) @ spki_exponent) \<and> rest' = []"
        using der_tlv_inject [OF some(3), of "0 # der_tlv 0x30 (der_tlv 2 (0 # key) @ spki_exponent)" 3 rest' "[]"]
          some(2) rsa_spki_lengths(2) by auto
      then show ?thesis using sb spki_key_exact [of bits key] body by auto
    qed
  next
    case False
    then show ?thesis using x(2) by (auto simp: spki_body_def Let_def case_prod_beta)
  qed
qed

lemma x509_read_spki_body:
  assumes "x509_read_header r 0x30 = (Some len, r')" and "rb_bytes r' len = (Some body, r'')" and "len = length body"
  shows "x509_read_spki r = (spki_body body, r'')"
  using assms
  by (simp add: x509_read_spki_def spki_body_def spki_key_def Let_def case_prod_beta split: option.split)

lemma spki_exact:
  assumes "rb_wf r" and "rb_view r = Some bs"
  shows "fst (x509_read_spki r) = Some key \<longleftrightarrow> rsa_modulus_ok key \<and> (\<exists>rest. bs = rsa_spki key @ rest)"
  using assms
proof (cases rule: header_cases [where tag = "0x30"])
  case none
  then have "fst (x509_read_spki r) = None" by (simp add: x509_read_spki_def Let_def case_prod_beta)
  moreover have "\<not> (rsa_modulus_ok key \<and> (\<exists>rest. bs = rsa_spki key @ rest))"
    unfolding rsa_spki_def using none(2) rsa_spki_lengths(3) by blast
  ultimately show ?thesis by simp
next
  case (some c rest)
  let ?r = "snd (x509_read_header r 0x30)"
  have h: "x509_read_header r 0x30 = (Some (length c), ?r)" using some(1) by (simp add: prod_eq_iff)
  have "fst (rb_bytes ?r (length c)) = Some c" using some by (simp add: rb_laws)
  then have b: "rb_bytes ?r (length c) = (Some c, snd (rb_bytes ?r (length c)))" by (simp add: prod_eq_iff)
  have "fst (x509_read_spki r) = spki_body c" using x509_read_spki_body [OF h b refl] by simp
  moreover have "rsa_modulus_ok key \<Longrightarrow> (\<exists>rest'. bs = rsa_spki key @ rest') \<longleftrightarrow>
      c = spki_algid @ der_tlv 3 (0 # der_tlv 0x30 (der_tlv 2 (0 # key) @ spki_exponent))"
    unfolding rsa_spki_def using der_tlv_inject [OF some(3) rsa_spki_lengths(3)] some(2) by auto
  ultimately show ?thesis using spki_body_exact [of c key] by auto
qed

text \<open>The one encoding of an extension, and the steps of its reader inside the SEQUENCE.\<close>

definition ext_tail :: "bool \<Rightarrow> bytes \<Rightarrow> bytes" where
  "ext_tail critical value = (if critical then [0x01, 0x01, 0xff] else []) @ der_tlv 0x04 value"

definition der_ext :: "x509_extension \<Rightarrow> bytes" where
  "der_ext x = der_tlv 0x30 (der_tlv 0x06 (xe_oid x) @ ext_tail (xe_critical x) (xe_value x))"

definition ext_ok :: "x509_extension \<Rightarrow> bool" where
  "ext_ok x \<longleftrightarrow> 0 < length (xe_oid x) \<and> length (xe_oid x) \<le> 16 \<and> oid_minimal (xe_oid x) \<and>
     length (der_tlv 0x06 (xe_oid x) @ ext_tail (xe_critical x) (xe_value x)) < 65536"

definition read_ext_tail :: "rbuf \<Rightarrow> (bool \<times> bytes) option" where
  "read_ext_tail x =
     (let (tag, x) = rb_u8 x;
          (ok, critical, tag, x) =
            (if tag = 0x01 then
               let (bool_len, x) = rb_u8 x; (bool_val, x) = rb_u8 x
               in if bool_len \<noteq> 0x01 \<or> bool_val \<noteq> 0xff \<or> rb_err x then (False, True, tag, x)
                  else let (tag, x) = rb_u8 x in (True, True, tag, x)
             else (True, False, tag, x))
      in if \<not> ok then None
         else if tag \<noteq> 0x04 \<or> rb_err x then None
         else
           let (vlen, x) = x509_read_len x
           in case vlen of
                None \<Rightarrow> None
              | Some vlen \<Rightarrow>
                  let (value, x) = rb_bytes x vlen
                  in case value of
                       None \<Rightarrow> None
                     | Some value \<Rightarrow> if \<not> rb_err x \<and> rb_left x = 0 then Some (critical, value) else None)"

definition read_ext_body :: "bytes \<Rightarrow> x509_extension option" where
  "read_ext_body body =
     (let x = rb_init body (length body); (oid_len, x) = x509_read_header x 0x06
      in case oid_len of
           None \<Rightarrow> None
         | Some oid_len \<Rightarrow>
             if oid_len = 0 \<or> oid_len > 16 then None
             else
               let (oid, x) = rb_bytes x oid_len
               in case oid of
                    None \<Rightarrow> None
                  | Some oid \<Rightarrow>
                      if \<not> oid_minimal oid then None
                      else map_option (\<lambda>(critical, value). \<lparr>xe_oid = oid, xe_value = value, xe_critical = critical\<rparr>)
                             (read_ext_tail x))"

text \<open>The last part of the tail: a header already known to be there, its value, and the end.\<close>

definition read_last_value :: "rbuf \<Rightarrow> u8 \<Rightarrow> bytes option" where
  "read_last_value x tag =
     (let (b, x) = rb_u8 x
      in if b \<noteq> tag \<or> rb_err x then None
         else
           let (vlen, x) = x509_read_len x
           in case vlen of
                None \<Rightarrow> None
              | Some vlen \<Rightarrow>
                  let (value, x) = rb_bytes x vlen
                  in case value of None \<Rightarrow> None | Some value \<Rightarrow> if \<not> rb_err x \<and> rb_left x = 0 then Some value else None)"

lemma read_last_value_exact:
  assumes "rb_wf x" and "rb_view x = Some bs"
  shows "read_last_value x tag = Some val \<longleftrightarrow> length val < 65536 \<and> bs = der_tlv tag val"
proof -
  have h: "read_last_value x tag = (case x509_read_header x tag of (None, x) \<Rightarrow> None
      | (Some vlen, x) \<Rightarrow> case rb_bytes x vlen of (None, x) \<Rightarrow> None
          | (Some val, x) \<Rightarrow> if \<not> rb_err x \<and> rb_left x = 0 then Some val else None)"
    by (cases "fst (rb_u8 x) \<noteq> tag \<or> rb_err (snd (rb_u8 x))")
      (auto simp: read_last_value_def x509_read_header_def Let_def case_prod_beta split: option.split)
  show ?thesis
    using assms
  proof (cases rule: header_cases [where tag = tag])
    case none
    then have "read_last_value x tag = None" by (simp add: h case_prod_beta)
    then show ?thesis using none(2) by (metis append_Nil2 option.distinct(1))
  next
    case (some c rest)
    then have "read_last_value x tag = (if rest = [] then Some c else None)"
      by (simp add: h case_prod_beta rb_laws rb_err_view)
    moreover have "length val < 65536 \<and> bs = der_tlv tag val \<longleftrightarrow> rest = [] \<and> c = val"
      using der_tlv_inject [OF some(3), of val tag rest "[]"] some(2,3) by auto
    ultimately show ?thesis by simp
  qed
qed

lemma read_ext_tail_exact:
  assumes "rb_wf x" and "rb_view x = Some bs"
  shows "read_ext_tail x = Some (critical, val) \<longleftrightarrow> length val < 65536 \<and> bs = ext_tail critical val"
proof (cases "\<exists>cs. bs = [0x01, 0x01, 0xff] @ cs")
  case True
  then obtain cs where cs: "bs = [0x01, 0x01, 0xff] @ cs" by blast
  let ?x = "snd (rb_u8 (snd (rb_u8 (snd (rb_u8 x)))))"
  have w: "rb_wf ?x" "rb_view ?x = Some cs" using assms cs by (simp_all add: rb_laws)
  have "read_ext_tail x = map_option (Pair True) (read_last_value ?x 0x04)"
    using assms cs w
    by (simp add: read_ext_tail_def read_last_value_def Let_def case_prod_beta rb_laws rb_err_view split: option.split)
  then show ?thesis using read_last_value_exact [OF w, where tag = "0x04" and val = val] cs by (auto simp: ext_tail_def der_tlv_def)
next
  case False
  show ?thesis
  proof (cases "\<exists>cs. bs = 0x04 # cs")
    case True
    then obtain cs where cs: "bs = 0x04 # cs" by blast
    have "read_ext_tail x = map_option (Pair False) (read_last_value x 0x04)"
      using assms cs
      by (simp add: read_ext_tail_def read_last_value_def Let_def case_prod_beta rb_laws rb_err_view split: option.split)
    then show ?thesis using read_last_value_exact [OF assms, where tag = "0x04" and val = val] False by (auto simp: ext_tail_def)
  next
    case no: False
    have "read_ext_tail x = None"
      using assms False no
      by (cases bs; cases "tl bs"; cases "tl (tl bs)")
        (auto simp: read_ext_tail_def Let_def case_prod_beta rb_laws rb_err_view split: list.splits)
    then show ?thesis using False no by (auto simp: ext_tail_def der_tlv_def)
  qed
qed

lemma ext_lengths:
  assumes "ext_ok x"
  shows "length (xe_oid x) < 65536" "length (xe_value x) < 65536"
  using assms by (auto simp: ext_ok_def der_tlv_def ext_tail_def)

lemma read_ext_body_exact:
  assumes "length body < 65536"
  shows "read_ext_body body = Some x \<longleftrightarrow> ext_ok x \<and> body = der_tlv 0x06 (xe_oid x) @ ext_tail (xe_critical x) (xe_value x)"
  using rb_init_full [of body]
proof (cases rule: header_cases [where tag = "0x06"])
  case none
  then have "read_ext_body body = None" by (simp add: read_ext_body_def Let_def case_prod_beta)
  then show ?thesis using none(2) ext_lengths(1) [of x] by auto
next
  case (some c rest)
  let ?x = "snd (x509_read_header (rb_init body (length body)) 0x06)"
  let ?y = "snd (rb_bytes ?x (length c))"
  have y: "rb_wf ?y" "rb_view ?y = Some rest" "fst (rb_bytes ?x (length c)) = Some c"
    using some by (simp_all add: rb_laws)
  have rb: "read_ext_body body = (if 0 < length c \<and> length c \<le> 16 \<and> oid_minimal c
      then map_option (\<lambda>(critical, val). \<lparr>xe_oid = c, xe_value = val, xe_critical = critical\<rparr>) (read_ext_tail ?y) else None)"
    using some(1) y(3) by (simp add: read_ext_body_def Let_def case_prod_beta)
  have inj: "length (xe_oid x) < 65536 \<Longrightarrow> body = der_tlv 0x06 (xe_oid x) @ ext_tail (xe_critical x) (xe_value x) \<longleftrightarrow>
      c = xe_oid x \<and> rest = ext_tail (xe_critical x) (xe_value x)"
    using der_tlv_inject [OF some(3), of "xe_oid x" "0x06" rest] some(2) by auto
  have xl: "length (xe_value x) < 65536 \<and> rest = ext_tail (xe_critical x) (xe_value x) \<longleftrightarrow> read_ext_tail ?y = Some (xe_critical x, xe_value x)"
    using read_ext_tail_exact [OF y(1,2)] by blast
  show ?thesis
  proof
    assume b: "read_ext_body body = Some x"
    then have c: "0 < length c" "length c \<le> 16" "oid_minimal c" "c = xe_oid x" "read_ext_tail ?y = Some (xe_critical x, xe_value x)"
      using rb by (auto split: if_splits)
    then have bd: "body = der_tlv 0x06 (xe_oid x) @ ext_tail (xe_critical x) (xe_value x)" using inj xl some(3) by simp
    then show "ext_ok x \<and> body = der_tlv 0x06 (xe_oid x) @ ext_tail (xe_critical x) (xe_value x)"
      using c assms by (simp add: ext_ok_def)
  next
    assume e: "ext_ok x \<and> body = der_tlv 0x06 (xe_oid x) @ ext_tail (xe_critical x) (xe_value x)"
    then have ok: "ext_ok x" by simp
    have "c = xe_oid x" "read_ext_tail ?y = Some (xe_critical x, xe_value x)"
      using e inj xl ext_lengths(1,2) by blast+
    then show "read_ext_body body = Some x" unfolding rb using ok by (simp add: ext_ok_def)
  qed
qed

lemma x509_read_extension_body:
  assumes "x509_read_header e 0x30 = (Some len, e')" and "rb_bytes e' len = (Some body, e'')" and "len = length body"
    and "size_sub (rb_left e) (rb_left e') + len \<le> cap"
  shows "x509_read_extension e cap = (read_ext_body body, e'')"
  using assms
  by (simp add: x509_read_extension_def read_ext_body_def read_ext_tail_def Let_def case_prod_beta
      split: option.split)

lemma extension_exact:
  assumes "rb_wf e" and "rb_view e = Some bs"
  shows "fst (x509_read_extension e cap) = Some x \<longleftrightarrow> ext_ok x \<and> length (der_ext x) \<le> cap \<and> (\<exists>rest. bs = der_ext x @ rest)"
  using assms
proof (cases rule: header_cases [where tag = "0x30"])
  case none
  then have "fst (x509_read_extension e cap) = None" by (simp add: x509_read_extension_def Let_def case_prod_beta)
  moreover have "\<not> (ext_ok x \<and> (\<exists>rest. bs = der_ext x @ rest))"
    unfolding der_ext_def ext_ok_def using none(2) by blast
  ultimately show ?thesis by auto
next
  case (some c rest)
  let ?e = "snd (x509_read_header e 0x30)"
  have h: "x509_read_header e 0x30 = (Some (length c), ?e)" using some(1) by (simp add: prod_eq_iff)
  have "fst (rb_bytes ?e (length c)) = Some c" using some by (simp add: rb_laws)
  then have b: "rb_bytes ?e (length c) = (Some c, snd (rb_bytes ?e (length c)))" by (simp add: prod_eq_iff)
  have sz: "size_sub (rb_left e) (rb_left ?e) + length c = length (der_tlv 0x30 c)"
    using assms some by (simp add: rb_laws der_tlv_def)
  have conv: "ext_ok x \<and> length (der_ext x) \<le> cap \<and> (\<exists>rest. bs = der_ext x @ rest) \<longleftrightarrow>
      ext_ok x \<and> c = der_tlv 0x06 (xe_oid x) @ ext_tail (xe_critical x) (xe_value x) \<and> length (der_tlv 0x30 c) \<le> cap"
    unfolding der_ext_def using der_tlv_inject [OF some(3)] some(2) by (auto simp: ext_ok_def)
  show ?thesis
  proof (cases "length (der_tlv 0x30 c) \<le> cap")
    case True
    then have "fst (x509_read_extension e cap) = read_ext_body c"
      using x509_read_extension_body [OF h b refl] sz by simp
    then show ?thesis using read_ext_body_exact [OF some(3), of x] conv True by auto
  next
    case False
    then have "fst (x509_read_extension e cap) = None"
      using some(1) sz by (simp add: x509_read_extension_def Let_def case_prod_beta)
    then show ?thesis using conv False by auto
  qed
qed

section \<open>Properties\<close>

text \<open>A tag and length are read exactly where \<open>x509_emit_header\<close>'s encoding of them stands, with the whole content behind it: definite form,
  shortest form, at most 65535 bytes.  The reader is then left at the content, so a value has one accepted encoding and re-emitting its header gives the bytes that were read.\<close>

theorem x509_read_header_canonical:
  assumes "rb_wf r" and "rb_view r = Some bs"
  shows "(fst (x509_read_header r tag) = Some n \<longleftrightarrow>
      n < 65536 \<and> (\<exists>content rest. length content = n \<and> bs = x509_emit_header tag n @ content @ rest)) \<and>
    (fst (x509_read_header r tag) = Some n \<longrightarrow> rb_wf (snd (x509_read_header r tag)) \<and>
      rb_view (snd (x509_read_header r tag)) = Some (drop (length (x509_emit_header tag n)) bs))"
proof -
  have "256 dvd n - n mod 256" for n :: nat by (simp add: minus_mod_eq_mult_div)
  then have emit: "x509_emit_header tag n = tag # der_len n" for n
    by (simp add: x509_emit_header_def der_len_def word_unat_eq_iff unat_of_nat)
  show ?thesis
    using assms
  proof (cases rule: header_cases [where tag = tag])
    case none
    then show ?thesis by (auto simp: emit der_tlv_def)
  next
    case (some c rest)
    have "fst (x509_read_header r tag) = Some n \<longleftrightarrow>
        n < 65536 \<and> (\<exists>content rest. length content = n \<and> bs = x509_emit_header tag n @ content @ rest)"
    proof safe
      fix content rest'
      assume "length content < 65536" "n = length content" "bs = x509_emit_header tag (length content) @ content @ rest'"
      then have "c = content" using der_tlv_eqD [OF _ some(3), of tag rest content rest'] some(2) by (simp add: emit der_tlv_def)
      then show "fst (x509_read_header r tag) = Some (length content)" using some(1) by simp
    qed (use some in \<open>auto simp: emit der_tlv_def\<close>)
    moreover have "drop (length (x509_emit_header tag (length c))) bs = c @ rest"
      unfolding emit some(2) der_tlv_def by simp
    ultimately show ?thesis using some by auto
  qed
qed

theorem x509_read_header_canonical_witness:
  "let bs = [0x30, 0x81, 0x05, 1, 2, 3, 4, 5] in fst (x509_read_header (rb_init bs (length bs)) 0x30) \<noteq> Some 5"
  using x509_read_header_canonical [OF rb_init_full, of "[0x30, 0x81, 0x05, 1, 2, 3, 4, 5]" "0x30" 5]
  by (simp add: x509_emit_header_def Let_def)

text \<open>C38: A subject public key is taken exactly from its one encoding: rsaEncryption with NULL parameters, a BIT STRING of whole bytes, a SEQUENCE of
  the modulus and the exponent 65537, nothing in between and nothing after.  The modulus has 256 to 384 bytes, a multiple of eight, its
  top bit set and its low bit set.\<close>

theorem x509_read_spki_exact:
  assumes "rb_wf r" and "rb_view r = Some bs"
  shows "fst (x509_read_spki r) = Some key \<longleftrightarrow>
    256 \<le> length key \<and> length key \<le> 384 \<and> length key mod 8 = 0 \<and> bit (key ! 0) 7 \<and> bit (key ! (length key - 1)) 0 \<and>
    (\<exists>rest. bs = der_tlv 0x30 (spki_algid @ der_tlv 3 (0 # der_tlv 0x30 (der_tlv 2 (0 # key) @ spki_exponent))) @ rest)"
  using spki_exact [OF assms, of key] by (simp add: rsa_modulus_ok_def rsa_spki_def)

theorem x509_read_spki_exact_witness:
  "\<exists>key bs. length key = 256 \<and> bs = rsa_spki key \<and> fst (x509_read_spki (rb_init bs (length bs))) = Some key"
proof (intro exI conjI)
  let ?key = "0x80 # replicate 254 0 @ [1]"
  show "fst (x509_read_spki (rb_init (rsa_spki ?key) (length (rsa_spki ?key)))) = Some ?key"
    using x509_read_spki_exact [OF rb_init_full, of "rsa_spki ?key" ?key]
    by (simp add: rsa_spki_def nth_append bit_numeral_rec)
qed simp_all

text \<open>An extension is read exactly from its one encoding: an OID of 1 to 16 bytes in minimal form, a critical flag only where it is TRUE and then as \<open>01 01 ff\<close>,
  the value as one OCTET STRING, and no byte left over; the whole fits the cap the caller set.\<close>

theorem x509_read_extension_exact:
  assumes "rb_wf e" and "rb_view e = Some bs"
  shows "fst (x509_read_extension e cap) = Some x \<longleftrightarrow>
    0 < length (xe_oid x) \<and> length (xe_oid x) \<le> 16 \<and> oid_minimal (xe_oid x) \<and> length (der_ext x) \<le> cap \<and>
    length (der_tlv 0x06 (xe_oid x) @ ext_tail (xe_critical x) (xe_value x)) < 65536 \<and>
    (\<exists>rest. bs = der_tlv 0x30 (der_tlv 0x06 (xe_oid x) @ (if xe_critical x then [0x01, 0x01, 0xff] else []) @ der_tlv 0x04 (xe_value x)) @ rest)"
  using extension_exact [OF assms, of cap x] by (auto simp: ext_ok_def der_ext_def ext_tail_def)

theorem x509_read_extension_exact_witness:
  "let bs = [0x30, 7, 6, 3, 0x55, 0x1d, 0x0f, 4, 0] in fst (x509_read_extension (rb_init bs (length bs)) 100) =
     Some \<lparr>xe_oid = [0x55, 0x1d, 0x0f], xe_value = [], xe_critical = False\<rparr>"
  using x509_read_extension_exact [OF rb_init_full, of "[0x30, 7, 6, 3, 0x55, 0x1d, 0x0f, 4, 0]" 100
    "\<lparr>xe_oid = [0x55, 0x1d, 0x0f], xe_value = [], xe_critical = False\<rparr>"]
  by (simp add: der_tlv_def der_len_def der_ext_def ext_tail_def oid_minimal_def bit_numeral_rec Let_def)

end
