(* ===== verification/Webpki_Time.thy ===== *)
theory Webpki_Time
  imports Der
begin

text \<open>
  Dates of the web PKI mode, \<open>src/webpki_time.c\<close>: a certificate's Time and the caller's clock, each packed as the decimal
  number \<open>YYYYMMDDHHMMSS\<close>.
\<close>

section \<open>Model\<close>

record civil_time =
  ct_year :: u32
  ct_month :: u32
  ct_day :: u32
  ct_hour :: u32
  ct_minute :: u32
  ct_second :: u32

definition month_days :: "u32 list" where
  "month_days = [0, 31, 28, 31, 30, 31, 30, 31, 31, 30, 31, 30, 31]"

definition pack :: "civil_time \<Rightarrow> u64" where
  "pack t = ucast (ct_year t) * 10000000000 + ucast (ct_month t) * 100000000 + ucast (ct_day t) * 1000000 +
     ucast (ct_hour t) * 10000 + ucast (ct_minute t) * 100 + ucast (ct_second t)"

text \<open>The two digits at \<open>c[i]\<close>.\<close>

definition read_pair :: "bytes \<Rightarrow> nat \<Rightarrow> u32 option" where
  "read_pair c i =
     (let hi = ucast (c ! i) - 48; lo = ucast (c ! (i + 1)) - 48
      in if hi > 9 \<or> lo > 9 then None else Some (hi * 10 + lo))"

definition read_year :: "bytes \<Rightarrow> nat \<Rightarrow> (u32 \<times> u32) option" where
  "read_year c body_len =
     (if body_len = 13 then
        do {
          low \<leftarrow> read_pair c 0;
          Some (if low \<ge> 50 then 19 else 20, low)
        }
      else
        do {
          century \<leftarrow> read_pair c 0;
          low \<leftarrow> read_pair c 2;
          if century * 100 + low \<ge> 2050 then Some (century, low) else None
        })"

definition read_clock :: "bytes \<Rightarrow> nat \<Rightarrow> civil_time \<Rightarrow> civil_time option" where
  "read_clock c at t =
     do {
       month \<leftarrow> read_pair c at;
       day \<leftarrow> read_pair c (at + 2);
       hour \<leftarrow> read_pair c (at + 4);
       minute \<leftarrow> read_pair c (at + 6);
       second \<leftarrow> read_pair c (at + 8);
       Some (t\<lparr>ct_month := month, ct_day := day, ct_hour := hour, ct_minute := minute, ct_second := second\<rparr>)
     }"

definition fields_in_range :: "civil_time \<Rightarrow> bool \<Rightarrow> bool" where
  "fields_in_range t leap =
     (if ct_month t < 1 \<or> ct_month t > 12 then False
      else
        let days = month_days ! unat (ct_month t);
            days = (if ct_month t = 2 \<and> leap then 29 else days)
        in ct_day t \<ge> 1 \<and> ct_day t \<le> days \<and> ct_hour t \<le> 23 \<and> ct_minute t \<le> 59 \<and> ct_second t \<le> 59)"

definition is_leap_year :: "u32 \<Rightarrow> u32 \<Rightarrow> bool" where
  "is_leap_year century low = (if low \<noteq> 0 then low AND 3 = 0 else century AND 3 = 0)"

definition civil_zero :: civil_time where
  "civil_zero = \<lparr>ct_year = 0, ct_month = 0, ct_day = 0, ct_hour = 0, ct_minute = 0, ct_second = 0\<rparr>"

definition read_body :: "bytes \<Rightarrow> nat \<Rightarrow> civil_time option" where
  "read_body c body_len =
     do {
       (century, low) \<leftarrow> read_year c body_len;
       let at = (if body_len = 13 then 2 else 4);
       t \<leftarrow> read_clock c at civil_zero;
       if c ! (body_len - 1) \<noteq> 0x5a then None
       else
         let t = t\<lparr>ct_year := century * 100 + low\<rparr>
         in if fields_in_range t (is_leap_year century low) then Some t else None
     }"

definition webpki_read_time :: "rbuf \<Rightarrow> u64 option \<times> rbuf" where
  "webpki_read_time r =
     (let (tag, r) = rb_u8 r
      in if tag \<noteq> 0x17 \<and> tag \<noteq> 0x18 then (None, r)
         else
           let body_len = (if tag = 0x17 then 13 else 15);
               (len, r) = x509_read_len r
           in if len \<noteq> Some body_len then (None, r)
              else
                let (c, r) = rb_bytes r body_len
                in case c of
                     None \<Rightarrow> (None, r)
                   | Some c \<Rightarrow> (map_option pack (read_body c body_len), r))"

definition civil_from_days :: "u32 \<Rightarrow> civil_time \<Rightarrow> civil_time" where
  "civil_from_days days t =
     (let days_since_march_0000 = days + 719468;
          era = days_since_march_0000 div 146097;
          day_of_era = days_since_march_0000 - era * 146097;
          year_of_era = (day_of_era - day_of_era div 1460 + day_of_era div 36524 - day_of_era div 146096) div 365;
          day_of_year = day_of_era - (365 * year_of_era + year_of_era div 4 - year_of_era div 100);
          month_from_march = (5 * day_of_year + 2) div 153;
          t = t\<lparr>ct_day := day_of_year - (153 * month_from_march + 2) div 5 + 1\<rparr>;
          t = t\<lparr>ct_month := (if month_from_march < 10 then month_from_march + 3 else month_from_march - 9)\<rparr>
      in t\<lparr>ct_year := year_of_era + era * 400 + (if ct_month t \<le> 2 then 1 else 0)\<rparr>)"

definition webpki_pack_seconds :: "u64 \<Rightarrow> u64" where
  "webpki_pack_seconds now_seconds =
     (let now_seconds = (if now_seconds > 253402300799 then 253402300799 else now_seconds);
          t = civil_from_days (ucast (now_seconds div 86400)) civil_zero;
          second_of_day = ucast (now_seconds mod 86400) :: u32;
          t = t\<lparr>ct_hour := second_of_day div 3600\<rparr>;
          second_of_hour = second_of_day - ct_hour t * 3600;
          t = t\<lparr>ct_minute := second_of_hour div 60\<rparr>;
          t = t\<lparr>ct_second := second_of_hour - ct_minute t * 60\<rparr>
      in pack t)"

subsection \<open>Specification\<close>

text \<open>The Gregorian calendar, a day at a time from 1 January 1970.\<close>

definition leap :: "nat \<Rightarrow> bool" where
  "leap y \<longleftrightarrow> y mod 4 = 0 \<and> (y mod 100 \<noteq> 0 \<or> y mod 400 = 0)"

definition days_in_month :: "nat \<Rightarrow> nat \<Rightarrow> nat" where
  "days_in_month y m = (if m = 2 then if leap y then 29 else 28 else if m \<in> {4, 6, 9, 11} then 30 else 31)"

fun next_day :: "nat \<times> nat \<times> nat \<Rightarrow> nat \<times> nat \<times> nat" where
  "next_day (y, m, d) =
     (if d < days_in_month y m then (y, m, d + 1) else if m < 12 then (y, m + 1, 1) else (y + 1, 1, 1))"

primrec date_of_day :: "nat \<Rightarrow> nat \<times> nat \<times> nat" where
  "date_of_day 0 = (1970, 1, 1)"
| "date_of_day (Suc n) = next_day (date_of_day n)"

section \<open>The calendar\<close>

subsection \<open>Years that start in March\<close>

definition year_start :: "nat \<Rightarrow> nat" where
  "year_start y = 365 * y + y div 4 - y div 100"

definition year_len :: "nat \<Rightarrow> nat" where
  "year_len y = (if leap (Suc y) then 366 else 365)"

definition month_start :: "nat \<Rightarrow> nat" where
  "month_start mp = (153 * mp + 2) div 5"

definition march_date :: "nat \<Rightarrow> nat \<Rightarrow> nat \<times> nat \<times> nat" where
  "march_date y k =
     (let mp = (5 * k + 2) div 153; m = (if mp < 10 then mp + 3 else mp - 9)
      in (if m \<le> 2 then y + 1 else y, m, k - month_start mp + 1))"

definition year_of :: "nat \<Rightarrow> nat" where
  "year_of doe = (doe - doe div 1460 + doe div 36524 - doe div 146096) div 365"

lemma month_of_day: "month_start mp \<le> k \<Longrightarrow> k < month_start (Suc mp) \<Longrightarrow> (5 * k + 2) div 153 = mp"
  unfolding month_start_def by (simp add: div_nat_eqI less_mult_imp_div_less)

lemma month_starts:
  "month_start 0 = 0" "month_start 1 = 31" "month_start 2 = 61" "month_start 3 = 92" "month_start 4 = 122"
  "month_start 5 = 153" "month_start 6 = 184" "month_start 7 = 214" "month_start 8 = 245" "month_start 9 = 275"
  "month_start 10 = 306" "month_start 11 = 337" "month_start 12 = 367"
  by (simp_all add: month_start_def)

lemma march_date_in_month:
  assumes "month_start mp \<le> k" "k < month_start (Suc mp)"
  shows "march_date y k =
    (if mp < 10 then (y, mp + 3, k - month_start mp + 1) else if mp < 12 then (y + 1, mp - 9, k - month_start mp + 1)
     else (y, mp - 9, k - month_start mp + 1))"
  using month_of_day [OF assms] by (auto simp: march_date_def Let_def)

lemma month_len:
  "mp < 11 \<Longrightarrow> days_in_month z (if mp < 10 then mp + 3 else mp - 9) = month_start (Suc mp) - month_start mp"
  by (subgoal_tac "mp \<in> {0, 1, 2, 3, 4, 5, 6, 7, 8, 9, 10}")
    (auto simp: days_in_month_def month_start_def, presburger)

lemma march_day_step:
  assumes k: "k < 365" "k = 364 \<longrightarrow> leap (Suc y)"
  shows "march_date y (Suc k) = next_day (march_date y k)"
proof -
  define mp where "mp = (5 * k + 2) div 153"
  have mp: "mp < 12" using k(1) by (simp add: mp_def)
  have lo: "month_start mp \<le> k" and hi: "k < month_start (Suc mp)"
    unfolding month_start_def mp_def by simp_all
  note at = march_date_in_month [OF lo hi, of y]
  show ?thesis
  proof (cases "mp = 11")
    case True
    with lo k have "march_date y (Suc k) = (y + 1, 2, Suc k - 337 + 1)"
      by (subst march_date_in_month [of 11]) (simp_all add: month_starts)
    then show ?thesis using at True k lo by (auto simp: days_in_month_def month_starts)
  next
    case False
    with mp have len: "days_in_month z (if mp < 10 then mp + 3 else mp - 9) = month_start (Suc mp) - month_start mp" for z
      by (intro month_len) simp
    have pos: "month_start (Suc mp) < month_start (Suc (Suc mp))" by (simp add: month_start_def)
    show ?thesis
    proof (cases "Suc k < month_start (Suc mp)")
      case True
      then have "march_date y (Suc k) =
          (if mp < 10 then (y, mp + 3, Suc k - month_start mp + 1) else (y + 1, mp - 9, Suc k - month_start mp + 1))"
        using lo mp by (subst march_date_in_month [of mp]) simp_all
      then show ?thesis using at True lo mp len [of y] len [of "y + 1"] by (auto split: if_splits)
    next
      case end_of_month: False
      with hi have e: "Suc k = month_start (Suc mp)" by simp
      have "march_date y (Suc k) = (if Suc mp < 10 then (y, Suc mp + 3, 1) else (y + 1, Suc mp - 9, 1))"
        using mp False pos by (subst march_date_in_month [of "Suc mp"]) (simp_all add: e)
      then show ?thesis using at e lo mp len [of y] len [of "y + 1"] by (auto split: if_splits)
    qed
  qed
qed

lemma march_year_step: "k < year_len y \<Longrightarrow> Suc k \<ge> year_len y \<Longrightarrow> march_date (Suc y) 0 = next_day (march_date y k)"
  by (subst (2) march_date_in_month [of 11])
    (auto simp: month_starts year_len_def days_in_month_def march_date_def month_start_def split: if_splits)

lemma year_start_parts:
  "q < 25 \<Longrightarrow> r < 4 \<Longrightarrow> year_start (100 * b + 4 * q + r) = 36524 * b + 1461 * q + 365 * r"
proof -
  assume q: "q < 25" "r < 4"
  then have "(100 * b + 4 * q + r) div 4 = 25 * b + q" "(100 * b + 4 * q + r) div 100 = b" by (auto intro: div_nat_eqI)
  then show ?thesis by (simp add: year_start_def)
qed

lemma year_len_bound:
  assumes "q < 25" "r < 4" "b < 4" "k < year_len (100 * b + 4 * q + r)"
  shows "k \<le> 365" "k = 365 \<Longrightarrow> r = 3" "q = 24 \<Longrightarrow> r = 3 \<Longrightarrow> k = 365 \<Longrightarrow> b = 3"
proof -
  show "k \<le> 365" using assms(4) by (simp add: year_len_def split: if_splits)
  assume k: "k = 365"
  then have l: "leap (Suc (100 * b + 4 * q + r))" using assms(4) by (simp add: year_len_def split: if_splits)
  have "Suc (100 * b + 4 * q + r) = Suc r + (25 * b + q) * 4" by simp
  then have "Suc (100 * b + 4 * q + r) mod 4 = Suc r mod 4" by (simp only: mod_mult_self1)
  then have "Suc r mod 4 = 0" using l by (simp add: leap_def)
  then show "r = 3" using assms(2) by (cases "r = 3") simp_all
  assume "q = 24" "r = 3"
  moreover have "b \<in> {0, 1, 2, 3}" using assms(3) by auto
  ultimately show "b = 3" using l by (auto simp: leap_def)
qed

lemma year_parts:
  assumes "(y :: nat) < 400"
  obtains b q r where "y = 100 * b + 4 * q + r" "b < 4" "q < 25" "r < 4"
proof
  show "y = 100 * (y div 100) + 4 * (y mod 100 div 4) + y mod 100 mod 4" by (metis mult_div_mod_eq add.assoc)
  have "y mod 100 < 100" by simp
  then show "y mod 100 div 4 < 25" by simp
  show "y div 100 < 4" "y mod 100 mod 4 < 4" using assms by simp_all
qed

lemma year_of_day:
  assumes y: "y < 400" and k: "k < year_len y"
  shows "year_of (year_start y + k) = y"
proof -
  obtain b q r where bqr: "y = 100 * b + 4 * q + r" "b < 4" "q < 25" "r < 4" by (rule year_parts [OF y])
  note bound = year_len_bound [OF bqr(3,4,2) k [unfolded bqr(1)]]
  have last: "k < 365 \<or> k = 365 \<and> r = 3" using bound(1,2) by (cases "k = 365") auto
  let ?w = "24 * b + 1461 * q + 365 * r + k"
  have e: "year_start y + k = 36500 * b + ?w" using bqr by (simp add: year_start_parts)
  show ?thesis
  proof (cases "36500 * b + ?w = 146096")
    case True
    then have "b = 3 \<and> q = 24 \<and> r = 3" using bqr bound by linarith
    then show ?thesis using True bqr(1) unfolding e year_of_def by simp
  next
    case False
    have "1461 * q + 365 * r + k < 36524" using False bqr bound by linarith
    then have s: "(36500 * b + ?w) div 36524 = b" by (intro div_nat_eqI) simp_all
    have t: "(36500 * b + ?w) div 146096 = 0" using False bqr bound by simp
    define c :: nat where "c = (if q + 24 * b + 365 * r + k \<ge> 1460 then 1 else 0)"
    have p: "(36500 * b + ?w) div 1460 = 25 * b + q + c"
      using bqr bound by (intro div_nat_eqI) (auto simp: c_def)
    have "year_of (36500 * b + ?w) = 100 * b + 4 * q + r" unfolding year_of_def s t p
      using bqr(2-) bound(1) last by (intro div_nat_eqI) (auto simp: c_def)
    then show ?thesis unfolding e by (simp only: bqr(1))
  qed
qed

lemma year_start_step:
  assumes "y < 399"
  shows "year_start (Suc y) = year_start y + year_len y"
proof -
  obtain b q r where y: "y = 100 * b + 4 * q + r" "b < 4" "q < 25" "r < 4" 
    using assms by (auto intro: year_parts [of y])
  consider "r < 3" | "r = 3" "q < 24" | "r = 3" "q = 24" "b < 3" using y assms by linarith
  then show ?thesis
  proof cases
    case 1
    have "Suc y = Suc r + (25 * b + q) * 4" using y(1) by simp
    then have "Suc y mod 4 = Suc r mod 4" by (simp only: mod_mult_self1)
    then have "Suc y mod 4 \<noteq> 0" using 1 by simp
    then have "year_len y = 365" by (simp add: year_len_def leap_def)
    then show ?thesis using year_start_parts [of q "Suc r" b] year_start_parts [of q r b] y 1 by simp
  next
    case 2
    then have e: "Suc y = 0 + (25 * b + q + 1) * 4" "Suc y = 4 * (q + 1) + b * 100" using y(1) by simp_all
    have "Suc y mod 4 = 0 mod 4" unfolding e(1) by (simp only: mod_mult_self1)
    moreover have "Suc y mod 100 = 4 * (q + 1) mod 100" unfolding e(2) by (simp only: mod_mult_self1)
    ultimately have "year_len y = 366" using 2 by (simp add: year_len_def leap_def)
    moreover have e3: "Suc y = 100 * b + 4 * (q + 1) + 0" using y(1) 2 by simp
    have "year_start (Suc y) = 36524 * b + 1461 * (q + 1) + 365 * 0"
      unfolding e3 using 2 by (intro year_start_parts) simp_all
    moreover have "year_start y = 36524 * b + 1461 * q + 365 * 3" using year_start_parts [of q r b] y 2 by simp
    ultimately show ?thesis by simp
  next
    case 3
    then have e: "Suc y = 100 * (b + 1) + 4 * 0 + 0" and "b = 0 \<or> b = 1 \<or> b = 2" using y(1) by auto
    then have "Suc y mod 100 = 0" "Suc y mod 400 \<noteq> 0" by auto
    then have "year_len y = 365" by (simp add: year_len_def leap_def)
    then show ?thesis using year_start_parts [of 0 0 "b + 1"] year_start_parts [of q r b] y 3 e by simp
  qed
qed

subsection \<open>Days since the epoch\<close>

definition civil :: "nat \<Rightarrow> nat \<times> nat \<times> nat" where
  "civil n =
     (let z = n + 719468; era = z div 146097; doe = z - era * 146097; y = year_of doe
      in march_date (y + era * 400) (doe - year_start y))"

lemma leap_era: "leap (y + era * 400) = leap y"
proof -
  have "(y + era * 400) mod m = y mod m" if "m dvd 400" for m
    using that by (metis dvd_mult mod_add_right_eq add_0_right dvd_imp_mod_0)
  then show ?thesis by (simp add: leap_def)
qed

lemma year_end: "y < 400 \<Longrightarrow> k < year_len y \<Longrightarrow> year_start y + k < 146097"
proof -
  assume y: "y < 400" "k < year_len y"
  then have "year_start y + 366 \<le> 146097" by (simp add: year_start_def)
  then show ?thesis using y by (simp add: year_len_def split: if_splits)
qed

lemma civil_parts:
  assumes "y < 400" "k < year_len y" "n + 719468 = 146097 * era + year_start y + k"
  shows "civil n = march_date (y + era * 400) k"
proof -
  have "(n + 719468) div 146097 = era" using year_end [OF assms(1,2)] assms(3) by (intro div_nat_eqI) simp_all
  then show ?thesis using year_of_day [OF assms(1,2)] assms(3) by (simp add: civil_def Let_def)
qed

lemma year_len_era: "year_len (y + era * 400) = year_len y"
  using leap_era [of "Suc y" era] by (simp add: year_len_def)

lemma day_parts: "\<exists>era y k. y < 400 \<and> k < year_len y \<and> n + 719468 = 146097 * era + year_start y + k \<and> civil n = date_of_day n"
proof (induction n)
  case 0
  show ?case
    by (rule exI [of _ 4], rule exI [of _ 369], rule exI [of _ 306])
      (simp add: civil_parts [of 369 306 _ 4] year_len_def year_start_def march_date_def month_start_def)
next
  case (Suc n)
  then obtain era y k where p: "y < 400" "k < year_len y" "n + 719468 = 146097 * era + year_start y + k"
    and d: "civil n = date_of_day n" by blast
  have at: "date_of_day n = march_date (y + era * 400) k" using civil_parts [OF p] d by simp
  show ?case
  proof (cases "Suc k < year_len y")
    case True
    then have "k < 365" "k = 364 \<longrightarrow> leap (Suc (y + era * 400))"
      using leap_era [of "Suc y" era] by (auto simp: year_len_def split: if_splits)
    then have "march_date (y + era * 400) (Suc k) = date_of_day (Suc n)" by (simp add: at march_day_step)
    moreover have "Suc n + 719468 = 146097 * era + year_start y + Suc k" using p(3) by simp
    ultimately show ?thesis using civil_parts [of y "Suc k" "Suc n" era] p(1) True by metis
  next
    case False
    then have s: "march_date (Suc (y + era * 400)) 0 = date_of_day (Suc n)"
      using p(2) by (simp add: at march_year_step year_len_era)
    show ?thesis
    proof (cases "y = 399")
      case True
      then have "k = 365" using p(2) False by (simp add: year_len_def leap_def)
      then have "Suc n + 719468 = 146097 * Suc era + year_start 0 + 0"
        using p(3) True by (simp add: year_start_def)
      moreover have "march_date (0 + Suc era * 400) 0 = date_of_day (Suc n)" using s True by simp
      moreover have "0 < year_len 0" by (simp add: year_len_def)
      ultimately show ?thesis using civil_parts [of 0 0 "Suc n" "Suc era"] by (metis zero_less_numeral)
    next
      case less: False
      then have "Suc n + 719468 = 146097 * era + year_start (Suc y) + 0"
        using p False year_start_step [of y] by simp
      moreover have "Suc y < 400" "0 < year_len (Suc y)" using less p(1) by (simp_all add: year_len_def)
      ultimately show ?thesis using civil_parts [of "Suc y" 0 "Suc n" era] s by (metis add_Suc)
    qed
  qed
qed

lemma civil_date: "civil n = date_of_day n"
  using day_parts by blast

subsection \<open>The order of dates\<close>

fun valid_date :: "nat \<times> nat \<times> nat \<Rightarrow> bool" where
  "valid_date (y, m, d) \<longleftrightarrow> 1 \<le> m \<and> m \<le> 12 \<and> 1 \<le> d \<and> d \<le> days_in_month y m"

fun date_num :: "nat \<times> nat \<times> nat \<Rightarrow> nat" where
  "date_num (y, m, d) = y * 10000 + m * 100 + d"

lemma days_in_month_bounds: "28 \<le> days_in_month y m" "days_in_month y m \<le> 31"
  by (simp_all add: days_in_month_def)

lemma next_day_valid: "valid_date t \<Longrightarrow> valid_date (next_day t)"
proof (cases t)
  fix y m d
  assume "valid_date t" "t = (y, m, d)"
  then show "valid_date (next_day t)"
    using days_in_month_bounds(1) [of y "Suc m"] days_in_month_bounds(1) [of "Suc y" 1] by simp
qed

lemma next_day_later: "valid_date t \<Longrightarrow> date_num t < date_num (next_day t)"
proof (cases t)
  fix y m d
  assume "valid_date t" "t = (y, m, d)"
  then show "date_num t < date_num (next_day t)" using days_in_month_bounds(2) [of y m] by simp
qed

lemma date_of_day_valid: "valid_date (date_of_day n)"
  by (induction n) (simp_all add: next_day_valid days_in_month_def del: next_day.simps)

lemma date_of_day_mono: "i < j \<Longrightarrow> date_num (date_of_day i) < date_num (date_of_day j)"
  by (rule lift_Suc_mono_less) (simp add: next_day_later date_of_day_valid del: next_day.simps)

lemma last_day: "date_of_day 2932896 = (9999, 12, 31)"
proof -
  have "civil 2932896 = march_date (399 + 24 * 400) 305"
    by (rule civil_parts) (simp_all add: year_len_def leap_def year_start_def)
  then show ?thesis by (simp add: civil_date march_date_def month_start_def)
qed

lemma date_of_day_bound: "n \<le> 2932896 \<Longrightarrow> fst (date_of_day n) \<le> 9999"
  using date_of_day_mono [of n 2932896] unfolding last_day le_less by (cases "date_of_day n") (auto simp: last_day)

subsection \<open>Unsigned arithmetic below the width\<close>

lemma unat_u32: "a < 2 ^ 32 \<Longrightarrow> unat (of_nat a :: u32) = a"
  by (simp add: unat_of_nat take_bit_nat_eq_self_iff)

lemma unat_u32_numeral: "numeral b < (2 :: nat) ^ 32 \<Longrightarrow> unat (numeral b :: u32) = numeral b"
  using unat_u32 [of "numeral b"] by (simp only: of_nat_numeral)

lemma word_div_of_nat:
  "a < 2 ^ 32 \<Longrightarrow> numeral b < (2 :: nat) ^ 32 \<Longrightarrow> (of_nat a :: u32) div numeral b = of_nat (a div numeral b)"
  by (simp only: word_arith_nat_div unat_u32 unat_u32_numeral)

lemma word_of_nat_le_numeral:
  "a < 2 ^ 32 \<Longrightarrow> numeral b < (2 :: nat) ^ 32 \<Longrightarrow> (of_nat a :: u32) \<le> numeral b \<longleftrightarrow> a \<le> numeral b"
  by (simp only: word_le_nat_alt unat_u32 unat_u32_numeral)

lemma word_of_nat_less_numeral:
  "a < 2 ^ 32 \<Longrightarrow> numeral b < (2 :: nat) ^ 32 \<Longrightarrow> (of_nat a :: u32) < numeral b \<longleftrightarrow> a < numeral b"
  by (simp only: word_less_nat_alt unat_u32 unat_u32_numeral)

lemma year_of_era_word:
  assumes "doe < 146097"
  shows "(of_nat doe - of_nat doe div 1460 + of_nat doe div 36524 - of_nat doe div 146096) div 365 = (of_nat (year_of doe) :: u32)"
proof -
  have le: "doe div 1460 \<le> doe" "doe div 146096 \<le> doe - doe div 1460 + doe div 36524" 
    using div_le_dividend [of doe 1460] div_le_mono2 [of 1460 146096 doe] assms by linarith+
  have "of_nat doe - of_nat doe div 1460 + of_nat doe div 36524 - of_nat doe div 146096 =
      (of_nat (doe - doe div 1460 + doe div 36524 - doe div 146096) :: u32)"
    using assms le by (simp add: word_div_of_nat of_nat_diff)
  moreover have "doe - doe div 1460 + doe div 36524 - doe div 146096 < 2 ^ 32"
    using assms div_le_dividend [of doe 36524] by simp
  ultimately show ?thesis using assms by (simp add: year_of_def word_div_of_nat del: of_nat_add of_nat_diff)
qed

lemma civil_from_days_date:
  assumes n: "n \<le> 2932896" and d: "date_of_day n = (y, m, d)"
  shows "civil_from_days (of_nat n) t = t\<lparr>ct_year := of_nat y, ct_month := of_nat m, ct_day := of_nat d\<rparr>"
proof -
  obtain era yoe k where p: "yoe < 400" "k < year_len yoe" "n + 719468 = 146097 * era + year_start yoe + k"
    using day_parts by blast
  define mp where "mp = (5 * k + 2) div 153"
  let ?doe = "year_start yoe + k"
  have k: "k < 366" using p(2) by (simp add: year_len_def split: if_splits)
  have doe: "?doe < 146097" using p(1,2) by (rule year_end)
  have era: "(n + 719468) div 146097 = era" using p(3) doe by (intro div_nat_eqI) simp_all
  have sums: "of_nat n + 719468 = (of_nat (n + 719468) :: u32)" "5 * of_nat k + 2 = (of_nat (5 * k + 2) :: u32)"
    "153 * of_nat mp + 2 = (of_nat (153 * mp + 2) :: u32)" by simp_all
  have eraw: "(of_nat n + 719468 :: u32) div 146097 = of_nat era"
    using n era by (simp only: sums) (subst word_div_of_nat, simp_all)
  have doew: "of_nat n + 719468 - of_nat era * 146097 = (of_nat ?doe :: u32)"
    using arg_cong [OF p(3), of "of_nat :: nat \<Rightarrow> u32"] by simp
  have kw: "of_nat ?doe - of_nat (year_start yoe) = (of_nat k :: u32)" by simp
  have ys: "365 * of_nat yoe + of_nat yoe div 4 - of_nat yoe div 100 = (of_nat (year_start yoe) :: u32)"
    using p(1) by (simp add: year_start_def word_div_of_nat of_nat_diff)
  have mpw: "(5 * of_nat k + 2) div 153 = (of_nat mp :: u32)"
    using k by (simp only: sums) (subst word_div_of_nat, simp_all add: mp_def)
  have mp: "mp < 12" using k by (simp add: mp_def)
  have ms: "(153 * of_nat mp + 2) div 5 = (of_nat (month_start mp) :: u32)"
    using mp by (simp only: sums) (subst word_div_of_nat, simp_all add: month_start_def)
  have mk: "month_start mp \<le> k" by (simp add: mp_def month_start_def)
  have c: "march_date (yoe + era * 400) k = (y, m, d)" using civil_parts [OF p] d by (simp add: civil_date)
  note c' = c [unfolded march_date_def Let_def, folded mp_def]
  have mw: "(if of_nat mp < (10 :: u32) then of_nat mp + 3 else of_nat mp - 9) = (of_nat m :: u32)" and m: "m \<le> 12"
    using c' mp word_of_nat_less_numeral [of mp "num.Bit0 (num.Bit1 (num.Bit0 num.One))"]
    by (auto split: if_splits simp: of_nat_diff)
  have dw: "of_nat k - of_nat (month_start mp) + 1 = (of_nat d :: u32)" using c' mk by (auto simp: of_nat_diff)
  have yw: "of_nat yoe + of_nat era * 400 + (if of_nat m \<le> (2 :: u32) then 1 else 0) = (of_nat y :: u32)"
    using c' m word_of_nat_le_numeral [of m "num.Bit0 num.One"] by (auto split: if_splits)
  show ?thesis
    unfolding civil_from_days_def Let_def eraw doew year_of_era_word [OF doe] year_of_day [OF p(1,2)] ys kw mpw ms dw
    by (simp add: mw yw)
qed

section \<open>Times of day\<close>

subsection \<open>The text of a Time\<close>

type_synonym moment = "(nat \<times> nat \<times> nat) \<times> nat \<times> nat \<times> nat"

fun valid_time :: "moment \<Rightarrow> bool" where
  "valid_time (date, h, mi, s) \<longleftrightarrow> valid_date date \<and> h < 24 \<and> mi < 60 \<and> s < 60"

fun time_num :: "moment \<Rightarrow> nat" where
  "time_num (date, h, mi, s) = date_num date * 1000000 + h * 10000 + mi * 100 + s"

definition digits2 :: "nat \<Rightarrow> bytes" where
  "digits2 n = [of_nat (48 + n div 10), of_nat (48 + n mod 10)]"

fun time_text :: "moment \<Rightarrow> bytes" where
  "time_text ((y, m, d), h, mi, s) =
     (if 1950 \<le> y \<and> y < 2050 then [] else digits2 (y div 100)) @
     digits2 (y mod 100) @ digits2 m @ digits2 d @ digits2 h @ digits2 mi @ digits2 s @ [0x5a]"

fun time_tag :: "moment \<Rightarrow> u8" where
  "time_tag ((y, m, d), h, mi, s) = (if 1950 \<le> y \<and> y < 2050 then 0x17 else 0x18)"

definition time_of_second :: "nat \<Rightarrow> moment" where
  "time_of_second n =
     (date_of_day (n div 86400), n mod 86400 div 3600, n mod 86400 mod 3600 div 60, n mod 86400 mod 60)"

subsection \<open>Digits\<close>

definition is_pair :: "u8 \<Rightarrow> u8 \<Rightarrow> nat \<Rightarrow> bool" where
  "is_pair a b n \<longleftrightarrow> n < 100 \<and> a = of_nat (48 + n div 10) \<and> b = of_nat (48 + n mod 10)"

lemma digit_word: "(ucast (b :: u8) - 48 :: u32) = of_nat n \<longleftrightarrow> b = of_nat (48 + n)" if "n < 10"
proof -
  have "(ucast b - 48 :: u32) = of_nat n \<longleftrightarrow> (ucast b :: u32) = of_nat (48 + n)" by (auto simp: algebra_simps)
  also have "\<dots> \<longleftrightarrow> unat b = 48 + n"
    using that unat_u32 [of "48 + n"] by (simp add: word_unat_eq_iff unat_ucast_up del: of_nat_add)
  also have "\<dots> \<longleftrightarrow> b = of_nat (48 + n)" using that of_nat_byte [of "48 + n"] by (simp add: word_unat_eq_iff del: of_nat_add)
  finally show ?thesis .
qed

lemma small_word: "(w :: u32) \<le> 9 \<longleftrightarrow> (\<exists>n<10. w = of_nat n)"
proof
  assume "w \<le> 9"
  then have "unat w < 10" "w = of_nat (unat w)" by (simp_all add: word_le_nat_alt)
  then show "\<exists>n<10. w = of_nat n" by blast
qed (auto simp: word_le_nat_alt unat_u32)

lemma read_pair_iff: "read_pair c i = Some v \<longleftrightarrow> (\<exists>n. is_pair (c ! i) (c ! (i + 1)) n \<and> v = of_nat n)"
proof
  assume "read_pair c i = Some v"
  then have "(ucast (c ! i) - 48 :: u32) \<le> 9" "(ucast (c ! (i + 1)) - 48 :: u32) \<le> 9"
      and v: "v = (ucast (c ! i) - 48) * 10 + (ucast (c ! (i + 1)) - 48)"
    unfolding read_pair_def Let_def by (simp_all only: linorder_not_less de_Morgan_disj option.inject option.distinct split: if_splits)
  then obtain hi lo where w: "hi < 10" "(ucast (c ! i) - 48 :: u32) = of_nat hi" "lo < 10" "(ucast (c ! (i + 1)) - 48 :: u32) = of_nat lo"
    unfolding small_word by blast
  moreover have "v = of_nat hi * 10 + of_nat lo" unfolding v w(2,4) ..
  moreover have "c ! i = of_nat (48 + hi)" "c ! (i + 1) = of_nat (48 + lo)" using w digit_word by blast+
  ultimately have "is_pair (c ! i) (c ! (i + 1)) (hi * 10 + lo)" "v = of_nat (hi * 10 + lo)" by (simp_all add: is_pair_def)
  then show "\<exists>n. is_pair (c ! i) (c ! (i + 1)) n \<and> v = of_nat n" by blast
next
  assume "\<exists>n. is_pair (c ! i) (c ! (i + 1)) n \<and> v = of_nat n"
  then obtain n where n: "n < 100" "c ! i = of_nat (48 + n div 10)" "c ! (i + 1) = of_nat (48 + n mod 10)" "v = of_nat n"
    by (auto simp: is_pair_def)
  then have w: "(ucast (c ! i) - 48 :: u32) = of_nat (n div 10)" "(ucast (c ! (i + 1)) - 48 :: u32) = of_nat (n mod 10)"
    using digit_word by simp_all
  have "of_nat (n div 10) * 10 + of_nat (n mod 10) = (of_nat (n div 10 * 10 + n mod 10) :: u32)"
    by (simp only: of_nat_add of_nat_mult of_nat_numeral)
  then show "read_pair c i = Some v"
    using n(1,4) unfolding read_pair_def w Let_def by (auto simp: linorder_not_less word_le_nat_alt unat_u32)
qed

lemma read_pair_some: "is_pair (c ! i) (c ! (i + 1)) n \<Longrightarrow> read_pair c i = Some (of_nat n)"
  using read_pair_iff by blast

lemma digits2_pair: "n < 100 \<Longrightarrow> digits2 n = [a, b] \<longleftrightarrow> is_pair a b n"
  by (auto simp: digits2_def is_pair_def)

subsection \<open>Fields\<close>

lemma leap_century:
  assumes "l < 100"
  shows "leap (100 * c + l) \<longleftrightarrow> (if l \<noteq> 0 then l mod 4 = 0 else c mod 4 = 0)"
proof -
  have "(l + (25 * c) * 4) mod 4 = l mod 4" "(l + c * 100) mod 100 = l mod 100" by (simp_all only: mod_mult_self1)
  then have "(100 * c + l) mod 4 = l mod 4" "(100 * c + l) mod 100 = l" using assms by (simp_all add: algebra_simps)
  moreover have "100 * c mod 400 = 100 * (c mod 4)" using mult_mod_right [of 100 c 4] by simp
  ultimately show ?thesis by (auto simp: leap_def)
qed

lemma is_leap_year_iff:
  assumes "c < 100" "l < 100"
  shows "is_leap_year (of_nat c) (of_nat l) \<longleftrightarrow> leap (100 * c + l)"
proof -
  have m: "(of_nat n :: u32) AND 3 = 0 \<longleftrightarrow> n mod 4 = 0" for n
  proof -
    have "(of_nat n :: u32) AND 3 = take_bit 2 (of_nat n)" by (simp add: take_bit_eq_mask mask_eq_exp_minus_1)
    then have "(of_nat n :: u32) AND 3 = of_nat (take_bit 2 n)" by (simp only: take_bit_of_nat)
    then have "(of_nat n :: u32) AND 3 = of_nat (n mod 4)" by (simp add: take_bit_eq_mod)
    then show ?thesis using unat_u32 [of "n mod 4"] by (simp add: word_unat_eq_iff)
  qed
  have "(of_nat l :: u32) \<noteq> 0 \<longleftrightarrow> l \<noteq> 0" using unat_u32 [of l] assms by (simp add: word_unat_eq_iff)
  then show ?thesis using leap_century [OF assms(2)] by (simp add: is_leap_year_def m)
qed

lemma month_days_nth: "1 \<le> m \<Longrightarrow> m \<le> 12 \<Longrightarrow>
   (if m = 2 \<and> leap y then 29 else month_days ! m) = of_nat (days_in_month y m)"
  by (subgoal_tac "m \<in> {1, 2, 3, 4, 5, 6, 7, 8, 9, 10, 11, 12}")
    (auto simp: month_days_def days_in_month_def, presburger)

lemma fields_in_range_iff:
  assumes "m < 100" "d < 100" "h < 100" "mi < 100" "s < 100"
  shows "fields_in_range \<lparr>ct_year = yw, ct_month = of_nat m, ct_day = of_nat d, ct_hour = of_nat h, ct_minute = of_nat mi, ct_second = of_nat s\<rparr>
      (leap y) \<longleftrightarrow> valid_time ((y, m, d), h, mi, s)"
proof (cases "1 \<le> m \<and> m \<le> 12")
  case True
  have u: "unat (of_nat n :: u32) = n" if "n < 100" for n using that by (simp add: unat_u32)
  have "(of_nat m = (2 :: u32)) = (m = 2)" using u [of m] assms by (simp add: word_unat_eq_iff)
  moreover have "unat (of_nat (days_in_month y m) :: u32) = days_in_month y m"
    using days_in_month_bounds(2) [of y m] by (intro u) simp
  ultimately show ?thesis
    using True month_days_nth [of m y] assms
    by (auto simp: fields_in_range_def word_le_nat_alt word_less_nat_alt u Let_def)
next
  case False
  then show ?thesis using assms by (auto simp: fields_in_range_def word_le_nat_alt word_less_nat_alt unat_u32)
qed

lemma is_pair_less: "is_pair a b n \<Longrightarrow> n < 100"
  by (simp add: is_pair_def)

lemma read_clock_iff:
  "read_clock c i t = Some t' \<longleftrightarrow>
   (\<exists>m d h mi s. is_pair (c ! i) (c ! (i + 1)) m \<and> is_pair (c ! (i + 2)) (c ! (i + 3)) d \<and>
      is_pair (c ! (i + 4)) (c ! (i + 5)) h \<and> is_pair (c ! (i + 6)) (c ! (i + 7)) mi \<and>
      is_pair (c ! (i + 8)) (c ! (i + 9)) s \<and>
      t' = t\<lparr>ct_month := of_nat m, ct_day := of_nat d, ct_hour := of_nat h, ct_minute := of_nat mi, ct_second := of_nat s\<rparr>)"
proof -
  have at: "i + 2 + 1 = i + 3" "i + 4 + 1 = i + 5" "i + 6 + 1 = i + 7" "i + 8 + 1 = i + 9" by simp_all
  show ?thesis unfolding read_clock_def bind_eq_Some_conv read_pair_iff option.inject at by blast
qed

lemma read_year_utc:
  "read_year c 13 = Some cl \<longleftrightarrow>
   (\<exists>y. 1950 \<le> y \<and> y < 2050 \<and> is_pair (c ! 0) (c ! 1) (y mod 100) \<and> cl = (of_nat (y div 100), of_nat (y mod 100)))"
  (is "?l \<longleftrightarrow> ?r")
proof
  assume ?l
  then obtain n where n: "is_pair (c ! 0) (c ! 1) n" "cl = (if of_nat n \<ge> (50 :: u32) then 19 else 20, of_nat n)"
    by (auto simp: read_year_def bind_eq_Some_conv read_pair_iff)
  then have "of_nat n \<ge> (50 :: u32) \<longleftrightarrow> n \<ge> 50" by (simp add: word_le_nat_alt unat_u32 is_pair_def)
  moreover have "n < 100" using n(1) by (rule is_pair_less)
  moreover have "(n + a * 100) div 100 = a" "(n + a * 100) mod 100 = n" for a using calculation(2) by simp_all
  ultimately show ?r using n by (intro exI [of _ "n + (if n \<ge> 50 then 19 else 20) * 100"]) auto
next
  assume ?r
  then obtain y where y: "1950 \<le> y" "y < 2050" "is_pair (c ! 0) (c ! 1) (y mod 100)"
    "cl = (of_nat (y div 100), of_nat (y mod 100))" by blast
  have ge: "of_nat (y mod 100) \<ge> (50 :: u32) \<longleftrightarrow> y mod 100 \<ge> 50" by (simp add: word_le_nat_alt unat_u32)
  have "y div 100 = (if y < 2000 then 19 else 20)" using y(1,2) by (auto intro: div_nat_eqI)
  then consider "y div 100 = 19" "y mod 100 \<ge> 50" | "y div 100 = 20" "y mod 100 < 50"
    using y(1,2) mult_div_mod_eq [of 100 y] by (cases "y < 2000") auto
  then show ?l using y ge read_pair_some [of c 0] by cases (simp_all add: read_year_def)
qed

lemma read_year_gen:
  "read_year c 15 = Some cl \<longleftrightarrow>
   (\<exists>y. 2050 \<le> y \<and> y < 10000 \<and> is_pair (c ! 0) (c ! 1) (y div 100) \<and> is_pair (c ! 2) (c ! 3) (y mod 100) \<and>
      cl = (of_nat (y div 100), of_nat (y mod 100)))"
  (is "?l \<longleftrightarrow> ?r")
proof -
  have ge: "of_nat a * 100 + of_nat b \<ge> (2050 :: u32) \<longleftrightarrow> a * 100 + b \<ge> 2050" if "a < 100" "b < 100" for a b :: nat
    using that unat_u32 [of "a * 100 + b"] by (simp add: word_le_nat_alt)
  show ?thesis
  proof
    assume ?l
    then obtain a b where n: "is_pair (c ! 0) (c ! 1) a" "is_pair (c ! 2) (c ! 3) b"
      "of_nat a * 100 + of_nat b \<ge> (2050 :: u32)" "cl = (of_nat a, of_nat b)"
      by (auto simp: read_year_def bind_eq_Some_conv read_pair_iff eval_nat_numeral split: if_splits)
    then show ?r using ge [of a b] by (intro exI [of _ "a * 100 + b"]) (auto simp: is_pair_def)
  next
    assume ?r
    then obtain y where y: "2050 \<le> y" "y < 10000" "is_pair (c ! 0) (c ! 1) (y div 100)" "is_pair (c ! 2) (c ! 3) (y mod 100)"
      "cl = (of_nat (y div 100), of_nat (y mod 100))" by blast
    then show ?l using ge [of "y div 100" "y mod 100"] read_pair_some [of c 0] read_pair_some [of c 2]
      by (simp add: read_year_def)
  qed
qed

subsection \<open>The body of a Time\<close>

definition moment_struct :: "moment \<Rightarrow> civil_time" where
  "moment_struct tm = (case tm of ((y, m, d), h, mi, s) \<Rightarrow>
     \<lparr>ct_year = of_nat y, ct_month = of_nat m, ct_day = of_nat d, ct_hour = of_nat h, ct_minute = of_nat mi, ct_second = of_nat s\<rparr>)"

lemma year_word: "of_nat (y div 100) * 100 + of_nat (y mod 100) = (of_nat y :: u32)"
  by (metis of_nat_add of_nat_mult of_nat_numeral div_mult_mod_eq)

lemma moment_in_range:
  assumes "y < 10000" "m < 100" "d < 100" "h < 100" "mi < 100" "s < 100"
  shows "fields_in_range (moment_struct ((y, m, d), h, mi, s)) (is_leap_year (of_nat (y div 100)) (of_nat (y mod 100))) \<longleftrightarrow>
    valid_time ((y, m, d), h, mi, s)"
  using fields_in_range_iff [OF assms(2-), of _ y] is_leap_year_iff [of "y div 100" "y mod 100"] assms(1)
  by (simp add: moment_struct_def)

lemma read_body_iff:
  assumes "n = 13 \<or> n = 15"
  shows "read_body c n = Some t \<longleftrightarrow>
    (\<exists>y m d h mi s i. i = (if n = 13 then 2 else 4) \<and>
       read_year c n = Some (of_nat (y div 100), of_nat (y mod 100)) \<and> y < 10000 \<and>
       is_pair (c ! i) (c ! (i + 1)) m \<and> is_pair (c ! (i + 2)) (c ! (i + 3)) d \<and>
       is_pair (c ! (i + 4)) (c ! (i + 5)) h \<and> is_pair (c ! (i + 6)) (c ! (i + 7)) mi \<and>
       is_pair (c ! (i + 8)) (c ! (i + 9)) s \<and> c ! (n - 1) = 0x5a \<and>
       valid_time ((y, m, d), h, mi, s) \<and> t = moment_struct ((y, m, d), h, mi, s))"
  (is "?l \<longleftrightarrow> ?r")
proof
  assume l: ?l
  define i :: nat where "i = (if n = 13 then 2 else 4)"
  from l obtain cl t' where cl: "read_year c n = Some cl" and t': "read_clock c i civil_zero = Some t'" "c ! (n - 1) = 0x5a"
    "t = t'\<lparr>ct_year := fst cl * 100 + snd cl\<rparr>" "fields_in_range t (is_leap_year (fst cl) (snd cl))"
    by (auto simp: read_body_def bind_eq_Some_conv i_def Let_def split: if_splits)
  from cl assms obtain y where y: "cl = (of_nat (y div 100), of_nat (y mod 100))" "y < 10000"
    by (auto simp: read_year_utc read_year_gen)
  from t'(1) obtain m d h mi s where p: "is_pair (c ! i) (c ! (i + 1)) m" "is_pair (c ! (i + 2)) (c ! (i + 3)) d"
      "is_pair (c ! (i + 4)) (c ! (i + 5)) h" "is_pair (c ! (i + 6)) (c ! (i + 7)) mi" "is_pair (c ! (i + 8)) (c ! (i + 9)) s"
      and e: "t' = civil_zero\<lparr>ct_month := of_nat m, ct_day := of_nat d, ct_hour := of_nat h, ct_minute := of_nat mi, ct_second := of_nat s\<rparr>"
    unfolding read_clock_iff by blast
  have t: "t = moment_struct ((y, m, d), h, mi, s)" using t'(3) by (simp add: y(1) e moment_struct_def civil_zero_def year_word)
  then have "valid_time ((y, m, d), h, mi, s)"
    using t'(4) moment_in_range [OF y(2) p [THEN is_pair_less]] by (simp add: y(1))
  then show ?r using cl t'(2) y p t i_def by blast
next
  assume ?r
  then obtain y m d h mi s i where i: "i = (if n = 13 then 2 else 4)"
      and y: "read_year c n = Some (of_nat (y div 100), of_nat (y mod 100))" "y < 10000"
      and p: "is_pair (c ! i) (c ! (i + 1)) m" "is_pair (c ! (i + 2)) (c ! (i + 3)) d"
        "is_pair (c ! (i + 4)) (c ! (i + 5)) h" "is_pair (c ! (i + 6)) (c ! (i + 7)) mi" "is_pair (c ! (i + 8)) (c ! (i + 9)) s"
      and c: "c ! (n - 1) = 0x5a" and v: "valid_time ((y, m, d), h, mi, s)" and t: "t = moment_struct ((y, m, d), h, mi, s)"
    by blast
  have "read_clock c i civil_zero =
      Some (civil_zero\<lparr>ct_month := of_nat m, ct_day := of_nat d, ct_hour := of_nat h, ct_minute := of_nat mi, ct_second := of_nat s\<rparr>)"
    unfolding read_clock_iff using p by blast
  moreover have "civil_zero\<lparr>ct_month := of_nat m, ct_day := of_nat d, ct_hour := of_nat h, ct_minute := of_nat mi, ct_second := of_nat s,
      ct_year := of_nat (y div 100) * 100 + of_nat (y mod 100)\<rparr> = t"
    by (simp add: t moment_struct_def civil_zero_def year_word)
  moreover have "fields_in_range t (is_leap_year (of_nat (y div 100)) (of_nat (y mod 100)))"
    using moment_in_range [OF y(2) p [THEN is_pair_less]] v t by simp
  ultimately show ?l using y c i by (simp add: read_body_def Let_def)
qed

fun in_window :: "moment \<Rightarrow> bool" where
  "in_window ((y, m, d), h, mi, s) \<longleftrightarrow> 1950 \<le> y \<and> y < 10000"

lemma list13: "length c = 13 \<Longrightarrow> c = [c ! 0, c ! 1, c ! 2, c ! 3, c ! 4, c ! 5, c ! 6, c ! 7, c ! 8, c ! 9, c ! 10, c ! 11, c ! 12]"
  by (subst map_nth [symmetric]) (simp add: upt_rec eval_nat_numeral)

lemma list15: "length c = 15 \<Longrightarrow> c = [c ! 0, c ! 1, c ! 2, c ! 3, c ! 4, c ! 5, c ! 6, c ! 7, c ! 8, c ! 9, c ! 10, c ! 11, c ! 12, c ! 13, c ! 14]"
  by (subst map_nth [symmetric]) (simp add: upt_rec eval_nat_numeral)

lemma valid_less:
  assumes "valid_time ((y, m, d), h, mi, s)"
  shows "m < 100" "d < 100" "h < 100" "mi < 100" "s < 100"
  using assms days_in_month_bounds(2) [of y m] by simp_all

lemma time_text_utc:
  assumes "valid_time ((y, m, d), h, mi, s)" "1950 \<le> y" "y < 2050"
  shows "[c0, c1, c2, c3, c4, c5, c6, c7, c8, c9, c10, c11, c12] = time_text ((y, m, d), h, mi, s) \<longleftrightarrow>
    is_pair c0 c1 (y mod 100) \<and> is_pair c2 c3 m \<and> is_pair c4 c5 d \<and> is_pair c6 c7 h \<and> is_pair c8 c9 mi \<and> is_pair c10 c11 s \<and> c12 = 0x5a"
  using valid_less [OF assms(1)] assms(2,3) by (simp add: digits2_def is_pair_def)

lemma time_text_gen:
  assumes "valid_time ((y, m, d), h, mi, s)" "2050 \<le> y" "y < 10000"
  shows "[c0, c1, c2, c3, c4, c5, c6, c7, c8, c9, c10, c11, c12, c13, c14] = time_text ((y, m, d), h, mi, s) \<longleftrightarrow>
    is_pair c0 c1 (y div 100) \<and> is_pair c2 c3 (y mod 100) \<and> is_pair c4 c5 m \<and> is_pair c6 c7 d \<and> is_pair c8 c9 h \<and>
    is_pair c10 c11 mi \<and> is_pair c12 c13 s \<and> c14 = 0x5a"
  using valid_less [OF assms(1)] assms(2,3) less_mult_imp_div_less [of y 100 100] by (simp add: digits2_def is_pair_def)

lemma year_inject:
  assumes "(of_nat (y div 100) :: u32) = of_nat (z div 100)" "(of_nat (y mod 100) :: u32) = of_nat (z mod 100)" "y < 10000" "z < 10000"
  shows "y = z"
proof -
  have inj: "a = b" if "(of_nat a :: u32) = of_nat b" "a < 10000" "b < 10000" for a b
  proof -
    have "a < 2 ^ 32" "b < 2 ^ 32" using that(2,3) by simp_all
    then show ?thesis using that(1) by (metis unat_u32)
  qed
  have "x div 100 < 10000" "x mod 100 < 10000" if "x < 10000" for x :: nat using that by simp_all
  then have "y div 100 = z div 100" "y mod 100 = z mod 100" using assms by (blast intro: inj)+
  then show ?thesis by (metis div_mult_mod_eq)
qed

lemma read_year_digits:
  assumes "y < 10000"
  shows "read_year c 13 = Some (of_nat (y div 100), of_nat (y mod 100)) \<longleftrightarrow> 1950 \<le> y \<and> y < 2050 \<and> is_pair (c ! 0) (c ! 1) (y mod 100)"
    and "read_year c 15 = Some (of_nat (y div 100), of_nat (y mod 100)) \<longleftrightarrow>
      2050 \<le> y \<and> is_pair (c ! 0) (c ! 1) (y div 100) \<and> is_pair (c ! 2) (c ! 3) (y mod 100)"
  unfolding read_year_utc read_year_gen using assms by (auto dest: year_inject)

lemma read_body_utc:
  assumes "length c = 13"
  shows "read_body c 13 = Some t \<longleftrightarrow>
    (\<exists>tm. valid_time tm \<and> in_window tm \<and> time_tag tm = 0x17 \<and> c = time_text tm \<and> t = moment_struct tm)"
proof -
  have c: "c = time_text ((y, m, d), h, mi, s) \<longleftrightarrow> is_pair (c ! 0) (c ! 1) (y mod 100) \<and> is_pair (c ! 2) (c ! 3) m \<and> is_pair (c ! 4) (c ! 5) d \<and>
      is_pair (c ! 6) (c ! 7) h \<and> is_pair (c ! 8) (c ! 9) mi \<and> is_pair (c ! 10) (c ! 11) s \<and> c ! 12 = 0x5a"
    if "valid_time ((y, m, d), h, mi, s)" "1950 \<le> y" "y < 2050" for y m d h mi s
    using assms by (subst list13 [of c]) (simp_all only: time_text_utc [OF that])
  have "read_body c 13 = Some t \<longleftrightarrow> (\<exists>y m d h mi s. 1950 \<le> y \<and> y < 2050 \<and> valid_time ((y, m, d), h, mi, s) \<and>
      c = time_text ((y, m, d), h, mi, s) \<and> t = moment_struct ((y, m, d), h, mi, s))"
    by (subst read_body_iff, simp)
      (intro iff_exI, simp add: read_year_digits c conj_ac cong: conj_cong del: valid_time.simps time_text.simps)
  also have "\<dots> \<longleftrightarrow> (\<exists>tm. valid_time tm \<and> in_window tm \<and> time_tag tm = 0x17 \<and> c = time_text tm \<and> t = moment_struct tm)"
    unfolding split_paired_Ex by (intro iff_exI) (auto simp del: valid_time.simps time_text.simps)
  finally show ?thesis .
qed

lemma read_body_gen:
  assumes "length c = 15"
  shows "read_body c 15 = Some t \<longleftrightarrow>
    (\<exists>tm. valid_time tm \<and> in_window tm \<and> time_tag tm = 0x18 \<and> c = time_text tm \<and> t = moment_struct tm)"
proof -
  have c: "c = time_text ((y, m, d), h, mi, s) \<longleftrightarrow> is_pair (c ! 0) (c ! 1) (y div 100) \<and> is_pair (c ! 2) (c ! 3) (y mod 100) \<and>
      is_pair (c ! 4) (c ! 5) m \<and> is_pair (c ! 6) (c ! 7) d \<and> is_pair (c ! 8) (c ! 9) h \<and> is_pair (c ! 10) (c ! 11) mi \<and>
      is_pair (c ! 12) (c ! 13) s \<and> c ! 14 = 0x5a"
    if "valid_time ((y, m, d), h, mi, s)" "2050 \<le> y" "y < 10000" for y m d h mi s
    using assms by (subst list15 [of c]) (simp_all only: time_text_gen [OF that])
  have "read_body c 15 = Some t \<longleftrightarrow> (\<exists>y m d h mi s. 2050 \<le> y \<and> y < 10000 \<and> valid_time ((y, m, d), h, mi, s) \<and>
      c = time_text ((y, m, d), h, mi, s) \<and> t = moment_struct ((y, m, d), h, mi, s))"
    by (subst read_body_iff, simp)
      (intro iff_exI, simp add: read_year_digits c conj_ac cong: conj_cong del: valid_time.simps time_text.simps)
  also have "\<dots> \<longleftrightarrow> (\<exists>tm. valid_time tm \<and> in_window tm \<and> time_tag tm = 0x18 \<and> c = time_text tm \<and> t = moment_struct tm)"
    unfolding split_paired_Ex by (intro iff_exI) (auto simp del: valid_time.simps time_text.simps)
  finally show ?thesis .
qed

lemma length_time_text: "length (time_text tm) = (if time_tag tm = 0x17 then 13 else 15)"
  by (cases tm rule: time_text.cases) (simp add: digits2_def)

lemma time_tags: "time_tag tm = 0x17 \<or> time_tag tm = 0x18"
  by (cases tm rule: time_text.cases) simp

lemma pack_moment:
  assumes "valid_time tm" "in_window tm"
  shows "pack (moment_struct tm) = of_nat (time_num tm)"
proof (cases tm rule: time_text.cases)
  case (1 y m d h mi s)
  have u: "ucast (of_nat n :: u32) = (of_nat n :: u64)" if "n < 10000" for n
    using that by (simp add: word_unat_eq_iff unat_ucast_up unat_of_nat take_bit_nat_eq_self)
  show ?thesis using assms valid_less [of y m d h mi s] 1 by (simp add: pack_def moment_struct_def u algebra_simps)
qed

lemma read_time_header:
  assumes "\<not> rb_err (snd (rb_u8 r))"
  shows "webpki_read_time r =
     (let tag = fst (rb_u8 r); body_len = (if tag = 0x17 then 13 else 15); (len, r') = x509_read_header r tag
      in if tag \<noteq> 0x17 \<and> tag \<noteq> 0x18 then (None, snd (rb_u8 r))
         else if len \<noteq> Some body_len then (None, r')
         else let (c, r'') = rb_bytes r' body_len
              in (case c of None \<Rightarrow> None | Some c \<Rightarrow> map_option pack (read_body c body_len), r''))"
  using assms by (simp add: webpki_read_time_def x509_read_header_def Let_def case_prod_beta split: option.splits)

lemma read_time_exact:
  assumes "rb_wf r" and "rb_view r = Some bs"
  shows "(fst (webpki_read_time r) = Some v \<longleftrightarrow>
      (\<exists>tm rest. valid_time tm \<and> in_window tm \<and> bs = der_tlv (time_tag tm) (time_text tm) @ rest \<and> v = of_nat (time_num tm))) \<and>
    (fst (webpki_read_time r) = Some v \<longrightarrow> rb_wf (snd (webpki_read_time r)) \<and>
      (\<exists>tm rest. bs = der_tlv (time_tag tm) (time_text tm) @ rest \<and> rb_view (snd (webpki_read_time r)) = Some rest))"
proof -
  define tag where "tag = fst (rb_u8 r)"
  have tag: "tag = (case bs of [] \<Rightarrow> 0 | b # _ \<Rightarrow> b)" using assms by (simp add: tag_def rb_laws split: list.splits)
  have first: "tag = time_tag tm" if "bs = der_tlv (time_tag tm) (time_text tm) @ rest" for tm rest
    using that tag by (simp add: der_tlv_def)
  show ?thesis
  proof (cases "tag = 0x17 \<or> tag = 0x18")
    case False
    then have none: "fst (webpki_read_time r) = None"
      by (simp add: webpki_read_time_def Let_def case_prod_beta tag_def [symmetric])
    have "bs \<noteq> der_tlv (time_tag tm) (time_text tm) @ rest" for tm rest using False first [of tm rest] time_tags [of tm] by auto
    then show ?thesis using none by simp
  next
    case True
    let ?n = "if tag = 0x17 then 13 else 15 :: nat"
    have "\<not> rb_err (snd (rb_u8 r))" using assms True tag by (auto simp: rb_err_view rb_laws split: list.splits)
    note read_time_header = read_time_header [OF this]
    show ?thesis using assms
    proof (cases rule: header_cases [where tag = tag])
      case none
      then have fail: "fst (webpki_read_time r) = None"
        by (simp add: read_time_header Let_def case_prod_beta tag_def [symmetric])
      have "length (time_text tm) < 65536" for tm by (simp add: length_time_text)
      then have "bs \<noteq> der_tlv (time_tag tm) (time_text tm) @ rest" for tm rest using none(2) first by blast
      then show ?thesis using fail by simp
    next
      case (some c rest)
      have eq: "c = time_text tm \<and> rest = rest'" if "bs = der_tlv (time_tag tm) (time_text tm) @ rest'" for tm rest'
        using that some(2,3) first [OF that] der_tlv_inject [of c "time_text tm" tag rest rest'] length_time_text [of tm] by simp
      show ?thesis
      proof (cases "length c = ?n")
        case False
        then have fail: "fst (webpki_read_time r) = None"
          using True some by (simp add: read_time_header Let_def case_prod_beta tag_def [symmetric])
        have "bs \<noteq> der_tlv (time_tag tm) (time_text tm) @ rest" for tm rest
          using False eq [of tm rest] first [of tm rest] length_time_text [of tm] by auto
        then show ?thesis using fail by simp
      next
        case len: True
        then have rd: "webpki_read_time r = (map_option pack (read_body c ?n), snd (rb_bytes (snd (x509_read_header r tag)) ?n))"
          using True some by (auto simp: read_time_header Let_def case_prod_beta tag_def [symmetric] rb_laws)
        have body: "read_body c ?n = Some t \<longleftrightarrow>
            (\<exists>tm. valid_time tm \<and> in_window tm \<and> time_tag tm = tag \<and> c = time_text tm \<and> t = moment_struct tm)" for t
          using True read_body_utc [of c t] read_body_gen [of c t] len by (cases "tag = 0x17") simp_all
        have "fst (webpki_read_time r) = Some v \<longleftrightarrow>
            (\<exists>tm. valid_time tm \<and> in_window tm \<and> time_tag tm = tag \<and> c = time_text tm \<and> v = of_nat (time_num tm))"
          unfolding rd fst_conv map_option_eq_Some body using pack_moment by metis
        moreover have "rb_wf (snd (webpki_read_time r))" "rb_view (snd (webpki_read_time r)) = Some rest"
          using some len unfolding rd by (simp_all add: rb_laws)
        ultimately show ?thesis using some(2) eq first by metis
      qed
    qed
  qed
qed

subsection \<open>The caller's clock\<close>

lemma second_of_day_word:
  assumes "r < 86400"
  shows "(of_nat r :: u32) div 3600 = of_nat (r div 3600)"
    and "(of_nat r :: u32) - of_nat (r div 3600) * 3600 = of_nat (r mod 3600)"
    and "(of_nat (r mod 3600) :: u32) div 60 = of_nat (r mod 3600 div 60)"
    and "(of_nat (r mod 3600) :: u32) - of_nat (r mod 3600 div 60) * 60 = of_nat (r mod 60)"
proof -
  have m: "of_nat n - of_nat (n div k) * of_nat k = (of_nat (n mod k) :: u32)" for n k
  proof -
    have "of_nat n = (of_nat (n div k * k + n mod k) :: u32)" by simp
    also have "\<dots> = of_nat (n div k) * of_nat k + of_nat (n mod k)" by (simp only: of_nat_add of_nat_mult)
    finally show ?thesis by simp
  qed
  show "(of_nat r :: u32) div 3600 = of_nat (r div 3600)" "(of_nat (r mod 3600) :: u32) div 60 = of_nat (r mod 3600 div 60)"
    using assms by (simp_all add: word_div_of_nat less_trans [OF mod_less_divisor])
  show "(of_nat r :: u32) - of_nat (r div 3600) * 3600 = of_nat (r mod 3600)" using m [of r 3600] by simp
  have "r mod 3600 mod 60 = r mod 60" by (simp add: mod_mod_cancel)
  then show "(of_nat (r mod 3600) :: u32) - of_nat (r mod 3600 div 60) * 60 = of_nat (r mod 60)"
    using m [of "r mod 3600" 60] by simp
qed

lemma time_of_second_valid: "valid_time (time_of_second n)"
  by (simp add: time_of_second_def date_of_day_valid less_mult_imp_div_less)

lemma time_of_second_window: "n \<le> 253402300799 \<Longrightarrow> in_window (time_of_second n)"
proof -
  assume "n \<le> 253402300799"
  then have "n div 86400 \<le> 2932896" using div_le_mono [of n 253402300799 86400] by simp
  moreover have "date_num (date_of_day 0) \<le> date_num (date_of_day (n div 86400))"
    using date_of_day_mono [of 0 "n div 86400"] by (cases "n div 86400 = 0") simp_all
  ultimately show ?thesis
    using date_of_day_bound [of "n div 86400"] date_of_day_valid [of "n div 86400"]
    by (cases "date_of_day (n div 86400)") (auto simp: time_of_second_def dest: order_trans [OF _ days_in_month_bounds(2)])
qed

lemma pack_seconds_value:
  assumes "unat now \<le> 253402300799"
  shows "webpki_pack_seconds now = of_nat (time_num (time_of_second (unat now)))"
proof -
  define n where "n = unat now"
  have now: "now = of_nat n" "n \<le> 253402300799" using assms by (simp_all add: n_def)
  have "\<not> now > 253402300799" using assms by (simp add: word_less_nat_alt)
  moreover have "ucast (now div 86400) = (of_nat (n div 86400) :: u32)" "ucast (now mod 86400) = (of_nat (n mod 86400) :: u32)"
    by (simp_all add: word_arith_nat_div word_arith_nat_mod n_def unat_ucast_mod word_unat_eq_iff unat_of_nat mod_mod_cancel)
  moreover have "n div 86400 \<le> 2932896" using div_le_mono [OF now(2), of 86400] by simp
  moreover obtain y m d where d: "date_of_day (n div 86400) = (y, m, d)" by (metis prod_cases3)
  ultimately have "webpki_pack_seconds now = pack (moment_struct (time_of_second n))"
    using second_of_day_word [of "n mod 86400"]
    by (simp add: webpki_pack_seconds_def Let_def civil_from_days_date [OF _ d] moment_struct_def civil_zero_def time_of_second_def)
  then show ?thesis
    using pack_moment [OF time_of_second_valid time_of_second_window [OF now(2)]] by (simp add: n_def)
qed

definition clock_num :: "nat \<Rightarrow> nat" where
  "clock_num r = r div 3600 * 10000 + r mod 3600 div 60 * 100 + r mod 60"

lemma clock_num_eq: "clock_num r = r + 40 * (r div 60) + 4000 * (r div 3600)"
proof -
  have "r mod 3600 div 60 + r div 3600 * 60 = r div 60"
    using div_mult2_eq [of r 60 60] mod_mult2_eq [of r 60 60] by (simp add: algebra_simps)
  moreover have "r = r div 60 * 60 + r mod 60" by simp
  ultimately show ?thesis unfolding clock_num_def by linarith
qed

lemma clock_num_mono: "i < j \<Longrightarrow> clock_num i < clock_num j"
  using div_le_mono [of i j 60] div_le_mono [of i j 3600] by (simp add: clock_num_eq)

lemma clock_num_less: "r < 86400 \<Longrightarrow> clock_num r < 1000000"
  using clock_num_mono [of r 86400] by (simp add: clock_num_def)

lemma time_num_split: "time_num (time_of_second n) = date_num (date_of_day (n div 86400)) * 1000000 + clock_num (n mod 86400)"
  by (simp add: time_of_second_def clock_num_def mod_mod_cancel)

lemma time_num_mono: "i < j \<Longrightarrow> time_num (time_of_second i) < time_num (time_of_second j)"
proof (cases "i div 86400 = j div 86400")
  case True
  assume "i < j"
  then have "i mod 86400 < j mod 86400" using True div_mult_mod_eq [of i 86400] div_mult_mod_eq [of j 86400] by linarith
  then show ?thesis using True clock_num_mono by (simp add: time_num_split)
next
  case False
  assume "i < j"
  then have "i div 86400 < j div 86400" using False div_le_mono [of i j 86400] by simp
  then have "Suc (date_num (date_of_day (i div 86400))) \<le> date_num (date_of_day (j div 86400))"
    using date_of_day_mono by (simp add: Suc_le_eq)
  then have "Suc (date_num (date_of_day (i div 86400))) * 1000000 \<le> date_num (date_of_day (j div 86400)) * 1000000" by simp
  then show ?thesis using clock_num_less [of "i mod 86400"] by (simp add: time_num_split)
qed

lemma time_num_le: "time_num (time_of_second i) \<le> time_num (time_of_second j) \<longleftrightarrow> i \<le> j"
  using time_num_mono [of i j] time_num_mono [of j i] by (metis le_less_linear less_imp_le nat_less_le not_less)

lemma time_num_bound:
  assumes "valid_time tm" "in_window tm"
  shows "time_num tm < 2 ^ 64"
proof (cases tm rule: time_text.cases)
  case (1 y m d h mi s)
  show ?thesis using assms valid_less [of y m d h mi s] 1 by simp
qed

lemma pack_seconds_num: "unat (webpki_pack_seconds now) = time_num (time_of_second (min (unat now) 253402300799))"
proof -
  let ?n = "min (unat now) 253402300799"
  have e: "webpki_pack_seconds now = webpki_pack_seconds (of_nat ?n)"
    by (cases "unat now \<le> 253402300799") (simp_all add: webpki_pack_seconds_def word_less_nat_alt min_def)
  have n: "unat (of_nat ?n :: u64) = ?n" by (simp add: unat_of_nat take_bit_nat_eq_self)
  have "webpki_pack_seconds now = of_nat (time_num (time_of_second ?n))"
    unfolding e by (subst pack_seconds_value) (simp_all add: n)
  moreover have "time_num (time_of_second ?n) < 2 ^ 64" by (intro time_num_bound time_of_second_valid time_of_second_window) simp
  ultimately show ?thesis by (simp add: unat_of_nat take_bit_nat_eq_self)
qed

section \<open>Properties\<close>

text \<open>C37: The caller's clock is packed as the Gregorian date and time of its second, the calendar being counted a day at a time from
  1 January 1970 with its leap years; a clock past 31 December 9999 is the last second of that day.\<close>

theorem webpki_pack_seconds_calendar:
  "unat (webpki_pack_seconds now) = time_num (time_of_second (min (unat now) 253402300799))"
  by (rule pack_seconds_num)

text \<open>C36: A Time is taken exactly when its bytes are the one encoding RFC 5280 gives a calendar date and time of day: UTCTime for
  the years 1950 to 2049, GeneralizedTime from 2050 to 9999, every field two digits within its range, the day within its month, \<open>Z\<close> last.
  The value is the decimal number of the fields, and the reader stands behind the Time.\<close>

theorem webpki_read_time_exact:
  assumes "rb_wf r" and "rb_view r = Some bs"
  shows "(fst (webpki_read_time r) = Some v \<longleftrightarrow>
      (\<exists>tm rest. valid_time tm \<and> in_window tm \<and> bs = der_tlv (time_tag tm) (time_text tm) @ rest \<and> v = of_nat (time_num tm))) \<and>
    (fst (webpki_read_time r) = Some v \<longrightarrow> rb_wf (snd (webpki_read_time r)) \<and>
      (\<exists>tm rest. bs = der_tlv (time_tag tm) (time_text tm) @ rest \<and> rb_view (snd (webpki_read_time r)) = Some rest))"
  using assms by (rule read_time_exact)

theorem webpki_read_time_exact_witness:
  "let bs = 0x17 # 13 # ascii ''240229120000Z'' @ [7] in fst (webpki_read_time (rb_init bs (length bs))) = Some 20240229120000"
proof -
  let ?bs = "0x17 # 13 # ascii ''240229120000Z'' @ [7]" and ?tm = "((2024, 2, 29), 12, 0, 0) :: moment"
  have "?bs = der_tlv (time_tag ?tm) (time_text ?tm) @ [7]" by (simp add: der_tlv_def der_len_def digits2_def ascii_def)
  moreover have "valid_time ?tm" "in_window ?tm" "20240229120000 = (of_nat (time_num ?tm) :: u64)"
    by (simp_all add: days_in_month_def leap_def)
  ultimately have "fst (webpki_read_time (rb_init ?bs (length ?bs))) = Some 20240229120000"
    using webpki_read_time_exact [OF rb_init_full, of ?bs 20240229120000] by blast
  then show ?thesis by (simp only: Let_def)
qed

text \<open>C35: Comparing packed times compares instants: the Time that encodes the second \<open>n\<close> is read as a value at most the packed clock
  exactly when \<open>n\<close> is at most the clock, and at least the packed clock exactly when the clock, cut off at the end of 9999, is at most \<open>n\<close>.\<close>

theorem webpki_time_order:
  assumes "rb_wf r" and "rb_view r = Some (der_tlv (time_tag (time_of_second n)) (time_text (time_of_second n)) @ rest)"
    and "n \<le> 253402300799"
  shows "\<exists>t. fst (webpki_read_time r) = Some t \<and> (t \<le> webpki_pack_seconds now \<longleftrightarrow> n \<le> unat now) \<and>
    (webpki_pack_seconds now \<le> t \<longleftrightarrow> min (unat now) 253402300799 \<le> n)"
proof (intro exI conjI)
  let ?t = "of_nat (time_num (time_of_second n)) :: u64"
  have tm: "valid_time (time_of_second n)" "in_window (time_of_second n)"
    using time_of_second_valid time_of_second_window [OF assms(3)] by simp_all
  then show "fst (webpki_read_time r) = Some ?t" using read_time_exact [OF assms(1,2)] by blast
  have "unat ?t = time_num (time_of_second n)" using time_num_bound [OF tm] by (simp add: unat_of_nat take_bit_nat_eq_self)
  then show "?t \<le> webpki_pack_seconds now \<longleftrightarrow> n \<le> unat now" "webpki_pack_seconds now \<le> ?t \<longleftrightarrow> min (unat now) 253402300799 \<le> n"
    using assms(3) by (simp_all add: word_le_nat_alt pack_seconds_num time_num_le)
qed

theorem webpki_time_order_witness:
  "let bs = der_tlv 0x17 (ascii ''700101000001Z'') in
     \<exists>t. fst (webpki_read_time (rb_init bs (length bs))) = Some t \<and> t \<le> webpki_pack_seconds 1 \<and> \<not> t \<le> webpki_pack_seconds 0"
proof -
  have e: "der_tlv (time_tag (time_of_second 1)) (time_text (time_of_second 1)) @ [] = der_tlv 0x17 (ascii ''700101000001Z'')"
    by (simp add: time_of_second_def digits2_def ascii_def)
  let ?r = "rb_init (der_tlv 0x17 (ascii ''700101000001Z'')) (length (der_tlv 0x17 (ascii ''700101000001Z'')))"
  have "rb_view ?r = Some (der_tlv (time_tag (time_of_second 1)) (time_text (time_of_second 1)) @ [])"
    unfolding e by (rule rb_init_full)
  then show ?thesis
    using webpki_time_order [OF rb_init_full(1), of _ 1 "[]" 0] webpki_time_order [OF rb_init_full(1), of _ 1 "[]" 1] by force
qed

end
