(* ===== verification/Webpki_Name.thy ===== *)
theory Webpki_Name
  imports Der
begin

text \<open>
  Host names of the web PKI mode, \<open>src/webpki_name.c\<close>: the shape check on the caller's name and its match against
  the dNSName entries of a certificate's subjectAltName.  A name is the list of its bytes; \<open>host_len\<close> is the length of the list.
\<close>

section \<open>Model\<close>

definition LABEL_MAX :: nat where
  "LABEL_MAX = 63"

definition CH_HOSTNAME_MAX :: nat where
  "CH_HOSTNAME_MAX = 253"

definition is_letter :: "u8 \<Rightarrow> bool" where
  "is_letter c \<longleftrightarrow> (c \<ge> 65 \<and> c \<le> 90) \<or> (c \<ge> 97 \<and> c \<le> 122)"

definition is_digit :: "u8 \<Rightarrow> bool" where
  "is_digit c \<longleftrightarrow> c \<ge> 48 \<and> c \<le> 57"

definition is_hostname_byte :: "u8 \<Rightarrow> bool" where
  "is_hostname_byte c \<longleftrightarrow> is_letter c \<or> is_digit c \<or> c = 46 \<or> c = 45"

text \<open>The loop of \<open>labels_ok\<close> from the bytes still to see, with the length of the label seen so far.\<close>

fun labels_loop :: "bytes \<Rightarrow> nat \<Rightarrow> bool" where
  "labels_loop [] run = (run \<ge> 1 \<and> run \<le> LABEL_MAX)"
| "labels_loop (c # host) run =
     (if c \<noteq> 46 then labels_loop host (run + 1)
      else if run < 1 \<or> run > LABEL_MAX then False
      else labels_loop host 0)"

definition labels_ok :: "bytes \<Rightarrow> bool" where
  "labels_ok host = labels_loop host 0"

definition label_edges_ok :: "bytes \<Rightarrow> bool" where
  "label_edges_ok host =
     list_all (\<lambda>i. if host ! i \<noteq> 45 then True
        else \<not> (i = 0 \<or> i = length host - 1 \<or> host ! (i - 1) = 46 \<or> host ! (i + 1) = 46)) [0..<length host]"

fun last_digits_loop :: "bytes \<Rightarrow> nat \<Rightarrow> bool" where
  "last_digits_loop host 0 = True"
| "last_digits_loop host (Suc i) =
     (if host ! i = 46 then True else if \<not> is_digit (host ! i) then False else last_digits_loop host i)"

definition last_label_all_digits :: "bytes \<Rightarrow> bool" where
  "last_label_all_digits host = last_digits_loop host (length host)"

definition webpki_hostname_ok :: "bytes \<Rightarrow> bool" where
  "webpki_hostname_ok host =
     (if length host < 1 \<or> length host > CH_HOSTNAME_MAX then False
      else if \<not> list_all is_hostname_byte host then False
      else labels_ok host \<and> label_edges_ok host \<and> \<not> last_label_all_digits host)"

definition ascii_lower :: "u8 \<Rightarrow> u8" where
  "ascii_lower c = (if c \<ge> 65 \<and> c \<le> 90 then c + (97 - 65) else c)"

definition names_equal :: "bytes \<Rightarrow> bytes \<Rightarrow> nat \<Rightarrow> bool" where
  "names_equal a b n = list_all (\<lambda>i. ascii_lower (a ! i) = ascii_lower (b ! i)) [0..<n]"

fun first_label_len :: "bytes \<Rightarrow> nat" where
  "first_label_len [] = 0"
| "first_label_len (c # name) = (if c \<noteq> 46 then first_label_len name + 1 else 0)"

definition match_wildcard :: "bytes \<Rightarrow> bytes \<Rightarrow> bool" where
  "match_wildcard suffix host =
     (let first = first_label_len host
      in if first = length host then False
         else
           let rest = drop (first + 1) host; rest_len = length host - first - 1
           in if rest_len \<noteq> length suffix \<or> \<not> names_equal suffix rest (length suffix) then False
              else first_label_len rest \<noteq> rest_len)"

definition match_dns_name :: "bytes \<Rightarrow> bytes \<Rightarrow> bool" where
  "match_dns_name name host =
     (if length name \<ge> 2 \<and> name ! 0 = 42 \<and> name ! 1 = 46 then match_wildcard (drop 2 name) host
      else length name = length host \<and> names_equal name host (length host))"

definition is_general_name_tag :: "u8 \<Rightarrow> bool" where
  "is_general_name_tag tag \<longleftrightarrow> tag = 0xa0 \<or> tag = 0x81 \<or> tag = 0x82 \<or> tag = 0xa3 \<or> tag = 0xa4 \<or> tag = 0xa5 \<or>
     tag = 0x86 \<or> tag = 0x87 \<or> tag = 0x88"

text \<open>One entry; \<open>None\<close> on a malformed one, the new \<open>matched\<close> otherwise.\<close>

definition read_entry :: "rbuf \<Rightarrow> bytes \<Rightarrow> bool \<Rightarrow> bool option \<times> rbuf" where
  "read_entry r host matched =
     (let (tag, r) = rb_u8 r
      in if \<not> is_general_name_tag tag then (None, r)
         else case x509_read_len r of
             (None, r) \<Rightarrow> (None, r)
           | (Some len, r) \<Rightarrow>
               (case rb_bytes r len of
                  (None, r) \<Rightarrow> (None, r)
                | (Some content, r) \<Rightarrow>
                    (Some (if tag = 0x82 \<and> match_dns_name content host then True else matched), r)))"

lemma rb_left_calls: "rb_left (snd (rb_u8 r)) \<le> rb_left r" "rb_left (snd (rb_bytes r n)) \<le> rb_left r"
  by (auto simp: rb_u8_def rb_bytes_def rb_left_def rb_have_def size_sub_def)

lemma x509_read_len_left: "rb_left (snd (x509_read_len r)) \<le> rb_left r"
  unfolding x509_read_len_def
  by (auto simp: Let_def case_prod_beta intro: order_trans [OF rb_left_calls(1)] rb_left_calls)

lemma read_entry_left: "rb_left r \<noteq> 0 \<Longrightarrow> rb_left (snd (read_entry r host matched)) < rb_left r"
proof -
  assume "rb_left r \<noteq> 0"
  then have less: "rb_left (snd (rb_u8 r)) < rb_left r" using rb_u8_left [of r "fst (rb_u8 r)" "snd (rb_u8 r)"] by simp
  then have len: "rb_left (snd (x509_read_len (snd (rb_u8 r)))) < rb_left r" using x509_read_len_left le_less_trans by blast
  then have "rb_left (snd (rb_bytes (snd (x509_read_len (snd (rb_u8 r)))) n)) < rb_left r" for n
    using rb_left_calls(2) le_less_trans by blast
  with less len show ?thesis by (simp add: read_entry_def Let_def case_prod_beta split: option.split)
qed

function san_loop :: "rbuf \<Rightarrow> bytes \<Rightarrow> bool \<Rightarrow> bool" where
  "san_loop r host matched =
     (if rb_left r > 0 then
        (case read_entry r host matched of (None, r) \<Rightarrow> False | (Some matched, r) \<Rightarrow> san_loop r host matched)
      else matched)"
  by pat_completeness auto

termination
  by (relation "measure (\<lambda>(r, _). rb_left r)") (auto simp: prod_eq_iff read_entry_left)

declare san_loop.simps [simp del]

definition webpki_match_san :: "bytes \<Rightarrow> bytes \<Rightarrow> bool" where
  "webpki_match_san san host =
     (let r = rb_init san (length san); (seq_len, r) = x509_read_header r 0x30
      in case seq_len of
           None \<Rightarrow> False
         | Some seq_len \<Rightarrow> if seq_len \<noteq> rb_left r then False else san_loop r host False)"

subsection \<open>Specification\<close>

text \<open>The labels of a name: its bytes between the dots.\<close>

fun labels :: "bytes \<Rightarrow> bytes list" where
  "labels [] = [[]]"
| "labels (c # name) = (if c = 46 then [] # labels name else (c # hd (labels name)) # tl (labels name))"

fun join :: "bytes list \<Rightarrow> bytes" where
  "join [] = []"
| "join [l] = l"
| "join (l # ls) = l @ 46 # join ls"

definition fold_case :: "bytes list \<Rightarrow> bytes list" where
  "fold_case = map (map ascii_lower)"

definition label_ok :: "bytes \<Rightarrow> bool" where
  "label_ok l \<longleftrightarrow> 1 \<le> length l \<and> length l \<le> 63 \<and> hd l \<noteq> 45 \<and> last l \<noteq> 45"

text \<open>A presented name whose first label is \<open>*\<close> stands for every host with one label in its place, if two labels or more follow;
  any other name stands for itself, letters of either case being the same.\<close>

definition dns_match :: "bytes \<Rightarrow> bytes \<Rightarrow> bool" where
  "dns_match name host \<longleftrightarrow>
     (if hd (labels name) = [42] \<and> tl (labels name) \<noteq> []
      then 2 \<le> length (tl (labels name)) \<and> tl (fold_case (labels host)) = tl (fold_case (labels name))
      else fold_case (labels host) = fold_case (labels name))"

definition general_names :: "(u8 \<times> bytes) list \<Rightarrow> bytes" where
  "general_names es = concat (map (\<lambda>e. der_tlv (fst e) (snd e)) es)"

definition entry_ok :: "u8 \<times> bytes \<Rightarrow> bool" where
  "entry_ok e \<longleftrightarrow> is_general_name_tag (fst e) \<and> length (snd e) < 65536"

section \<open>Labels\<close>

lemma labels_not_Nil [simp]: "labels name \<noteq> []"
  by (cases name) simp_all

lemma hd_tl_labels [simp]: "hd (labels name) # tl (labels name) = labels name"
  by simp

lemma join_labels [simp]: "join (labels name) = name"
proof (induction name)
  case (Cons c name)
  then show ?case by (cases "labels name"; cases "tl (labels name)") auto
qed simp

lemma labels_inject: "labels a = labels b \<longleftrightarrow> a = b"
  by (metis join_labels)

lemma labels_no_dot: "46 \<notin> set name \<Longrightarrow> labels name = [name]"
  by (induction name) auto

lemma labels_dot: "46 \<in> set name \<longleftrightarrow> tl (labels name) \<noteq> []"
  by (induction name) auto

lemma labels_first: "46 \<notin> set l \<Longrightarrow> labels (l @ 46 # rest) = l # labels rest"
  by (induction l) auto

lemma first_label: "first_label_len name = length (hd (labels name))"
  by (induction name) auto

lemma first_label_take: "hd (labels name) = takeWhile ((\<noteq>) 46) name"
  by (induction name) auto

lemma labels_drop: "46 \<in> set name \<Longrightarrow> labels (drop (first_label_len name + 1) name) = tl (labels name)"
  by (induction name) auto

lemma last_label: "last (labels name) = rev (takeWhile ((\<noteq>) 46) (rev name))"
proof (induction name)
  case (Cons c name)
  show ?case
  proof (cases "46 \<in> set name")
    case True
    then have "tl (labels name) \<noteq> []" by (simp add: labels_dot)
    then have "last (labels (c # name)) = last (labels name)"
      by (cases "labels name") auto
    then show ?thesis using True Cons by (simp add: takeWhile_append1)
  next
    case False
    then have "takeWhile ((\<noteq>) 46) (rev name @ [c]) = rev name @ takeWhile ((\<noteq>) 46) [c]"
      by (intro takeWhile_append2) auto
    then show ?thesis using False by (simp add: labels_no_dot)
  qed
qed simp

lemma ascii_lower_dot: "ascii_lower c = 46 \<longleftrightarrow> c = 46"
proof -
  have "unat (c + 32) \<noteq> 46" if "65 \<le> c" "c \<le> 90"
    using that by (simp add: word_le_nat_alt unat_word_ariths)
  then show ?thesis by (auto simp: ascii_lower_def)
qed

lemma labels_lower: "labels (map ascii_lower name) = fold_case (labels name)"
  by (induction name) (auto simp: fold_case_def ascii_lower_dot hd_map map_tl)

section \<open>Host names\<close>

lemma labels_loop_iff:
  "labels_loop host run \<longleftrightarrow> 1 \<le> run + length (hd (labels host)) \<and> run + length (hd (labels host)) \<le> 63 \<and>
     list_all (\<lambda>l. 1 \<le> length l \<and> length l \<le> 63) (tl (labels host))"
proof (induction host run rule: labels_loop.induct)
  case (2 c host run)
  have "list_all P (labels host) \<longleftrightarrow> P (hd (labels host)) \<and> list_all P (tl (labels host))" for P
    by (cases "labels host") auto
  with 2 show ?case by (auto simp: LABEL_MAX_def)
qed (simp add: LABEL_MAX_def)

lemma labels_ok_iff: "labels_ok host \<longleftrightarrow> list_all (\<lambda>l. 1 \<le> length l \<and> length l \<le> 63) (labels host)"
  unfolding labels_ok_def labels_loop_iff by (cases "labels host") auto

fun edges :: "u8 \<Rightarrow> bytes \<Rightarrow> bool" where
  "edges p [] = True"
| "edges p (c # h) \<longleftrightarrow> (c = 45 \<longrightarrow> p \<noteq> 46 \<and> h \<noteq> [] \<and> hd h \<noteq> 46) \<and> edges c h"

lemma edges_nth:
  "edges p h \<longleftrightarrow> (\<forall>i<length h. h ! i = 45 \<longrightarrow> (if i = 0 then p else h ! (i - 1)) \<noteq> 46 \<and> i + 1 \<noteq> length h \<and> h ! (i + 1) \<noteq> 46)"
proof (induction p h rule: edges.induct)
  case (2 p c h)
  have "(\<forall>i<length (c # h). Q i) \<longleftrightarrow> Q 0 \<and> (\<forall>i<length h. Q (Suc i))" for Q by (simp add: All_less_Suc2)
  then show ?case using 2 by (cases h) (auto simp: nth_Cons split: nat.splits)
qed simp

lemma edges_labels:
  "edges p h \<longleftrightarrow> (hd (labels h) \<noteq> [] \<longrightarrow> (p = 46 \<longrightarrow> hd (hd (labels h)) \<noteq> 45) \<and> last (hd (labels h)) \<noteq> 45) \<and>
     list_all (\<lambda>l. l \<noteq> [] \<longrightarrow> hd l \<noteq> 45 \<and> last l \<noteq> 45) (tl (labels h))"
proof (induction p h rule: edges.induct)
  case (2 p c h)
  have l: "list_all P (labels h) \<longleftrightarrow> P (hd (labels h)) \<and> list_all P (tl (labels h))" for P
    by (cases "labels h") auto
  have n: "hd (labels h) = [] \<longleftrightarrow> h = [] \<or> hd h = 46" by (cases h) auto
  show ?case using 2 n by (auto simp: l)
qed simp

lemma label_edges_ok_iff: "label_edges_ok host \<longleftrightarrow> list_all (\<lambda>l. l \<noteq> [] \<longrightarrow> hd l \<noteq> 45 \<and> last l \<noteq> 45) (labels host)"
proof -
  have "(if host ! i \<noteq> 45 then True else \<not> (i = 0 \<or> i = length host - 1 \<or> host ! (i - 1) = 46 \<or> host ! (i + 1) = 46)) \<longleftrightarrow>
      (host ! i = 45 \<longrightarrow> (if i = 0 then 46 else host ! (i - 1)) \<noteq> 46 \<and> i + 1 \<noteq> length host \<and> host ! (i + 1) \<noteq> 46)"
    if "i < length host" for i using that by auto
  then have "label_edges_ok host \<longleftrightarrow> edges 46 host"
    unfolding label_edges_ok_def edges_nth list_all_iff set_upt Ball_def atLeastLessThan_iff
    by (intro iff_allI imp_cong) simp_all
  then show ?thesis unfolding edges_labels by (cases "labels host") auto
qed

lemma last_digits_loop_iff:
  "i \<le> length host \<Longrightarrow> last_digits_loop host i \<longleftrightarrow> list_all is_digit (takeWhile ((\<noteq>) 46) (rev (take i host)))"
  by (induction i) (auto simp: take_Suc_conv_app_nth)

lemma last_label_all_digits_iff: "last_label_all_digits host \<longleftrightarrow> list_all is_digit (last (labels host))"
  by (simp add: last_label_all_digits_def last_digits_loop_iff last_label)

lemma hostname_ok_iff:
  "webpki_hostname_ok host \<longleftrightarrow> 1 \<le> length host \<and> length host \<le> 253 \<and> list_all is_hostname_byte host \<and>
     list_all label_ok (labels host) \<and> \<not> list_all is_digit (last (labels host))"
proof -
  have "list_all label_ok ls \<longleftrightarrow> list_all (\<lambda>l. 1 \<le> length l \<and> length l \<le> 63) ls \<and>
      list_all (\<lambda>l. l \<noteq> [] \<longrightarrow> hd l \<noteq> 45 \<and> last l \<noteq> 45) ls" for ls
    by (induction ls) (auto simp: label_ok_def Suc_le_eq)
  then show ?thesis
    by (simp add: webpki_hostname_ok_def CH_HOSTNAME_MAX_def labels_ok_iff label_edges_ok_iff last_label_all_digits_iff not_less conj_ac)
      (auto simp: Suc_le_eq)
qed

section \<open>Matching\<close>

lemma names_equal_iff: "length a = n \<Longrightarrow> length b = n \<Longrightarrow> names_equal a b n \<longleftrightarrow> map ascii_lower a = map ascii_lower b"
  by (simp add: names_equal_def list_all_iff list_eq_iff_nth_eq [of "map ascii_lower a"] Ball_def)

lemma lower_labels: "map ascii_lower a = map ascii_lower b \<longleftrightarrow> fold_case (labels a) = fold_case (labels b)"
  by (simp only: labels_lower [symmetric] labels_inject)

lemma lower_length: "fold_case (labels a) = fold_case (labels b) \<Longrightarrow> length a = length b"
  unfolding lower_labels [symmetric] by (metis length_map)

lemma first_label_all: "first_label_len name = length name \<longleftrightarrow> 46 \<notin> set name"
proof -
  have "first_label_len name = length name \<longleftrightarrow> takeWhile ((\<noteq>) 46) name = name"
    unfolding first_label first_label_take by (metis takeWhile_eq_take take_all_iff le_refl)
  then show ?thesis by (auto simp: takeWhile_eq_all_conv)
qed

lemma match_wildcard_iff:
  "match_wildcard suffix host \<longleftrightarrow> 2 \<le> length (labels suffix) \<and> tl (fold_case (labels host)) = fold_case (labels suffix)"
proof (cases "46 \<in> set host")
  case False
  then have "labels host = [host]" by (rule labels_no_dot)
  then show ?thesis using False by (simp add: match_wildcard_def first_label_all fold_case_def)
next
  case True
  define rest where "rest = drop (first_label_len host + 1) host"
  have rest: "labels rest = tl (labels host)" unfolding rest_def using True by (rule labels_drop)
  have len: "length host - first_label_len host - 1 = length rest" by (simp add: rest_def)
  have "match_wildcard suffix host \<longleftrightarrow> length rest = length suffix \<and> names_equal suffix rest (length suffix) \<and> 46 \<in> set rest"
    using True first_label_all [of host] first_label_all [of rest]
    unfolding match_wildcard_def Let_def rest_def [symmetric] len by auto
  also have "\<dots> \<longleftrightarrow> fold_case (labels suffix) = fold_case (labels rest) \<and> 46 \<in> set rest"
    using names_equal_iff [of suffix "length suffix" rest] lower_labels [of suffix rest] lower_length [of suffix rest] by auto
  also have "46 \<in> set rest \<longleftrightarrow> 2 \<le> length (labels rest)"
    unfolding labels_dot by (cases "labels rest") (auto simp: Suc_le_eq)
  also have "fold_case (labels suffix) = fold_case (labels rest) \<and> 2 \<le> length (labels rest) \<longleftrightarrow>
      2 \<le> length (labels suffix) \<and> tl (fold_case (labels host)) = fold_case (labels suffix)"
    unfolding rest fold_case_def map_tl [symmetric] by (metis length_map)
  finally show ?thesis .
qed

lemma wildcard_labels:
  "length name \<ge> 2 \<and> name ! 0 = 42 \<and> name ! 1 = 46 \<longleftrightarrow> hd (labels name) = [42] \<and> tl (labels name) \<noteq> []"
  "length name \<ge> 2 \<Longrightarrow> name ! 0 = 42 \<Longrightarrow> name ! 1 = 46 \<Longrightarrow> labels (drop 2 name) = tl (labels name)"
  by (cases name; cases "tl name"; force split: if_splits)+

lemma match_dns_name_iff: "match_dns_name name host \<longleftrightarrow> dns_match name host"
proof (cases "length name \<ge> 2 \<and> name ! 0 = 42 \<and> name ! 1 = 46")
  case True
  then have "labels (drop 2 name) = tl (labels name)" by (intro wildcard_labels(2)) simp_all
  then show ?thesis
    using True wildcard_labels(1) [of name] by (simp add: match_dns_name_def match_wildcard_iff dns_match_def fold_case_def map_tl)
next
  case False
  then show ?thesis
    using wildcard_labels(1) [of name] names_equal_iff [of name "length host" host] lower_labels [of name host] lower_length [of name host]
    by (auto simp: match_dns_name_def dns_match_def)
qed

section \<open>The subjectAltName\<close>

lemma entry_cases [consumes 2, case_names none some]:
  assumes "rb_wf r" and "rb_view r = Some bs"
  obtains "fst (read_entry r host m) = None" "\<nexists>e rest. entry_ok e \<and> bs = der_tlv (fst e) (snd e) @ rest"
  | e rest where "fst (read_entry r host m) = Some (m \<or> fst e = 0x82 \<and> dns_match (snd e) host)" "entry_ok e"
      "bs = der_tlv (fst e) (snd e) @ rest" "rb_wf (snd (read_entry r host m))" "rb_view (snd (read_entry r host m)) = Some rest"
proof -
  define tag where "tag = fst (rb_u8 r)"
  let ?r1 = "snd (rb_u8 r)"
  have tag: "tag = (case bs of [] \<Rightarrow> 0 | b # _ \<Rightarrow> b)" using assms by (simp add: tag_def rb_laws split: list.splits)
  show ?thesis
  proof (cases "is_general_name_tag tag")
    case False
    then have "fst (read_entry r host m) = None" by (simp add: read_entry_def case_prod_beta tag_def Let_def)
    moreover have "\<nexists>e rest. entry_ok e \<and> bs = der_tlv (fst e) (snd e) @ rest"
      using False tag by (auto simp: entry_ok_def der_tlv_def)
    ultimately show ?thesis by (rule that(1))
  next
    case True
    then obtain cs where bs: "bs = tag # cs" using tag by (cases bs) (auto simp: is_general_name_tag_def)
    then have r1: "rb_wf ?r1" "rb_view ?r1 = Some cs" using assms by (simp_all add: rb_laws)
    note len = x509_read_len_parse [OF r1]
    show ?thesis
    proof (cases "\<exists>c rest. length c < 65536 \<and> cs = der_len (length c) @ c @ rest")
      case False
      then have "fst (x509_read_len ?r1) = None"
        using len len_parse_exact [of cs] by (auto split: option.splits prod.splits if_splits)
          (metis append_take_drop_id length_take min.absorb2)
      then have "fst (read_entry r host m) = None"
        using True by (simp add: read_entry_def case_prod_beta tag_def [symmetric] Let_def)
      moreover have "\<nexists>e rest. entry_ok e \<and> bs = der_tlv (fst e) (snd e) @ rest"
        using False bs by (auto simp: entry_ok_def der_tlv_def)
      ultimately show ?thesis by (rule that(1))
    next
      case inner: True
      then obtain c rest where c: "length c < 65536" "cs = der_len (length c) @ c @ rest" by blast
      then have "len_parse cs = Some (length c, c @ rest)" by (simp add: len_parse_exact)
      with len have l: "fst (x509_read_len ?r1) = Some (length c)" "rb_wf (snd (x509_read_len ?r1))"
          "rb_view (snd (x509_read_len ?r1)) = Some (c @ rest)" by simp_all
      show ?thesis
        by (rule that(2) [of "(tag, c)" rest])
          (use True c bs l in \<open>auto simp: read_entry_def case_prod_beta tag_def [symmetric] Let_def rb_laws match_dns_name_iff
             entry_ok_def der_tlv_def split: option.splits\<close>)
    qed
  qed
qed

lemma san_loop_exact:
  "rb_wf r \<Longrightarrow> rb_view r = Some bs \<Longrightarrow>
   san_loop r host m \<longleftrightarrow> (\<exists>es. bs = general_names es \<and> list_all entry_ok es \<and> (m \<or> list_ex (\<lambda>e. fst e = 0x82 \<and> dns_match (snd e) host) es))"
proof (induction r host m arbitrary: bs rule: san_loop.induct)
  case (1 r host m)
  have nil: "general_names es = [] \<longleftrightarrow> es = []" for es by (cases es) (auto simp: general_names_def der_tlv_def)
  show ?case
  proof (cases "bs = []")
    case True
    then have "rb_left r = 0" using "1.prems" by (simp add: rb_left_view)
    then have "san_loop r host m = m" by (simp add: san_loop.simps)
    moreover have "bs = general_names es \<longleftrightarrow> es = []" for es using True nil [of es] by auto
    ultimately show ?thesis by simp
  next
    case False
    then have left: "rb_left r > 0" using "1.prems" by (simp add: rb_left_view)
    have cons: "general_names (e # es) = der_tlv (fst e) (snd e) @ general_names es" for e es by (simp add: general_names_def)
    show ?thesis using "1.prems"
    proof (cases rule: entry_cases [where host = host and m = m])
      case none
      have "\<not> list_all entry_ok es" if es: "bs = general_names es" for es
      proof (cases es)
        case (Cons e' es')
        then have "bs = der_tlv (fst e') (snd e') @ general_names es'" using es cons by (simp only:)
        then show ?thesis using none(2) Cons by (auto simp del: split_paired_All split_paired_Ex)
      qed (use es False nil in simp)
      moreover have "\<not> san_loop r host m"
        using none(1) by (subst san_loop.simps) (simp add: left case_prod_beta)
      ultimately show ?thesis by blast
    next
      case (some e rest)
      let ?m = "m \<or> fst e = 0x82 \<and> dns_match (snd e) host"
      have "san_loop r host m = san_loop (snd (read_entry r host m)) host ?m"
        using some(1) left by (subst san_loop.simps) (simp add: case_prod_beta)
      also have "\<dots> \<longleftrightarrow> (\<exists>es. rest = general_names es \<and> list_all entry_ok es \<and> (?m \<or> list_ex (\<lambda>e. fst e = 0x82 \<and> dns_match (snd e) host) es))"
        by (rule "1.IH" [OF left _ _ some(4,5)]) (use some(1) in \<open>simp_all add: prod_eq_iff\<close>)
      also have "\<dots> \<longleftrightarrow> (\<exists>es. bs = general_names es \<and> list_all entry_ok es \<and> (m \<or> list_ex (\<lambda>e. fst e = 0x82 \<and> dns_match (snd e) host) es))"
        (is "?a \<longleftrightarrow> ?b")
      proof
        assume ?a
        then obtain es where "rest = general_names es" "list_all entry_ok es"
          "?m \<or> list_ex (\<lambda>e. fst e = 0x82 \<and> dns_match (snd e) host) es" by blast
        then show ?b using some(2,3) cons [of e es] by (intro exI [of _ "e # es"]) auto
      next
        assume ?b
        then obtain es where es: "bs = general_names es" "list_all entry_ok es"
          "m \<or> list_ex (\<lambda>e. fst e = 0x82 \<and> dns_match (snd e) host) es" by blast
        then obtain e' es' where [simp]: "es = e' # es'" using False nil by (cases es) auto
        have eq: "der_tlv (fst e) (snd e) @ rest = der_tlv (fst e') (snd e') @ general_names es'"
          using es(1) some(3) cons by simp
        then have "fst e' = fst e" by (simp add: der_tlv_def)
        then have "snd e = snd e' \<and> rest = general_names es'"
          using eq es(2) some(2) der_tlv_inject [of "snd e" "snd e'" "fst e" rest "general_names es'"] by (simp add: entry_ok_def)
        then show ?a using es \<open>fst e' = fst e\<close> by (intro exI [of _ es']) auto
      qed
      finally show ?thesis .
    qed
  qed
qed

lemma match_san_exact:
  "webpki_match_san san host \<longleftrightarrow>
     (\<exists>es. san = der_tlv 0x30 (general_names es) \<and> length (general_names es) < 65536 \<and> list_all entry_ok es \<and>
        list_ex (\<lambda>e. fst e = 0x82 \<and> dns_match (snd e) host) es)"
  using rb_init_full [of san]
proof (cases rule: header_cases [where tag = "0x30"])
  case none
  then have "\<not> webpki_match_san san host" by (simp add: webpki_match_san_def case_prod_beta Let_def)
  then show ?thesis using none(2) by (metis append_Nil2)
next
  case (some c rest)
  let ?r = "snd (x509_read_header (rb_init san (length san)) 0x30)"
  have "rb_left ?r = length (c @ rest)" using some by (simp add: rb_left_view)
  then have e: "webpki_match_san san host \<longleftrightarrow> rest = [] \<and> san_loop ?r host False"
    using some(1) by (simp add: webpki_match_san_def case_prod_beta Let_def)
  have eq: "san = der_tlv 0x30 g \<longleftrightarrow> rest = [] \<and> c = g" if "length g < 65536" for g
    using some(2,3) that der_tlv_inject [of c g "0x30" rest "[]"] by auto
  show ?thesis
  proof (cases "rest = []")
    case True
    then have "san_loop ?r host False \<longleftrightarrow> (\<exists>es. c = general_names es \<and> list_all entry_ok es \<and>
        list_ex (\<lambda>e. fst e = 0x82 \<and> dns_match (snd e) host) es)"
      using san_loop_exact [OF some(4), of c host False] some(5) by simp
    then show ?thesis using e eq True some(3) by auto
  next
    case False
    then show ?thesis using e eq by auto
  qed
qed

section \<open>Properties\<close>

text \<open>A host name is accepted exactly when it has 1 to 253 bytes of letters, digits, dots and hyphens, each of its labels (the bytes between
  the dots) has 1 to 63 bytes and neither starts nor ends with a hyphen, and its last label is not all digits, so no IPv4 literal
  passes.\<close>

theorem webpki_hostname_exact:
  "webpki_hostname_ok host \<longleftrightarrow> 1 \<le> length host \<and> length host \<le> 253 \<and> list_all is_hostname_byte host \<and>
     list_all label_ok (labels host) \<and> \<not> list_all is_digit (last (labels host))"
  by (rule hostname_ok_iff)

text \<open>C40: A subjectAltName matches a host exactly when the extension is one DER sequence of well-formed GeneralName entries and nothing else, and
  one of its dNSName entries stands for the host.  A malformed entry refuses the certificate even behind a match; \<open>*\<close> stands for
  exactly one whole label, the leftmost, and only above two labels or more; letter case is ignored.  The walk ends on every input.\<close>

theorem webpki_match_san_exact:
  "webpki_match_san san host \<longleftrightarrow>
     (\<exists>es. san = der_tlv 0x30 (general_names es) \<and> length (general_names es) < 65536 \<and> list_all entry_ok es \<and>
        list_ex (\<lambda>e. fst e = 0x82 \<and> dns_match (snd e) host) es)"
  by (rule match_san_exact)

end
