(* ===== verification/Session.thy ===== *)
theory Session
  imports Rec_Layer Buf "HOL-Library.Code_Target_Nat"
begin

text \<open>
  The session of \<open>src/session.h\<close> with the record-granular I/O of \<open>src/io.c\<close> and the teardown of \<open>src/session.c\<close>,
  in the blocking client build with one cipher suite.  The caller's callbacks are fields of the configuration, functions of
  the caller's own state \<open>'io\<close>: \<open>send\<close> returns its count, \<open>recv\<close> its count and the bytes it wrote, and both may return anything.
  \<open>cfg_buf\<close> is the memory at \<open>cfg.buf\<close>; a pointer into it is its offset.  The outer \<open>None\<close> of a result is a stop in an
  assertion.
\<close>

section \<open>Model\<close>

subsection \<open>Constants\<close>

definition CH_ST_START :: u8 where "CH_ST_START = 0"
definition CH_ST_CONNECTED :: u8 where "CH_ST_CONNECTED = 1"
definition CH_ST_CLOSED :: u8 where "CH_ST_CLOSED = 2"
definition CH_ST_FAILED :: u8 where "CH_ST_FAILED = 3"

definition ALERT_CLOSE_NOTIFY :: u8 where "ALERT_CLOSE_NOTIFY = 0"
definition ALERT_USER_CANCELED :: u8 where "ALERT_USER_CANCELED = 90"
definition ALERT_UNEXPECTED_MESSAGE :: u8 where "ALERT_UNEXPECTED_MESSAGE = 10"
definition ALERT_BAD_RECORD_MAC :: u8 where "ALERT_BAD_RECORD_MAC = 20"
definition ALERT_RECORD_OVERFLOW :: u8 where "ALERT_RECORD_OVERFLOW = 22"
definition ALERT_ILLEGAL_PARAMETER :: u8 where "ALERT_ILLEGAL_PARAMETER = 47"
definition ALERT_DECODE_ERROR :: u8 where "ALERT_DECODE_ERROR = 50"
definition ALERT_INTERNAL_ERROR :: u8 where "ALERT_INTERNAL_ERROR = 80"

definition CH_QUIET_CAP :: nat where "CH_QUIET_CAP = 32"
definition CH_TX_PT :: nat where "CH_TX_PT = 512"
definition CH_TX_HELLO :: nat where "CH_TX_HELLO = 617"

definition CH_TX_STAGE :: nat where
  "CH_TX_STAGE = (if CH_TX_HELLO \<ge> CH_TX_PT + 1 + AEAD_TAG then CH_TX_HELLO else CH_TX_PT + 1 + AEAD_TAG)"

lemmas alert_defs = ALERT_CLOSE_NOTIFY_def ALERT_USER_CANCELED_def ALERT_UNEXPECTED_MESSAGE_def ALERT_BAD_RECORD_MAC_def
  ALERT_RECORD_OVERFLOW_def ALERT_ILLEGAL_PARAMETER_def ALERT_DECODE_ERROR_def ALERT_INTERNAL_ERROR_def

lemmas state_defs = CH_ST_START_def CH_ST_CONNECTED_def CH_ST_CLOSED_def CH_ST_FAILED_def

subsection \<open>Tickets, the configuration and the session\<close>

record ch_ticket =
  tk_identity :: "bytes option"
  tk_identity_len :: nat
  tk_psk :: bytes
  tk_psk_len :: nat
  tk_lifetime_s :: u32
  tk_age_add :: u32
  tk_epoch :: u32
  tk_trust_hash :: bytes

record ch_saved_ticket =
  st_ticket :: ch_ticket
  st_identity :: bytes

record 'io ch_cfg =
  cfg_psk :: "bytes option"
  cfg_psk_len :: nat
  cfg_psk_id :: "bytes option"
  cfg_psk_id_len :: nat
  cfg_ticket :: "ch_saved_ticket option"
  cfg_ticket_age_ms :: u64
  cfg_server_pubkey :: "bytes option"
  cfg_server_pubkey_len :: nat
  cfg_server_pubkey2 :: "bytes option"
  cfg_server_pubkey2_len :: nat
  cfg_buf :: bytes
  cfg_buf_len :: nat
  cfg_send :: "'io \<Rightarrow> bytes \<Rightarrow> int \<times> 'io"
  cfg_recv :: "'io \<Rightarrow> nat \<Rightarrow> int \<times> bytes \<times> 'io"
  cfg_io :: 'io
  cfg_on_ticket :: "('io \<Rightarrow> ch_ticket \<Rightarrow> 'io) option"
  cfg_require_pq :: bool

record 'io ch_tls_priv =
  cfg :: "'io ch_cfg"
  rd :: rec_dir
  wr :: rec_dir
  rd_secret :: bytes
  wr_secret :: bytes
  res_master :: bytes
  t_transcript :: ch_transcript
  peer_limit :: u16
  state :: u8
  keys :: bool
  pin_slot :: u8
  psk_selected :: u8
  group :: u16
  epoch :: u32
  key_update_owed :: bool
  key_update_run :: u8
  limit_sent :: bool
  alert_sent :: u8
  read_closed :: bool
  alert_received :: u8
  send_epochs :: u64
  pt_off :: nat
  pt_len :: nat
  tx :: bytes

definition tls_hash_len :: "'io ch_tls_priv \<Rightarrow> nat" where
  "tls_hash_len t = 32"

subsection \<open>Record I/O\<close>

function io_send_all :: "'io ch_cfg \<Rightarrow> bytes \<Rightarrow> rc \<times> 'io ch_cfg" where
  "io_send_all c p =
     (if length p > 0 then
        let (sent, io) = cfg_send c (cfg_io c) p; c = c\<lparr>cfg_io := io\<rparr>
        in if sent \<le> 0 \<or> nat sent > length p then (CH_EIO, c) else io_send_all c (drop (nat sent) p)
      else (CH_OK, c))"
  by pat_completeness auto

termination
  by (relation "measure (\<lambda>(c, p). length p)") auto

text \<open>Reads \<open>n\<close> bytes to the offset \<open>at\<close> of \<open>cfg.buf\<close>, where every caller reads to.\<close>

function read_exact :: "'io ch_cfg \<Rightarrow> nat \<Rightarrow> nat \<Rightarrow> rc \<times> 'io ch_cfg" where
  "read_exact c at n =
     (if n > 0 then
        let (got, data, io) = cfg_recv c (cfg_io c) n;
            c = c\<lparr>cfg_io := io, cfg_buf := mem_put (cfg_buf c) at (take n data)\<rparr>
        in if got \<le> 0 \<or> nat got > n then (CH_EIO, c) else read_exact c (at + nat got) (n - nat got)
      else (CH_OK, c))"
  by pat_completeness auto

termination
  by (relation "measure (\<lambda>(c, at, n). n)") auto

text \<open>The result code and the alert, as the caller set it or as the check writes it.\<close>

definition check_body :: "'io ch_tls_priv \<Rightarrow> nat \<Rightarrow> nat \<Rightarrow> nat \<Rightarrow> u8 \<Rightarrow> rc \<times> u8" where
  "check_body t at body cap alert =
     (if body > rec_body_max (cfg_buf (cfg t) ! at) then (CH_EPROTO, ALERT_RECORD_OVERFLOW)
      else if body = 0 then (CH_EPROTO, alert)
      else if REC_HDR + body > cfg_buf_len (cfg t) then
        (CH_ECAP, if limit_sent t then ALERT_RECORD_OVERFLOW else ALERT_INTERNAL_ERROR)
      else if REC_HDR + body > cap then (CH_ECAP, alert)
      else (CH_OK, alert))"

text \<open>The result code, the outer type and the record's length, the alert, and the session with its buffer read into.\<close>

definition io_read_record :: "'io ch_tls_priv \<Rightarrow> nat \<Rightarrow> nat \<Rightarrow> u8 \<Rightarrow> rc \<times> u8 \<times> nat \<times> u8 \<times> 'io ch_tls_priv" where
  "io_read_record t at cap alert =
     (if cap < REC_HDR then (CH_ECAP, 0, 0, alert, t)
      else
        let (rc, c) = read_exact (cfg t) at REC_HDR; t = t\<lparr>cfg := c\<rparr>
        in if rc \<noteq> CH_OK then (rc, 0, 0, alert, t)
           else
             let buf = cfg_buf c;
                 body = unat (buf ! (at + 3)) * 2 ^ 8 + unat (buf ! (at + 4));
                 (rc, alert) = check_body t at body cap alert
             in if rc \<noteq> CH_OK then (rc, 0, 0, alert, t)
                else
                  let (rc, c) = read_exact (cfg t) (at + REC_HDR) body; t = t\<lparr>cfg := c\<rparr>
                  in if rc \<noteq> CH_OK then (rc, 0, 0, alert, t)
                     else (CH_OK, cfg_buf c ! at, REC_HDR + body, alert, t))"

text \<open>
  \<open>rec_open\<close> on the record at \<open>at\<close>, in place: the length of the content and its type, \<open>None\<close> for \<open>-1\<close>.  An opened record leaves
  content, type and padding where the record stood; what a refused record leaves in the buffer is not tracked, as no caller
  reads it.
\<close>

definition open_in_place :: "'io ch_tls_priv \<Rightarrow> nat \<Rightarrow> nat \<Rightarrow> ((nat \<times> u8) option \<times> 'io ch_tls_priv) option" where
  "open_in_place t at record_len =
     do {
       (opened, d) \<leftarrow> rec_open (rd t) (take record_len (drop at (cfg_buf (cfg t)))) (size_sub (cfg_buf_len (cfg t)) at);
       case opened of
         None \<Rightarrow> Some (None, t\<lparr>rd := d\<rparr>)
       | Some (content, type) \<Rightarrow>
           let pad = replicate (record_len - REC_HDR - AEAD_TAG - length content - 1) 0;
               c = (cfg t)\<lparr>cfg_buf := mem_put (cfg_buf (cfg t)) at (content @ type # pad)\<rparr>
           in Some (Some (length content, type), t\<lparr>rd := d, cfg := c\<rparr>)
     }"

text \<open>\<open>memmove\<close> of \<open>n\<close> bytes from one offset of \<open>cfg.buf\<close> to another.\<close>

definition buf_move :: "'io ch_tls_priv \<Rightarrow> nat \<Rightarrow> nat \<Rightarrow> nat \<Rightarrow> 'io ch_tls_priv" where
  "buf_move t dst src n =
     t\<lparr>cfg := (cfg t)\<lparr>cfg_buf := mem_put (cfg_buf (cfg t)) dst (take n (drop src (cfg_buf (cfg t))))\<rparr>\<rparr>"

subsection \<open>Teardown\<close>

definition tx_send :: "'io ch_tls_priv \<Rightarrow> nat \<Rightarrow> rc \<times> 'io ch_tls_priv" where
  "tx_send t n = (let (rc, c) = io_send_all (cfg t) (take n (tx t)) in (rc, t\<lparr>cfg := c\<rparr>))"

text \<open>\<open>rec_seal\<close> into \<open>ch_tls.tx\<close>: the length of the record, \<open>None\<close> for \<open>-1\<close>.\<close>

definition tx_seal :: "'io ch_tls_priv \<Rightarrow> u8 \<Rightarrow> bytes \<Rightarrow> (nat option \<times> 'io ch_tls_priv) option" where
  "tx_seal t type pt =
     do {
       (rec, d) \<leftarrow> rec_seal (wr t) type pt (length (tx t));
       case rec of
         None \<Rightarrow> Some (None, t\<lparr>wr := d\<rparr>)
       | Some rec \<Rightarrow> Some (Some (length rec), t\<lparr>wr := d, tx := mem_put (tx t) 0 rec\<rparr>)
     }"

definition tlsi_send_alert :: "'io ch_tls_priv \<Rightarrow> u8 \<Rightarrow> u8 \<Rightarrow> (rc \<times> 'io ch_tls_priv) option" where
  "tlsi_send_alert t level description =
     (if keys t then
        do {
          (n, t) \<leftarrow> tx_seal t REC_ALERT [level, description];
          case n of None \<Rightarrow> Some (CH_ECAP, t) | Some n \<Rightarrow> Some (tx_send t n)
        }
      else if state t = CH_ST_START then
        let (rc, c) = io_send_all (cfg t) [REC_ALERT, 0x03, 0x03, 0, 2, level, description] in Some (rc, t\<lparr>cfg := c\<rparr>)
      else Some (CH_OK, t))"

definition rec_dir_zero :: rec_dir where
  "rec_dir_zero = \<lparr>rd_key = replicate 32 0, rd_iv = replicate 12 0, rd_seq = 0\<rparr>"

definition tlsi_wipe :: "'io ch_tls_priv \<Rightarrow> 'io ch_tls_priv" where
  "tlsi_wipe t =
     t\<lparr>rd := rec_dir_zero, wr := rec_dir_zero, rd_secret := replicate HKDF_HASH_MAX 0, wr_secret := replicate HKDF_HASH_MAX 0,
       res_master := replicate HKDF_HASH_MAX 0, keys := False, pt_off := 0, pt_len := 0\<rparr>"

definition tlsi_fail :: "'io ch_tls_priv \<Rightarrow> u8 \<Rightarrow> (rc \<times> 'io ch_tls_priv) option" where
  "tlsi_fail t description =
     do {
       (rc, t) \<leftarrow>
         (if alert_received t = 0 then tlsi_send_alert (t\<lparr>alert_sent := description\<rparr>) 2 description else Some (CH_OK, t));
       let t = tlsi_wipe t;
       Some (rc, t\<lparr>state := CH_ST_FAILED\<rparr>)
     }"

declare io_send_all.simps [simp del]
declare read_exact.simps [simp del]

subsection \<open>Specification\<close>

text \<open>
  A session whose offsets lie in its buffer.  \<open>io_moved\<close> relates a session to one that differs in nothing but the caller's I/O
  state and the bytes of \<open>cfg.buf\<close> from an offset on.
\<close>

definition tls_wf :: "'io ch_tls_priv \<Rightarrow> bool" where
  "tls_wf t \<longleftrightarrow> length (cfg_buf (cfg t)) = cfg_buf_len (cfg t) \<and> pt_off t \<le> pt_len t \<and> pt_len t \<le> cfg_buf_len (cfg t) \<and>
     length (tx t) = REC_HDR + CH_TX_STAGE"

definition io_moved :: "nat \<Rightarrow> 'io ch_cfg \<Rightarrow> 'io ch_cfg \<Rightarrow> bool" where
  "io_moved at c c' \<longleftrightarrow> (\<exists>io buf. c' = c\<lparr>cfg_io := io, cfg_buf := buf\<rparr> \<and> length buf = length (cfg_buf c) \<and>
     take at buf = take at (cfg_buf c))"

definition pending :: "'io ch_tls_priv \<Rightarrow> bytes" where
  "pending t = take (pt_len t - pt_off t) (drop (pt_off t) (cfg_buf (cfg t)))"

definition wiped :: "'io ch_tls_priv \<Rightarrow> bool" where
  "wiped t \<longleftrightarrow> rd t = rec_dir_zero \<and> wr t = rec_dir_zero \<and> rd_secret t = replicate 32 0 \<and> wr_secret t = replicate 32 0 \<and>
     res_master t = replicate 32 0 \<and> \<not> keys t \<and> pt_off t = 0 \<and> pt_len t = 0"

text \<open>A session over a byte stream in memory, with a buffer of \<open>n\<close> bytes, before its handshake: an input for the examples.\<close>

definition stream_recv :: "bytes \<Rightarrow> nat \<Rightarrow> int \<times> bytes \<times> bytes" where
  "stream_recv s n = (int (min n (length s)), take n s, drop n s)"

definition stream_cfg :: "bytes \<Rightarrow> nat \<Rightarrow> bytes ch_cfg" where
  "stream_cfg s n =
     \<lparr>cfg_psk = None, cfg_psk_len = 0, cfg_psk_id = None, cfg_psk_id_len = 0, cfg_ticket = None, cfg_ticket_age_ms = 0,
      cfg_server_pubkey = None, cfg_server_pubkey_len = 0, cfg_server_pubkey2 = None, cfg_server_pubkey2_len = 0,
      cfg_buf = replicate n 0, cfg_buf_len = n, cfg_send = (\<lambda>s p. (int (length p), s)), cfg_recv = stream_recv, cfg_io = s,
      cfg_on_ticket = None, cfg_require_pq = False\<rparr>"

definition tx_zero :: bytes where
  [code del]: "tx_zero = replicate (REC_HDR + CH_TX_STAGE) 0"

definition stream_tls :: "bytes \<Rightarrow> nat \<Rightarrow> bytes ch_tls_priv" where
  "stream_tls s n =
     \<lparr>cfg = stream_cfg s n, rd = rec_dir_zero, wr = rec_dir_zero, rd_secret = replicate 32 0, wr_secret = replicate 32 0,
      res_master = replicate 32 0, t_transcript = transcript_init \<lparr>sha256_state = \<lparr>hc_h = [], hc_total = 0, hc_block = replicate 64 0, hc_fill = 0\<rparr>\<rparr>,
      peer_limit = 0x4000, state = CH_ST_START, keys = False, pin_slot = 0, psk_selected = 0, group = 0, epoch = 0,
      key_update_owed = False, key_update_run = 0, limit_sent = False, alert_sent = 0, read_closed = False, alert_received = 0,
      send_epochs = 0, pt_off = 0, pt_len = 0, tx = tx_zero\<rparr>"

lemma stream_tls_wf [simp]: "tls_wf (stream_tls s n)"
  by (simp add: stream_tls_def stream_cfg_def tls_wf_def tx_zero_def)

lemma stream_tls_transcript: "transcript_holds (t_transcript (stream_tls s n)) []"
  by (simp add: stream_tls_def transcript_init_holds)

text \<open>
  What the peer sent, as the caller's \<open>recv\<close> hands it over.  \<open>recv_ok\<close> is the contract of the callback: a count it returns is a count of
  bytes it wrote.  \<open>received f io bs io'\<close>: calls of \<open>f\<close> that lead from the state \<open>io\<close> to \<open>io'\<close> gave the bytes \<open>bs\<close>, in order.
\<close>

definition recv_ok :: "('io \<Rightarrow> nat \<Rightarrow> int \<times> bytes \<times> 'io) \<Rightarrow> bool" where
  "recv_ok f \<longleftrightarrow> (\<forall>io n. case f io n of (got, data, _) \<Rightarrow> 0 < got \<and> got \<le> int n \<longrightarrow> nat got \<le> length data)"

inductive received :: "('io \<Rightarrow> nat \<Rightarrow> int \<times> bytes \<times> 'io) \<Rightarrow> 'io \<Rightarrow> bytes \<Rightarrow> 'io \<Rightarrow> bool" for f where
  none: "received f io [] io"
| more: "f io n = (int k, data, io1) \<Longrightarrow> 0 < k \<Longrightarrow> k \<le> n \<Longrightarrow> received f io1 bs io2 \<Longrightarrow> received f io (take k data @ bs) io2"

section \<open>I/O\<close>

lemma mem_put_length [simp]: "at + length d \<le> length p \<Longrightarrow> length (mem_put p at d) = length p"
  by (simp add: mem_put_def)

lemma take_mem_put [simp]: "at \<le> length p \<Longrightarrow> take at (mem_put p at d) = take at p"
  by (simp add: mem_put_def)

lemma take_mem_put_end: "at \<le> length p \<Longrightarrow> take (at + length d) (mem_put p at d) = take at p @ d"
  by (simp add: mem_put_def)

lemma io_movedI:
  "c' = c\<lparr>cfg_io := io, cfg_buf := buf\<rparr> \<Longrightarrow> length buf = length (cfg_buf c) \<Longrightarrow> take at buf = take at (cfg_buf c) \<Longrightarrow> io_moved at c c'"
  unfolding io_moved_def by blast

lemma io_moved_refl [simp]: "io_moved at c c"
  by (rule io_movedI [where io = "cfg_io c" and buf = "cfg_buf c"]) simp_all

lemma io_moved_trans: "io_moved at c c' \<Longrightarrow> io_moved at' c' c'' \<Longrightarrow> at \<le> at' \<Longrightarrow> io_moved at c c''"
proof -
  assume m: "io_moved at c c'" "io_moved at' c' c''" "at \<le> at'"
  then obtain io buf io' buf' where e: "c' = c\<lparr>cfg_io := io, cfg_buf := buf\<rparr>" "c'' = c'\<lparr>cfg_io := io', cfg_buf := buf'\<rparr>"
    "length buf = length (cfg_buf c)" "take at buf = take at (cfg_buf c)"
    "length buf' = length (cfg_buf c')" "take at' buf' = take at' (cfg_buf c')"
    unfolding io_moved_def by blast
  have "take at buf' = take at (take at' buf')" using m(3) by (simp add: min_def)
  also have "\<dots> = take at buf" using e(1,6) m(3) by (simp add: min_def)
  finally show ?thesis using e by (intro io_movedI [where io = io' and buf = buf']) simp_all
qed

lemma io_moved_fields:
  assumes "io_moved at c c'"
  shows "length (cfg_buf c') = length (cfg_buf c)" "cfg_buf_len c' = cfg_buf_len c" "take at (cfg_buf c') = take at (cfg_buf c)"
    "cfg_send c' = cfg_send c" "cfg_recv c' = cfg_recv c" "cfg_on_ticket c' = cfg_on_ticket c"
  using assms by (auto simp: io_moved_def)

lemma io_send_all_moved: "io_moved (length (cfg_buf c)) c (snd (io_send_all c p))"
proof (induction c p rule: io_send_all.induct)
  case (1 c p)
  obtain sent io where s: "cfg_send c (cfg_io c) p = (sent, io)" by (metis surj_pair)
  have step: "io_moved (length (cfg_buf c)) c (c\<lparr>cfg_io := io\<rparr>)"
    by (rule io_movedI [where io = io and buf = "cfg_buf c"]) simp_all
  show ?case
  proof (cases "length p > 0 \<and> \<not> (sent \<le> 0 \<or> nat sent > length p)")
    case True
    have "io_moved (length (cfg_buf c)) (c\<lparr>cfg_io := io\<rparr>) (snd (io_send_all (c\<lparr>cfg_io := io\<rparr>) (drop (nat sent) p)))"
      using "1.IH" [OF _ s [symmetric] refl refl] True by simp
    then show ?thesis using True s step by (subst io_send_all.simps) (auto intro: io_moved_trans)
  next
    case False
    then show ?thesis using s step by (subst io_send_all.simps) auto
  qed
qed

lemma read_exact_moved:
  "at + n \<le> length (cfg_buf c) \<Longrightarrow> io_moved at c (snd (read_exact c at n))"
proof (induction c at n rule: read_exact.induct)
  case (1 c at n)
  obtain got data io where r: "cfg_recv c (cfg_io c) n = (got, data, io)" by (metis surj_pair)
  define c' where "c' = c\<lparr>cfg_io := io, cfg_buf := mem_put (cfg_buf c) at (take n data)\<rparr>"
  have len: "length (cfg_buf c') = length (cfg_buf c)" using "1.prems" by (simp add: c'_def)
  have step: "io_moved at c c'"
    using "1.prems" len by (intro io_movedI [where io = io and buf = "cfg_buf c'"]) (simp_all add: c'_def)
  show ?case
  proof (cases "n > 0 \<and> \<not> (got \<le> 0 \<or> nat got > n)")
    case True
    have "io_moved (at + nat got) c' (snd (read_exact c' (at + nat got) (n - nat got)))"
      using "1.IH" [OF _ r [symmetric] refl refl c'_def] True "1.prems" len by simp
    then have "io_moved at c (snd (read_exact c' (at + nat got) (n - nat got)))"
      using io_moved_trans [OF step, of "at + nat got"] by simp
    then show ?thesis using True r by (subst read_exact.simps) (simp add: c'_def)
  next
    case False
    then show ?thesis using r step by (subst read_exact.simps) (auto simp: c'_def)
  qed
qed

lemma read_exact_rc: "fst (read_exact c at n) = CH_OK \<or> fst (read_exact c at n) = CH_EIO"
proof (induction c at n rule: read_exact.induct)
  case (1 c at n)
  obtain got data io where r: "cfg_recv c (cfg_io c) n = (got, data, io)" by (metis surj_pair)
  then show ?case using "1.IH" [OF _ r [symmetric] refl refl refl] by (simp add: read_exact.simps [of c at n] Let_def)
qed

lemma io_read_record_rc: "fst (io_read_record t at cap alert) \<in> {CH_OK, CH_EIO, CH_EPROTO, CH_ECAP}"
proof -
  obtain rc1 c1 where r1: "read_exact (cfg t) at REC_HDR = (rc1, c1)" by (metis surj_pair)
  let ?body = "unat (cfg_buf c1 ! (at + 3)) * 2 ^ 8 + unat (cfg_buf c1 ! (at + 4))"
  obtain rc2 al2 where k: "check_body (t\<lparr>cfg := c1\<rparr>) at ?body cap alert = (rc2, al2)" by (metis surj_pair)
  obtain rc3 c3 where r3: "read_exact c1 (at + REC_HDR) ?body = (rc3, c3)" by (metis surj_pair)
  have "rc1 = CH_OK \<or> rc1 = CH_EIO" "rc3 = CH_OK \<or> rc3 = CH_EIO" using read_exact_rc r1 r3 by (metis fst_conv)+
  moreover have "rc2 = CH_OK \<or> rc2 = CH_EPROTO \<or> rc2 = CH_ECAP" using k by (auto simp: check_body_def split: if_splits)
  ultimately show ?thesis using r1 k r3 by (auto simp: io_read_record_def Let_def)
qed

text \<open>What reading a record leaves: the session with its I/O moved, and on success a whole record in the room asked for.\<close>

lemma io_read_record_spec:
  assumes "io_read_record t at cap alert = (rc, outer, n, alert', t')" and "at + cap \<le> length (cfg_buf (cfg t))"
  shows "\<exists>c'. t' = t\<lparr>cfg := c'\<rparr> \<and> io_moved at (cfg t) c' \<and>
    (rc = CH_OK \<longrightarrow> alert' = alert \<and> REC_HDR < n \<and> n \<le> cap \<and> n \<le> cfg_buf_len (cfg t) \<and> outer = cfg_buf c' ! at)"
proof (cases "cap < REC_HDR")
  case True
  then show ?thesis using assms(1) by (intro exI [of _ "cfg t"]) (auto simp: io_read_record_def)
next
  case False
  obtain rc1 c1 where r1: "read_exact (cfg t) at 5 = (rc1, c1)" by (metis surj_pair)
  then have m1: "io_moved at (cfg t) c1" using read_exact_moved [of at 5 "cfg t"] False assms(2) by simp
  let ?body = "unat (cfg_buf c1 ! (at + 3)) * 2 ^ 8 + unat (cfg_buf c1 ! (at + 4))"
  obtain rc2 al2 where k: "check_body (t\<lparr>cfg := c1\<rparr>) at ?body cap alert = (rc2, al2)" by (metis surj_pair)
  show ?thesis
  proof (cases "rc1 = CH_OK \<and> rc2 = CH_OK")
    case True
    then have ok: "0 < ?body" "5 + ?body \<le> cap" "5 + ?body \<le> cfg_buf_len c1" "al2 = alert"
      using k by (auto simp: check_body_def split: if_splits)
    obtain rc3 c3 where r3: "read_exact c1 (at + 5) ?body = (rc3, c3)" by (metis surj_pair)
    have "io_moved (at + 5) c1 c3"
      using read_exact_moved [of "at + 5" ?body c1] r3 ok(2) assms(2) io_moved_fields(1) [OF m1] by simp
    then have m3: "io_moved at (cfg t) c3" using io_moved_trans [OF m1] by simp
    have "(if rc3 \<noteq> CH_OK then (rc3, 0, 0, alert, t\<lparr>cfg := c3\<rparr>)
        else (CH_OK, cfg_buf c3 ! at, 5 + ?body, alert, t\<lparr>cfg := c3\<rparr>)) = (rc, outer, n, alert', t')"
      using assms(1) False True r1 k r3 ok(4) by (auto simp: io_read_record_def Let_def)
    then show ?thesis
      using m3 ok io_moved_fields(2) [OF m1] by (intro exI [of _ c3]) (auto split: if_splits)
  next
    case fail: False
    then have "rc \<noteq> CH_OK \<and> t' = t\<lparr>cfg := c1\<rparr>"
      using assms(1) False r1 k by (auto simp: io_read_record_def Let_def split: if_splits)
    then show ?thesis using m1 by blast
  qed
qed

lemma received_append: "received f io bs io1 \<Longrightarrow> received f io1 cs io2 \<Longrightarrow> received f io (bs @ cs) io2"
  by (induction rule: received.induct) (auto dest: received.more)

text \<open>From a stream in memory the bytes received are the front of the stream.\<close>

lemma stream_recv_ok [simp]: "recv_ok stream_recv"
  by (auto simp: recv_ok_def stream_recv_def)

lemma received_stream: "received stream_recv s bs s' \<Longrightarrow> s = bs @ s'"
proof (induction rule: received.induct)
  case (more io n k data io1 bs io2)
  have "k = min n (length io)" "data = take n io" "io1 = drop n io" using more.hyps(1) by (auto simp: stream_recv_def)
  then show ?case using more.IH append_take_drop_id [of n io] by (cases "n \<le> length io") auto
qed simp

lemma recv_okD: "recv_ok f \<Longrightarrow> f io n = (got, data, io') \<Longrightarrow> 0 < got \<Longrightarrow> got \<le> int n \<Longrightarrow> nat got \<le> length data"
  by (drule recv_ok_def [THEN iffD1], drule spec [of _ io], drule spec [of _ n]) simp

lemma read_exact_received:
  assumes "read_exact c at n = (CH_OK, c')" "at + n \<le> length (cfg_buf c)" "recv_ok (cfg_recv c)"
  shows "received (cfg_recv c) (cfg_io c) (take n (drop at (cfg_buf c'))) (cfg_io c')"
  using assms
proof (induction c at n rule: read_exact.induct)
  case (1 c at n)
  show ?case
  proof (cases "n = 0")
    case True
    then show ?thesis using "1.prems"(1) by (simp add: read_exact.simps received.none)
  next
    case False
    obtain got data io where r: "cfg_recv c (cfg_io c) n = (got, data, io)" by (metis surj_pair)
    define c1 where "c1 = c\<lparr>cfg_io := io, cfg_buf := mem_put (cfg_buf c) at (take n data)\<rparr>"
    have g: "0 < got" "nat got \<le> n" "read_exact c1 (at + nat got) (n - nat got) = (CH_OK, c')"
      using "1.prems"(1) False r by (auto simp: read_exact.simps [of c] c1_def Let_def split: if_splits)
    let ?k = "nat got"
    have data: "?k \<le> length data" using recv_okD [OF "1.prems"(3) r g(1)] g(2) by simp
    have len: "length (cfg_buf c1) = length (cfg_buf c)" using "1.prems"(2) by (simp add: c1_def)
    have "received (cfg_recv c1) (cfg_io c1) (take (n - ?k) (drop (at + ?k) (cfg_buf c'))) (cfg_io c')"
      by (rule "1.IH" [OF _ r [symmetric] refl refl c1_def]) (use False g "1.prems"(2,3) len in \<open>auto simp: c1_def\<close>)
    then have run: "received (cfg_recv c) (cfg_io c) (take ?k data @ take (n - ?k) (drop (at + ?k) (cfg_buf c'))) (cfg_io c')"
      using g(1,2) r by (intro received.more [of _ _ n]) (simp_all add: c1_def)
    have "take (at + ?k) (cfg_buf c') = take (at + ?k) (cfg_buf c1)"
      using read_exact_moved [of "at + ?k" "n - ?k" c1] g(2,3) "1.prems"(2) len io_moved_fields(3) by fastforce
    then have "take ?k (drop at (cfg_buf c')) = take ?k (drop at (cfg_buf c1))" by (simp add: take_drop add.commute)
    also have "\<dots> = take ?k data" using "1.prems"(2) g(2) data by (simp add: c1_def mem_put_def min_absorb1 min_absorb2)
    finally have "take ?k (drop at (cfg_buf c')) = take ?k data" .
    then have "take n (drop at (cfg_buf c')) = take ?k data @ take (n - ?k) (drop (at + ?k) (cfg_buf c'))"
      using take_add [of ?k "n - ?k" "drop at (cfg_buf c')"] g(2) by (simp add: add.commute)
    then show ?thesis using run by simp
  qed
qed

lemma io_read_record_received:
  assumes "io_read_record t at cap alert = (CH_OK, outer, n, alert', t')" "at + cap \<le> length (cfg_buf (cfg t))"
  defines "rec \<equiv> take n (drop at (cfg_buf (cfg t')))"
  shows "recv_ok (cfg_recv (cfg t)) \<Longrightarrow> received (cfg_recv (cfg t)) (cfg_io (cfg t)) rec (cfg_io (cfg t'))"
    "length rec = n" "outer = rec ! 0" "n = 5 + (unat (rec ! 3) * 256 + unat (rec ! 4))" "5 < n"
proof -
  obtain rc1 c1 where r1: "read_exact (cfg t) at 5 = (rc1, c1)" by (metis surj_pair)
  let ?body = "unat (cfg_buf c1 ! (at + 3)) * 2 ^ 8 + unat (cfg_buf c1 ! (at + 4))"
  obtain rc2 al2 where k: "check_body (t\<lparr>cfg := c1\<rparr>) at ?body cap alert = (rc2, al2)" by (metis surj_pair)
  obtain rc3 c3 where r3: "read_exact c1 (at + 5) ?body = (rc3, c3)" by (metis surj_pair)
  have cap: "5 \<le> cap" using assms(1) by (auto simp: io_read_record_def split: if_splits)
  have ok: "rc1 = CH_OK" "rc2 = CH_OK" "rc3 = CH_OK" "outer = cfg_buf c3 ! at" "n = 5 + ?body" "t' = t\<lparr>cfg := c3\<rparr>"
    using assms(1) r1 k r3 by (auto simp: io_read_record_def Let_def split: if_splits)
  have body: "5 + ?body \<le> cap" "0 < ?body" using k ok(2) by (auto simp: check_body_def split: if_splits)
  have m1: "io_moved at (cfg t) c1" using read_exact_moved [of at 5 "cfg t"] r1 cap assms(2) by simp
  have m3: "io_moved (at + 5) c1 c3" using read_exact_moved [of "at + 5" ?body c1] r3 body assms(2) io_moved_fields(1) [OF m1] by simp
  have len: "length (cfg_buf c3) = length (cfg_buf (cfg t))" using io_moved_fields(1) [OF m1] io_moved_fields(1) [OF m3] by simp
  have head: "take 5 (drop at (cfg_buf c1)) = take 5 (drop at (cfg_buf c3))"
    using io_moved_fields(3) [OF m3] by (simp add: take_drop add.commute)
  have rec: "rec = take 5 (drop at (cfg_buf c3)) @ take ?body (drop (at + 5) (cfg_buf c3))"
    unfolding rec_def ok(5,6) by (simp add: take_add add.commute)
  show "received (cfg_recv (cfg t)) (cfg_io (cfg t)) rec (cfg_io (cfg t'))" if recv: "recv_ok (cfg_recv (cfg t))"
  proof -
    have "received (cfg_recv (cfg t)) (cfg_io (cfg t)) (take 5 (drop at (cfg_buf c1))) (cfg_io c1)"
      using read_exact_received [of "cfg t" at 5 c1] r1 ok(1) cap assms(2) recv by simp
    moreover have "received (cfg_recv (cfg t)) (cfg_io c1) (take ?body (drop (at + 5) (cfg_buf c3))) (cfg_io c3)"
      using read_exact_received [of c1 "at + 5" ?body c3] r3 ok(3) body assms(2) recv io_moved_fields(1,5) [OF m1] by simp
    ultimately show ?thesis using received_append rec head ok(6) by fastforce
  qed
  show l: "length rec = n" using len body assms(2) ok(5,6) by (simp add: rec_def)
  have nth: "cfg_buf c1 ! (at + i) = rec ! i" if "i < 5" for i
  proof -
    have "take 5 (drop at (cfg_buf c1)) ! i = take 5 (drop at (cfg_buf c3)) ! i" using head by simp
    then show ?thesis using that len body assms(2) io_moved_fields(1) [OF m1] ok(5,6) by (simp add: rec_def)
  qed
  show "n = 5 + (unat (rec ! 3) * 256 + unat (rec ! 4))" "5 < n" using ok(5) body nth [of 3] nth [of 4] by simp_all
  show "outer = rec ! 0" using ok(4,5,6) body len assms(2) by (simp add: rec_def)
qed

lemma tx_seal_eq:
  "tx_seal t type pt =
     Some (if rd_seq (wr t) \<noteq> - 1 \<and> length pt + 17 \<le> 0x4100 \<and> length pt + REC_OVERHEAD \<le> length (tx t)
       then (Some (length pt + REC_OVERHEAD),
         t\<lparr>wr := (wr t)\<lparr>rd_seq := rd_seq (wr t) + 1\<rparr>, tx := mem_put (tx t) 0 (record_of (wr t) (pt @ [type]))\<rparr>)
       else (None, t))"
  by (simp add: tx_seal_def rec_seal_eq)

lemma rec_open_total:
  obtains r d' where "rec_open d rec cap = Some (r, d')" "case r of None \<Rightarrow> True | Some (c, ty) \<Rightarrow> length c + 22 \<le> length rec \<and> length c < cap"
    "rd_key d' = rd_key d" "rd_iv d' = rd_iv d" "r \<noteq> None \<Longrightarrow> rd_seq d \<noteq> - 1 \<and> rd_seq d' = rd_seq d + 1"
proof (cases "rec_framed d rec cap")
  case False
  then show ?thesis using that [of None d] rec_open_unframed by simp
next
  case True
  have "length (take 16 (drop (5 + (length rec - 21)) rec)) = 16" using True by (simp add: rec_framed_def)
  then obtain o' where o': "open_body d (nonce_of d) rec (length rec - 21) = Some o'"
    by (simp add: open_body_def chachapoly.open_eq)
  have bound: "strip_len pt (length rec - 21) \<le> length rec - 21" for pt by (rule strip_len_le)
  show ?thesis
  proof (cases o')
    case None
    then show ?thesis using that [of None d] rec_open_framed [OF True] o' by simp
  next
    case (Some pt)
    show ?thesis
      by (rule that [of "let n = strip_len pt (length rec - 21) in if n = 0 then None else Some (take (n - 1) pt, pt ! (n - 1))"
            "d\<lparr>rd_seq := rd_seq d + 1\<rparr>"])
        (use True rec_open_framed [OF True] o' Some bound [of pt] in \<open>auto simp: Let_def rec_framed_def\<close>)
  qed
qed

section \<open>Teardown\<close>

lemma tx_send_eq: "tx_send t n = (fst (io_send_all (cfg t) (take n (tx t))), t\<lparr>cfg := snd (io_send_all (cfg t) (take n (tx t)))\<rparr>)"
  by (simp add: tx_send_def case_prod_beta)

lemma send_alert_total:
  obtains rc c' d x where "tlsi_send_alert t level desc = Some (rc, t\<lparr>cfg := c', wr := d, tx := x\<rparr>)"
    "io_moved (length (cfg_buf (cfg t))) (cfg t) c'" "length x = length (tx t)"
proof (cases "keys t")
  case True
  let ?seal = "rd_seq (wr t) \<noteq> - 1 \<and> 24 \<le> length (tx t)"
  let ?x = "mem_put (tx t) 0 (record_of (wr t) [level, desc, REC_ALERT])"
  let ?s = "io_send_all (cfg t) (take 24 ?x)"
  show ?thesis
  proof (cases ?seal)
    case seal: True
    then have "tlsi_send_alert t level desc = Some (fst ?s, t\<lparr>cfg := snd ?s, wr := (wr t)\<lparr>rd_seq := rd_seq (wr t) + 1\<rparr>, tx := ?x\<rparr>)"
      using True by (simp add: tlsi_send_alert_def tx_seal_eq tx_send_eq)
    then show ?thesis by (rule that) (use io_send_all_moved seal in simp_all)
  next
    case False
    then have "tlsi_send_alert t level desc = Some (CH_ECAP, t\<lparr>cfg := cfg t, wr := wr t, tx := tx t\<rparr>)"
      using True by (auto simp: tlsi_send_alert_def tx_seal_eq)
    then show ?thesis by (rule that) simp_all
  qed
next
  case False
  let ?s = "io_send_all (cfg t) [REC_ALERT, 3, 3, 0, 2, level, desc]"
  show ?thesis
  proof (cases "state t = CH_ST_START")
    case True
    then have "tlsi_send_alert t level desc = Some (fst ?s, t\<lparr>cfg := snd ?s, wr := wr t, tx := tx t\<rparr>)"
      using False by (simp add: tlsi_send_alert_def case_prod_beta)
    then show ?thesis by (rule that) (simp_all add: io_send_all_moved)
  next
    case no: False
    then have "tlsi_send_alert t level desc = Some (CH_OK, t\<lparr>cfg := cfg t, wr := wr t, tx := tx t\<rparr>)"
      using False by (simp add: tlsi_send_alert_def)
    then show ?thesis by (rule that) simp_all
  qed
qed

text \<open>Failing a session always returns and leaves it failed, with every key and secret zero; after the peer's fatal alert nothing is sent.\<close>

lemma fail_total:
  obtains rc t' where "tlsi_fail t desc = Some (rc, t')" "state t' = CH_ST_FAILED" "wiped t'"
    "io_moved (length (cfg_buf (cfg t))) (cfg t) (cfg t')" "alert_received t' = alert_received t"
    "alert_sent t' = (if alert_received t = 0 then desc else alert_sent t)" "length (tx t') = length (tx t)"
    "alert_received t \<noteq> 0 \<Longrightarrow> cfg t' = cfg t \<and> rc = CH_OK" "read_closed t' = read_closed t" "send_epochs t' = send_epochs t"
    "key_update_run t' = key_update_run t" "key_update_owed t' = key_update_owed t"
proof (cases "alert_received t = 0")
  case True
  obtain rc c' d x where s: "tlsi_send_alert (t\<lparr>alert_sent := desc\<rparr>) 2 desc = Some (rc, t\<lparr>alert_sent := desc, cfg := c', wr := d, tx := x\<rparr>)"
    "io_moved (length (cfg_buf (cfg t))) (cfg t) c'" "length x = length (tx t)"
    by (rule send_alert_total [of "t\<lparr>alert_sent := desc\<rparr>" 2 desc]) simp
  show ?thesis
    by (rule that [of rc "(tlsi_wipe (t\<lparr>alert_sent := desc, cfg := c', wr := d, tx := x\<rparr>))\<lparr>state := CH_ST_FAILED\<rparr>"])
      (use True s in \<open>simp_all add: tlsi_fail_def tlsi_wipe_def wiped_def HKDF_HASH_MAX_def\<close>)
next
  case False
  show ?thesis
    by (rule that [of CH_OK "(tlsi_wipe t)\<lparr>state := CH_ST_FAILED\<rparr>"])
      (use False in \<open>simp_all add: tlsi_fail_def tlsi_wipe_def wiped_def HKDF_HASH_MAX_def\<close>)
qed

section \<open>Opening in place\<close>

lemma open_in_place_total:
  assumes "at + n \<le> length (cfg_buf (cfg t))"
  obtains (refused) d where "open_in_place t at n = Some (None, t\<lparr>rd := d\<rparr>)"
  | (opened) d buf m ty where "open_in_place t at n = Some (Some (m, ty), t\<lparr>rd := d, cfg := (cfg t)\<lparr>cfg_buf := buf\<rparr>\<rparr>)"
      "length buf = length (cfg_buf (cfg t))" "take at buf = take at (cfg_buf (cfg t))" "m + 22 \<le> n"
      "rd_seq (rd t) \<noteq> - 1" "rd_seq d = rd_seq (rd t) + 1"
      "rec_open (rd t) (take n (drop at (cfg_buf (cfg t)))) (size_sub (cfg_buf_len (cfg t)) at) = Some (Some (take m (drop at buf), ty), d)"
proof (rule rec_open_total [of "rd t" "take n (drop at (cfg_buf (cfg t)))" "size_sub (cfg_buf_len (cfg t)) at"])
  fix r d
  assume o: "rec_open (rd t) (take n (drop at (cfg_buf (cfg t)))) (size_sub (cfg_buf_len (cfg t)) at) = Some (r, d)"
    and len: "case r of None \<Rightarrow> True
      | Some (c, ty) \<Rightarrow> length c + 22 \<le> length (take n (drop at (cfg_buf (cfg t)))) \<and> length c < size_sub (cfg_buf_len (cfg t)) at"
    and seq: "r \<noteq> None \<Longrightarrow> rd_seq (rd t) \<noteq> - 1 \<and> rd_seq d = rd_seq (rd t) + 1"
  show ?thesis
  proof (cases r)
    case None
    then show ?thesis using refused o by (simp add: open_in_place_def)
  next
    case (Some ct)
    obtain c ty where [simp]: "ct = (c, ty)" by (cases ct)
    have l: "length c + 22 \<le> n" using len Some assms by simp
    let ?data = "c @ ty # replicate (n - 5 - 16 - length c - 1) 0"
    have "at + length ?data \<le> length (cfg_buf (cfg t))" using l assms by simp
    moreover from this have "take (length c) (drop at (mem_put (cfg_buf (cfg t)) at ?data)) = c" by (simp add: mem_put_def)
    ultimately show ?thesis
      using opened [where m = "length c" and ty = ty and d = d and buf = "mem_put (cfg_buf (cfg t)) at ?data"] o Some l seq
      by (simp add: open_in_place_def)
  qed
qed

lemma wf_moved:
  assumes "tls_wf t" "io_moved at (cfg t) c'"
  shows "tls_wf (t\<lparr>cfg := c'\<rparr>)"
  using assms io_moved_fields(1,2) [OF assms(2)] by (simp add: tls_wf_def)

lemma pending_length [simp]: "tls_wf t \<Longrightarrow> length (pending t) = pt_len t - pt_off t"
  by (simp add: pending_def tls_wf_def min.absorb2 diff_le_mono)

end
