(* ===== verification/Hs_Record.thy ===== *)
theory Hs_Record
  imports Session
begin

text \<open>
  The reader of handshake messages, \<open>src/handshake_record.c\<close>.  Over TCP it reads records, tolerates a few
  change_cipher_spec records, opens protected ones and joins their content into whole messages in \<open>cfg.buf\<close>; the transports that
  hand bytes over feed them instead.  A message is returned as its bytes.
\<close>

section \<open>Model\<close>

definition HS_MESSAGE_HASH :: u8 where "HS_MESSAGE_HASH = 254"

record 'io handshake_state =
  hs_t :: "'io ch_tls_priv"
  hs_priv :: bytes
  hs_pub :: bytes
  hs_random :: bytes
  hs_early :: bytes
  hs_binder_key :: bytes
  hs_handshake_secret :: bytes
  hs_c_hs :: bytes
  hs_s_hs :: bytes
  hs_master :: bytes
  hs_cookie :: bytes
  hs_cookie_len :: nat
  hs_record_size_limit :: u16
  hs_encrypted :: bool
  hs_ccs_seen :: u8
  hs_quiet :: u8
  hs_alert :: u8
  hs_server_finished_ok :: bool

subsection \<open>Alerts of the peer\<close>

definition hsr_refuse_alert :: "'io ch_tls_priv \<Rightarrow> bytes \<Rightarrow> u8 \<Rightarrow> rc \<times> u8 \<times> 'io ch_tls_priv" where
  "hsr_refuse_alert t pt alert =
     (if length pt \<noteq> 2 then (CH_EPROTO, ALERT_DECODE_ERROR, t)
      else if pt ! 1 \<noteq> ALERT_CLOSE_NOTIFY \<and> pt ! 1 \<noteq> ALERT_USER_CANCELED then (CH_EPROTO, alert, t\<lparr>alert_received := pt ! 1\<rparr>)
      else (CH_EPROTO, alert, t))"

subsection \<open>Records\<close>

definition accept_record :: "'io handshake_state \<Rightarrow> nat \<Rightarrow> u8 \<Rightarrow> nat \<Rightarrow> (rc \<times> 'io handshake_state) option" where
  "accept_record h part outer record_len =
     (let t = hs_t h
      in if \<not> hs_encrypted h then
           if outer \<noteq> REC_HANDSHAKE then Some (CH_EPROTO, h)
           else
             let t = buf_move t part (part + REC_HDR) (record_len - REC_HDR)
             in Some (CH_OK, h\<lparr>hs_t := t\<lparr>pt_len := part + record_len - REC_HDR\<rparr>\<rparr>)
         else if outer \<noteq> REC_APPDATA then Some (CH_EPROTO, h)
         else do {
           (opened, t) \<leftarrow> open_in_place t part record_len;
           case opened of
             None \<Rightarrow> Some (CH_EAUTH, h\<lparr>hs_t := t, hs_alert := ALERT_BAD_RECORD_MAC\<rparr>)
           | Some (n, inner_type) \<Rightarrow>
               if inner_type = REC_ALERT then
                 let (rc, alert, t) = hsr_refuse_alert t (take n (drop part (cfg_buf (cfg t)))) (hs_alert h)
                 in Some (rc, h\<lparr>hs_t := t, hs_alert := alert\<rparr>)
               else if inner_type \<noteq> REC_HANDSHAKE then Some (CH_EPROTO, h\<lparr>hs_t := t\<rparr>)
               else Some (CH_OK, h\<lparr>hs_t := t\<lparr>pt_len := part + n\<rparr>\<rparr>)
         })"

definition ccs_tolerable :: "'io handshake_state \<Rightarrow> nat \<Rightarrow> nat \<Rightarrow> bool \<times> 'io handshake_state" where
  "ccs_tolerable h part record_len =
     (if record_len \<noteq> REC_HDR + 1 \<or> cfg_buf (cfg (hs_t h)) ! (part + REC_HDR) \<noteq> 1 then (False, h)
      else let h = h\<lparr>hs_ccs_seen := hs_ccs_seen h + 1\<rparr> in (hs_ccs_seen h \<le> 4, h))"

definition quiet_stream_capped :: "'io handshake_state \<Rightarrow> nat \<Rightarrow> bool \<times> 'io handshake_state" where
  "quiet_stream_capped h part =
     (if pt_len (hs_t h) \<noteq> part then (False, h)
      else let h = h\<lparr>hs_quiet := hs_quiet h + 1\<rparr> in (unat (hs_quiet h) > CH_QUIET_CAP, h))"

text \<open>The unread bytes move to the front of the buffer.\<close>

definition compact :: "'io ch_tls_priv \<Rightarrow> 'io ch_tls_priv" where
  "compact t =
     (if pt_off t > 0 then
        let t = buf_move t 0 (pt_off t) (size_sub (pt_len t) (pt_off t))
        in t\<lparr>pt_len := size_sub (pt_len t) (pt_off t), pt_off := 0\<rparr>
      else t)"

text \<open>The loop spends one of four tolerated records a turn.\<close>

definition ccs_budget :: "'io handshake_state \<Rightarrow> nat" where
  "ccs_budget h = (if hs_ccs_seen h = - 1 then 5 else 4 - unat (hs_ccs_seen h))"

lemma ccs_tolerable_budget: "ccs_tolerable h part n = (True, h') \<Longrightarrow> ccs_budget h' < ccs_budget h"
proof -
  assume "ccs_tolerable h part n = (True, h')"
  then have h': "hs_ccs_seen h' = hs_ccs_seen h + 1" "hs_ccs_seen h' \<le> 4"
    by (auto simp: ccs_tolerable_def Let_def split: if_splits)
  show ?thesis
  proof (cases "hs_ccs_seen h = - 1")
    case True
    then show ?thesis using h' by (simp add: ccs_budget_def)
  next
    case False
    then have "unat (hs_ccs_seen h + 1) = Suc (unat (hs_ccs_seen h))"
      using unatSuc [of "hs_ccs_seen h"] by (simp add: add.commute add_eq_0_iff)
    moreover have "unat (hs_ccs_seen h + 1) \<le> 4" using h' by (simp add: word_le_nat_alt)
    moreover have "hs_ccs_seen h' \<noteq> - 1" using h'(2) by (auto simp: word_le_nat_alt unsigned_minus_1_eq_mask mask_eq_exp_minus_1)
    ultimately show ?thesis using False h'(1) by (simp add: ccs_budget_def)
  qed
qed

function fetch_loop :: "'io handshake_state \<Rightarrow> (rc \<times> 'io handshake_state) option" where
  "fetch_loop h =
     (let t = hs_t h; part = pt_len t;
          (rc, outer, record_len, alert, t) = io_read_record t part (size_sub (cfg_buf_len (cfg t)) part) (hs_alert h);
          h = h\<lparr>hs_t := t, hs_alert := alert\<rparr>
      in if rc \<noteq> CH_OK then Some (rc, h)
         else if outer = REC_CCS then
           let (ok, h) = ccs_tolerable h part record_len
           in if \<not> ok then Some (CH_EPROTO, h\<lparr>hs_alert := ALERT_UNEXPECTED_MESSAGE\<rparr>)
              else fetch_loop h
         else if outer = REC_ALERT then
           let (rc, alert, t) =
                 hsr_refuse_alert t (take (record_len - REC_HDR) (drop (part + REC_HDR) (cfg_buf (cfg t)))) (hs_alert h)
           in Some (rc, h\<lparr>hs_t := t, hs_alert := alert\<rparr>)
         else do {
           (rc, h) \<leftarrow> accept_record h part outer record_len;
           if rc \<noteq> CH_OK then Some (rc, h)
           else
             let (capped, h) = quiet_stream_capped h part
             in if capped then Some (CH_EPROTO, h\<lparr>hs_alert := ALERT_UNEXPECTED_MESSAGE\<rparr>) else Some (CH_OK, h)
         })"
  by pat_completeness auto

termination
  by (relation "measure ccs_budget") (auto dest!: ccs_tolerable_budget [OF sym] simp: ccs_budget_def)

declare fetch_loop.simps [simp del]

definition hsr_fetch_record :: "'io handshake_state \<Rightarrow> (rc \<times> 'io handshake_state) option" where
  "hsr_fetch_record h = fetch_loop (h\<lparr>hs_t := compact (hs_t h)\<rparr>)"

subsection \<open>Messages\<close>

definition msg_len_at :: "bytes \<Rightarrow> nat \<Rightarrow> nat" where
  "msg_len_at buf off = unat (buf ! (off + 1)) * 2 ^ 16 + unat (buf ! (off + 2)) * 2 ^ 8 + unat (buf ! (off + 3))"

text \<open>The result code, the type and the raw bytes of the message, and the state.  Not returning is \<open>None\<close>.\<close>

partial_function (option) hsr_next_msg :: "'io handshake_state \<Rightarrow> (rc \<times> (u8 \<times> bytes) option \<times> 'io handshake_state) option" where
  "hsr_next_msg h =
     (let t = hs_t h; avail = size_sub (pt_len t) (pt_off t); buf = cfg_buf (cfg t); msg_len = msg_len_at buf (pt_off t)
      in if avail \<ge> 4 \<and> msg_len > 0x4000 then Some (CH_EPROTO, None, h)
         else if avail \<ge> 4 \<and> avail \<ge> 4 + msg_len then
           Some (CH_OK, Some (buf ! pt_off t, take (4 + msg_len) (drop (pt_off t) buf)),
             h\<lparr>hs_t := t\<lparr>pt_off := pt_off t + (4 + msg_len)\<rparr>\<rparr>)
         else
           Option.bind (hsr_fetch_record h) (\<lambda>r. if fst r \<noteq> CH_OK then Some (fst r, None, snd r) else hsr_next_msg (snd r)))"

lemma hsr_next_msg_code [code]:
  "hsr_next_msg h =
     (let t = hs_t h; avail = size_sub (pt_len t) (pt_off t); buf = cfg_buf (cfg t); msg_len = msg_len_at buf (pt_off t)
      in if avail \<ge> 4 \<and> msg_len > 0x4000 then Some (CH_EPROTO, None, h)
         else if avail \<ge> 4 \<and> avail \<ge> 4 + msg_len then
           Some (CH_OK, Some (buf ! pt_off t, take (4 + msg_len) (drop (pt_off t) buf)),
             h\<lparr>hs_t := t\<lparr>pt_off := pt_off t + (4 + msg_len)\<rparr>\<rparr>)
         else case hsr_fetch_record h of None \<Rightarrow> None | Some r \<Rightarrow> if fst r \<noteq> CH_OK then Some (fst r, None, snd r) else hsr_next_msg (snd r))"
  by (subst hsr_next_msg.simps) (simp add: Let_def split: option.split)

definition hsr_check_record_end :: "'io handshake_state \<Rightarrow> rc \<times> 'io handshake_state" where
  "hsr_check_record_end h =
     (if pt_off (hs_t h) \<noteq> pt_len (hs_t h) then (CH_EPROTO, h\<lparr>hs_alert := ALERT_UNEXPECTED_MESSAGE\<rparr>) else (CH_OK, h))"

subsection \<open>The fed reader\<close>

definition hsr_feed :: "'io handshake_state \<Rightarrow> bytes \<Rightarrow> nat \<times> 'io handshake_state" where
  "hsr_feed h p =
     (let t = compact (hs_t h);
          room = size_sub (cfg_buf_len (cfg t)) (pt_len t);
          k = (if length p < room then length p else room);
          t = t\<lparr>cfg := (cfg t)\<lparr>cfg_buf := mem_put (cfg_buf (cfg t)) (pt_len t) (take k p)\<rparr>\<rparr>
      in (k, h\<lparr>hs_t := t\<lparr>pt_len := pt_len t + k\<rparr>\<rparr>))"

text \<open>\<open>HSR_INCOMPLETE\<close> is \<open>Inl ()\<close>; a whole message's length is \<open>Inr (Inl n)\<close>, a refusal \<open>Inr (Inr (rc, alert))\<close>.\<close>

definition hsr_peek_message :: "'io handshake_state \<Rightarrow> unit + nat + rc \<times> u8" where
  "hsr_peek_message h =
     (let t = hs_t h; avail = size_sub (pt_len t) (pt_off t)
      in if avail < 4 then Inl ()
         else
           let msg_len = msg_len_at (cfg_buf (cfg t)) (pt_off t)
           in if msg_len > 0x4000 then Inr (Inr (CH_EPROTO, ALERT_DECODE_ERROR))
              else if 4 + msg_len > cfg_buf_len (cfg t) then Inr (Inr (CH_ECAP, ALERT_INTERNAL_ERROR))
              else if avail < 4 + msg_len then Inl ()
              else Inr (Inl (4 + msg_len)))"

definition hsr_next_msg_fed :: "'io handshake_state \<Rightarrow> rc \<times> (u8 \<times> bytes) option \<times> 'io handshake_state" where
  "hsr_next_msg_fed h =
     (case hsr_peek_message h of
        Inl _ \<Rightarrow> (CH_EINVAL, None, h)
      | Inr (Inr (rc, alert)) \<Rightarrow> (rc, None, h\<lparr>hs_alert := alert\<rparr>)
      | Inr (Inl whole) \<Rightarrow>
          let t = hs_t h; p = drop (pt_off t) (cfg_buf (cfg t))
          in (CH_OK, Some (p ! 0, take whole p), h\<lparr>hs_t := t\<lparr>pt_off := pt_off t + whole\<rparr>\<rparr>))"

definition hsr_peek_type :: "'io handshake_state \<Rightarrow> u8 option" where
  "hsr_peek_type h =
     (let t = hs_t h in if pt_off t = pt_len t then None else Some (cfg_buf (cfg t) ! pt_off t))"

subsection \<open>The transcript\<close>

definition hsr_transcript_hash :: "'io handshake_state \<Rightarrow> nat \<Rightarrow> bytes option" where
  "hsr_transcript_hash h hash_len = transcript_hash_after (t_transcript (hs_t h)) hash_len []"

definition hsr_restart_transcript :: "'io handshake_state \<Rightarrow> nat \<Rightarrow> bytes \<Rightarrow> 'io handshake_state option" where
  "hsr_restart_transcript h hash_len retry =
     do {
       ch1 \<leftarrow> transcript_hash_after (t_transcript (hs_t h)) hash_len [];
       let tr = transcript_init (t_transcript (hs_t h));
       tr \<leftarrow> transcript_update tr [HS_MESSAGE_HASH, 0, 0, of_nat hash_len];
       tr \<leftarrow> transcript_update tr (take hash_len ch1);
       tr \<leftarrow> transcript_update tr retry;
       Some (h\<lparr>hs_t := (hs_t h)\<lparr>t_transcript := tr\<rparr>\<rparr>)
     }"

subsection \<open>Specification\<close>

definition hs_wf :: "'io handshake_state \<Rightarrow> bool" where
  "hs_wf h \<longleftrightarrow> tls_wf (hs_t h) \<and> unat (hs_quiet h) \<le> CH_QUIET_CAP"

text \<open>
  The records of a handshake as the peer sends them, apart from the code.  A tolerated change_cipher_spec record is one byte of 1.  A
  record carries a fragment of handshake bytes: all its content, in the clear before the keys are there, and what it opens to under the read
  direction after.  \<open>fetched f enc (io, d) frags (io', d')\<close>: the bytes that \<open>recv\<close> gave from the state \<open>io\<close> to \<open>io'\<close> are, in
  order, records that carry these fragments one after another, each behind any change_cipher_spec records, and opening them moved \<open>d\<close> to \<open>d'\<close>.
\<close>

definition ccs_record :: "bytes \<Rightarrow> bool" where
  "ccs_record rec \<longleftrightarrow> length rec = 6 \<and> rec ! 0 = REC_CCS \<and> rec ! 3 = 0 \<and> rec ! 4 = 1 \<and> rec ! 5 = 1"

definition carries :: "bool \<Rightarrow> rec_dir \<Rightarrow> bytes \<Rightarrow> bytes \<Rightarrow> rec_dir \<Rightarrow> bool" where
  "carries enc d rec frag d' \<longleftrightarrow>
     (if enc then \<exists>cap. rec_open d rec cap = Some (Some (frag, REC_HANDSHAKE), d')
      else rec ! 0 = REC_HANDSHAKE \<and> length rec = 5 + (unat (rec ! 3) * 256 + unat (rec ! 4)) \<and> frag = drop 5 rec \<and> d' = d)"

inductive fetched :: "('io \<Rightarrow> nat \<Rightarrow> int \<times> bytes \<times> 'io) \<Rightarrow> bool \<Rightarrow> 'io \<times> rec_dir \<Rightarrow> bytes list \<Rightarrow> 'io \<times> rec_dir \<Rightarrow> bool" for f enc where
  none: "fetched f enc s [] s"
| more: "received f io (concat ccs @ rec) io1 \<Longrightarrow> list_all ccs_record ccs \<Longrightarrow> carries enc d rec frag d1 \<Longrightarrow>
    fetched f enc (io1, d1) frags s \<Longrightarrow> fetched f enc (io, d) (frag # frags) s"

text \<open>The first whole message at the front of a byte stream, with its type and what follows it.\<close>

definition split_message :: "bytes \<Rightarrow> (u8 \<times> bytes \<times> bytes) option" where
  "split_message bs =
     (if 4 \<le> length bs \<and> 4 + be_nat (take 3 (drop 1 bs)) \<le> length bs
      then let n = 4 + be_nat (take 3 (drop 1 bs)) in Some (bs ! 0, take n bs, drop n bs) else None)"

lemma split_message_append: "split_message bs = Some (ty, raw, rest) \<Longrightarrow> raw @ rest = bs"
  unfolding split_message_def Let_def by (metis Pair_inject append_take_drop_id option.distinct(1) option.inject)

section \<open>Records\<close>

lemma compact_spec:
  assumes "tls_wf t"
  shows "tls_wf (compact t)" "pt_off (compact t) = 0" "pending (compact t) = pending t"
    "\<exists>buf. compact t = t\<lparr>cfg := (cfg t)\<lparr>cfg_buf := buf\<rparr>, pt_len := pt_len (compact t), pt_off := 0\<rparr>"
proof -
  let ?n = "pt_len t - pt_off t" and ?buf = "cfg_buf (cfg t)"
  let ?m = "mem_put ?buf 0 (take ?n (drop (pt_off t) ?buf))"
  have wf: "pt_off t \<le> pt_len t" "pt_len t \<le> length ?buf" "cfg_buf_len (cfg t) = length ?buf" "length (tx t) = 5 + CH_TX_STAGE"
    using assms by (auto simp: tls_wf_def)
  have len: "length (take ?n (drop (pt_off t) ?buf)) = ?n" using wf by simp
  have c: "compact t = (if pt_off t > 0 then t\<lparr>cfg := (cfg t)\<lparr>cfg_buf := ?m\<rparr>, pt_len := ?n, pt_off := 0\<rparr> else t)"
    using wf by (simp add: compact_def buf_move_def Let_def)
  have m: "length ?m = length ?buf" using len wf by (intro mem_put_length) simp
  show "tls_wf (compact t)" "pt_off (compact t) = 0" using c m wf by (auto simp: tls_wf_def)
  show "pending (compact t) = pending t" using c len by (simp add: pending_def mem_put_def)
  show "\<exists>buf. compact t = t\<lparr>cfg := (cfg t)\<lparr>cfg_buf := buf\<rparr>, pt_len := pt_len (compact t), pt_off := 0\<rparr>"
    using c by (cases "pt_off t > 0") (auto intro: exI [of _ ?buf])
qed

lemma refuse_alert_spec:
  obtains al x where "hsr_refuse_alert t pt alert = (CH_EPROTO, al, t\<lparr>alert_received := x\<rparr>)"
proof (cases "length pt = 2 \<and> pt ! 1 \<noteq> ALERT_CLOSE_NOTIFY \<and> pt ! 1 \<noteq> ALERT_USER_CANCELED")
  case True
  then show ?thesis using that by (simp add: hsr_refuse_alert_def)
next
  case False
  then have "hsr_refuse_alert t pt alert = (CH_EPROTO, if length pt \<noteq> 2 then ALERT_DECODE_ERROR else alert, t\<lparr>alert_received := alert_received t\<rparr>)"
    by (auto simp: hsr_refuse_alert_def)
  then show ?thesis by (rule that)
qed

lemma accept_record_spec:
  assumes "tls_wf t" "hs_t h = t" "pt_off t = 0" "5 < n" "pt_len t + n \<le> cfg_buf_len (cfg t)"
  defines "rec \<equiv> take n (drop (pt_len t) (cfg_buf (cfg t)))"
  assumes "outer = rec ! 0" "n = 5 + (unat (rec ! 3) * 256 + unat (rec ! 4))"
  obtains rc h' where "accept_record h (pt_len t) outer n = Some (rc, h')" "hs_quiet h' = hs_quiet h" "hs_ccs_seen h' = hs_ccs_seen h"
    "tls_wf (hs_t h')" "pt_off (hs_t h') = 0"
    "rc = CH_OK \<Longrightarrow> \<exists>frag. pending (hs_t h') = pending t @ frag \<and> carries (hs_encrypted h) (rd t) rec frag (rd (hs_t h'))"
    "hs_encrypted h' = hs_encrypted h" "cfg_io (cfg (hs_t h')) = cfg_io (cfg t)" "cfg_recv (cfg (hs_t h')) = cfg_recv (cfg t)"
proof -
  let ?p = "pt_len t" and ?buf = "cfg_buf (cfg t)"
  have wf: "length ?buf = cfg_buf_len (cfg t)" "length (tx t) = 5 + CH_TX_STAGE" using assms(1) by (auto simp: tls_wf_def)
  have ext: "pending t' = pending t @ take m (drop ?p (cfg_buf (cfg t')))"
    if "take ?p (cfg_buf (cfg t')) = take ?p ?buf" "pt_off t' = 0" "pt_len t' = ?p + m" for t' :: "'a ch_tls_priv" and m
    using that assms(3) by (simp add: pending_def take_add)
  show ?thesis
  proof (cases "hs_encrypted h")
    case False
    let ?m = "mem_put ?buf ?p (take (n - 5) (drop (?p + 5) ?buf))"
    let ?t = "t\<lparr>cfg := (cfg t)\<lparr>cfg_buf := ?m\<rparr>, pt_len := ?p + (n - 5)\<rparr>"
    have len: "length ?m = length ?buf" using assms(5) wf by (intro mem_put_length) simp
    have "accept_record h ?p outer n = Some (if outer = REC_HANDSHAKE then (CH_OK, h\<lparr>hs_t := ?t\<rparr>) else (CH_EPROTO, h))"
      using False assms(2,4) by (simp add: accept_record_def buf_move_def Let_def)
    moreover have "tls_wf ?t" using len assms(1,3-5) wf by (simp add: tls_wf_def)
    moreover have "pending ?t = pending t @ take (n - 5) (drop ?p (cfg_buf (cfg ?t)))"
      using assms(3,5) wf by (intro ext) simp_all
    moreover have "take (n - 5) (drop ?p ?m) = drop 5 rec"
      using assms(4,5) wf by (simp add: mem_put_def rec_def drop_take add.commute)
    moreover have "length rec = n" using assms(5) wf by (simp add: rec_def)
    ultimately have a: "outer = REC_HANDSHAKE \<Longrightarrow> carries (hs_encrypted h) (rd t) rec (drop 5 rec) (rd ?t)" "pending ?t = pending t @ drop 5 rec"
      "tls_wf ?t" "accept_record h ?p outer n = Some (if outer = REC_HANDSHAKE then (CH_OK, h\<lparr>hs_t := ?t\<rparr>) else (CH_EPROTO, h))"
      using False assms(7) assms(8) [symmetric] by (simp_all add: carries_def)
    show ?thesis
    proof (cases "outer = REC_HANDSHAKE")
      case True
      show ?thesis
        by (rule that [of CH_OK "h\<lparr>hs_t := ?t\<rparr>"]) (use a True assms(3) in \<open>simp_all add: exI [of _ "drop 5 rec"]\<close>)
    next
      case False
      show ?thesis by (rule that [of CH_EPROTO h]) (use a(4) False assms(1-3) in simp_all)
    qed
  next
    case True
    show ?thesis
    proof (cases "outer = REC_APPDATA")
      case False
      show ?thesis by (rule that [of CH_EPROTO h]) (use False True assms(1-3) in \<open>simp_all add: accept_record_def\<close>)
    next
      case app: True
      have "?p + n \<le> length (cfg_buf (cfg t))" using assms(5) wf by simp
      then show ?thesis
      proof (cases rule: open_in_place_total)
        case (refused d)
        have "tls_wf (t\<lparr>rd := d\<rparr>)" using assms(1) by (simp add: tls_wf_def)
        then show ?thesis
          using that [of CH_EAUTH "h\<lparr>hs_t := t\<lparr>rd := d\<rparr>, hs_alert := ALERT_BAD_RECORD_MAC\<rparr>"] refused True app assms(2,3)
          by (simp add: accept_record_def)
      next
        case (opened d buf m ty)
        let ?t = "t\<lparr>rd := d, cfg := (cfg t)\<lparr>cfg_buf := buf\<rparr>\<rparr>"
        have wf': "tls_wf ?t" "tls_wf (?t\<lparr>alert_received := a\<rparr>)" "tls_wf (?t\<lparr>pt_len := ?p + m\<rparr>)" for a
          using opened(2,4) assms(1,3,5) by (simp_all add: tls_wf_def)
        have frag: "pending (?t\<lparr>pt_len := ?p + m\<rparr>) = pending t @ take m (drop ?p buf)"
          using ext [of "?t\<lparr>pt_len := ?p + m\<rparr>" m] opened(3) assms(3) by simp
        have carried: "ty = REC_HANDSHAKE \<Longrightarrow> carries (hs_encrypted h) (rd t) rec (take m (drop ?p buf)) d"
          using opened(7) True by (auto simp: carries_def rec_def)
        consider "ty = REC_ALERT" | "ty = REC_HANDSHAKE" | "ty \<noteq> REC_ALERT" "ty \<noteq> REC_HANDSHAKE" by blast
        then show ?thesis
        proof cases
          case 1
          obtain al x where r: "hsr_refuse_alert ?t (take m (drop ?p buf)) (hs_alert h) = (CH_EPROTO, al, ?t\<lparr>alert_received := x\<rparr>)"
            by (rule refuse_alert_spec)
          show ?thesis
            by (rule that [of CH_EPROTO "h\<lparr>hs_t := ?t\<lparr>alert_received := x\<rparr>, hs_alert := al\<rparr>"])
              (use r 1 opened(1) True app assms(2,3) wf' in \<open>simp_all add: accept_record_def\<close>)
        next
          case 2
          then have "ty \<noteq> REC_ALERT" by (simp add: REC_ALERT_def REC_HANDSHAKE_def)
          with 2 show ?thesis
            by (intro that [of CH_OK "h\<lparr>hs_t := ?t\<lparr>pt_len := ?p + m\<rparr>\<rparr>"])
              (use opened(1) True app assms(2,3) wf' frag carried [OF 2] in \<open>auto simp: accept_record_def\<close>)
        next
          case 3
          then show ?thesis
            by (intro that [of CH_EPROTO "h\<lparr>hs_t := ?t\<rparr>"])
              (use opened(1) True app assms(2,3) wf' in \<open>simp_all add: accept_record_def\<close>)
        qed
      qed
    qed
  qed
qed

text \<open>What a fetch took from the peer: a record that carries the fragment, behind change_cipher_spec records.\<close>

definition took :: "'io handshake_state \<Rightarrow> bytes \<Rightarrow> 'io handshake_state \<Rightarrow> bool" where
  "took h frag h' \<longleftrightarrow> hs_encrypted h' = hs_encrypted h \<and> cfg_recv (cfg (hs_t h')) = cfg_recv (cfg (hs_t h)) \<and>
     (recv_ok (cfg_recv (cfg (hs_t h))) \<longrightarrow> (\<exists>ccs rec. list_all ccs_record ccs \<and>
        received (cfg_recv (cfg (hs_t h))) (cfg_io (cfg (hs_t h))) (concat ccs @ rec) (cfg_io (cfg (hs_t h'))) \<and>
        carries (hs_encrypted h) (rd (hs_t h)) rec frag (rd (hs_t h'))))"

definition fetch_ok :: "'io handshake_state \<Rightarrow> rc \<Rightarrow> 'io handshake_state \<Rightarrow> bool" where
  "fetch_ok h rc h' \<longleftrightarrow> tls_wf (hs_t h') \<and> (rc = CH_OK \<longrightarrow> (\<exists>frag. pending (hs_t h') = pending (hs_t h) @ frag \<and> took h frag h' \<and>
     (if frag = [] then hs_quiet h' = hs_quiet h + 1 \<and> unat (hs_quiet h') \<le> CH_QUIET_CAP else hs_quiet h' = hs_quiet h)))"

text \<open>A state that differs in what was read of the peer before the fragment: nothing, or a tolerated record.\<close>

definition skipped :: "'io handshake_state \<Rightarrow> 'io handshake_state \<Rightarrow> bool" where
  "skipped h h1 \<longleftrightarrow> pending (hs_t h1) = pending (hs_t h) \<and> hs_quiet h1 = hs_quiet h \<and> hs_encrypted h1 = hs_encrypted h \<and>
     rd (hs_t h1) = rd (hs_t h) \<and> cfg_recv (cfg (hs_t h1)) = cfg_recv (cfg (hs_t h)) \<and>
     (recv_ok (cfg_recv (cfg (hs_t h))) \<longrightarrow> (\<exists>ccs. list_all ccs_record ccs \<and>
        received (cfg_recv (cfg (hs_t h))) (cfg_io (cfg (hs_t h))) (concat ccs) (cfg_io (cfg (hs_t h1)))))"

lemma took_skipped: "skipped h h1 \<Longrightarrow> took h1 frag h' \<Longrightarrow> took h frag h'"
proof -
  assume s: "skipped h h1" and t: "took h1 frag h'"
  let ?f = "cfg_recv (cfg (hs_t h))" and ?io = "\<lambda>h. cfg_io (cfg (hs_t h))"
  have "\<exists>ccs rec. list_all ccs_record ccs \<and> received ?f (?io h) (concat ccs @ rec) (?io h') \<and>
      carries (hs_encrypted h) (rd (hs_t h)) rec frag (rd (hs_t h'))" if ok: "recv_ok ?f"
  proof -
    obtain ccs where c: "list_all ccs_record ccs" "received ?f (?io h) (concat ccs) (?io h1)" using s ok by (auto simp: skipped_def)
    obtain ccs' rec where r: "list_all ccs_record ccs'" "received ?f (?io h1) (concat ccs' @ rec) (?io h')"
        "carries (hs_encrypted h) (rd (hs_t h)) rec frag (rd (hs_t h'))"
      using s t ok by (auto simp: skipped_def took_def)
    show ?thesis using received_append [OF c(2) r(2)] c(1) r(1,3) by (intro exI [of _ "ccs @ ccs'"] exI [of _ rec]) simp
  qed
  then show ?thesis using s t by (simp add: skipped_def took_def)
qed

lemma fetch_ok_skipped: "skipped h h1 \<Longrightarrow> fetch_ok h1 rc h' \<Longrightarrow> fetch_ok h rc h'"
proof -
  assume s: "skipped h h1" and f: "fetch_ok h1 rc h'"
  have eq: "pending (hs_t h1) = pending (hs_t h)" "hs_quiet h1 = hs_quiet h" using s by (simp_all add: skipped_def)
  show ?thesis using f took_skipped [OF s] unfolding fetch_ok_def eq by blast
qed

lemma one_byte_body: "unat (a :: u8) * 256 + unat (b :: u8) = 1 \<Longrightarrow> a = 0 \<and> b = 1"
proof -
  assume "unat a * 256 + unat b = 1"
  then have "unat a = 0 \<and> unat b = 1" by (cases "unat a") simp_all
  then show ?thesis by (simp add: word_unat_eq_iff)
qed

lemma fetch_loop_step:
  assumes "tls_wf (hs_t h)" "pt_off (hs_t h) = 0"
  shows "(\<exists>rc h'. fetch_loop h = Some (rc, h') \<and> fetch_ok h rc h') \<or>
    (\<exists>h1. fetch_loop h = fetch_loop h1 \<and> ccs_budget h1 < ccs_budget h \<and> tls_wf (hs_t h1) \<and> pt_off (hs_t h1) = 0 \<and> skipped h h1)"
proof -
  define t where "t = hs_t h"
  let ?p = "pt_len t"
  have wf: "?p \<le> cfg_buf_len (cfg t)" "length (cfg_buf (cfg t)) = cfg_buf_len (cfg t)" "tls_wf t" "pt_off t = 0"
    using assms by (auto simp: tls_wf_def t_def)
  obtain rc outer n al t1 where r: "io_read_record t ?p (cfg_buf_len (cfg t) - ?p) (hs_alert h) = (rc, outer, n, al, t1)"
    by (metis prod_cases5)
  obtain c' where c': "t1 = t\<lparr>cfg := c'\<rparr>" "io_moved ?p (cfg t) c'"
    "rc = CH_OK \<Longrightarrow> 5 < n \<and> n \<le> cfg_buf_len (cfg t) - ?p"
    using io_read_record_spec [OF r] wf by auto
  define h1 where "h1 = h\<lparr>hs_t := t1, hs_alert := al\<rparr>"
  have t1: "tls_wf t1" "pt_off t1 = 0" "pt_len t1 = ?p" "pending t1 = pending t" "cfg_buf_len (cfg t1) = cfg_buf_len (cfg t)"
    using wf_moved [OF wf(3) c'(2)] wf(4) c'(1) io_moved_fields(2,3) [OF c'(2)] by (simp_all add: pending_def)
  let ?rec = "take n (drop ?p (cfg_buf (cfg t1)))"
  have rcv: "rd t1 = rd t" "cfg_recv (cfg t1) = cfg_recv (cfg t)" using c'(1) io_moved_fields(5) [OF c'(2)] by simp_all
  have got: "recv_ok (cfg_recv (cfg t)) \<Longrightarrow> received (cfg_recv (cfg t)) (cfg_io (cfg t)) ?rec (cfg_io (cfg t1))" "length ?rec = n" "outer = ?rec ! 0"
      "n = 5 + (unat (?rec ! 3) * 256 + unat (?rec ! 4))" if "rc = CH_OK"
    using io_read_record_received [of t ?p "cfg_buf_len (cfg t) - ?p" "hs_alert h" outer n al t1] r wf(1,2) that by simp_all
  have loop: "fetch_loop h =
     (if rc \<noteq> CH_OK then Some (rc, h1)
      else if outer = REC_CCS then
        let (ok, h) = ccs_tolerable h1 ?p n
        in if \<not> ok then Some (CH_EPROTO, h\<lparr>hs_alert := ALERT_UNEXPECTED_MESSAGE\<rparr>) else fetch_loop h
      else if outer = REC_ALERT then
        let (rc, alert, t) = hsr_refuse_alert t1 (take (n - REC_HDR) (drop (?p + REC_HDR) (cfg_buf (cfg t1)))) al
        in Some (rc, h1\<lparr>hs_t := t, hs_alert := alert\<rparr>)
      else do {
        (rc, h) \<leftarrow> accept_record h1 ?p outer n;
        if rc \<noteq> CH_OK then Some (rc, h)
        else
          let (capped, h) = quiet_stream_capped h ?p
          in if capped then Some (CH_EPROTO, h\<lparr>hs_alert := ALERT_UNEXPECTED_MESSAGE\<rparr>) else Some (CH_OK, h)
      })"
    using r wf(1) by (subst fetch_loop.simps) (simp add: t_def [symmetric] h1_def Let_def)
  consider "rc \<noteq> CH_OK" | "rc = CH_OK" "outer = REC_CCS" | "rc = CH_OK" "outer \<noteq> REC_CCS" "outer = REC_ALERT"
    | "rc = CH_OK" "outer \<noteq> REC_CCS" "outer \<noteq> REC_ALERT" by blast
  then show ?thesis
  proof cases
    case 1
    then show ?thesis using loop t1(1) by (intro disjI1) (simp add: fetch_ok_def h1_def)
  next
    case 2
    obtain ok h2 where k: "ccs_tolerable h1 ?p n = (ok, h2)" by (metis surj_pair)
    then have h2: "hs_t h2 = t1" "hs_quiet h2 = hs_quiet h" "hs_encrypted h2 = hs_encrypted h"
      by (auto simp: ccs_tolerable_def h1_def Let_def split: if_splits)
    show ?thesis
    proof (cases ok)
      case True
      then have "ccs_budget h2 < ccs_budget h1" using k ccs_tolerable_budget by simp
      moreover have "ccs_budget h1 = ccs_budget h" by (simp add: h1_def ccs_budget_def)
      moreover have "skipped h h2"
      proof -
        have six: "n = 6 \<and> ?rec ! 5 = 1"
          using k True t1(3) c'(3) [OF 2(1)] wf(1,2) io_moved_fields(1) [OF c'(2)] c'(1)
          by (auto simp: ccs_tolerable_def h1_def Let_def split: if_splits)
        have "?rec ! 3 = 0 \<and> ?rec ! 4 = 1" using got(4) [OF 2(1)] six by (intro one_byte_body) linarith
        then have "ccs_record ?rec" unfolding ccs_record_def using got(2,3) [OF 2(1)] 2(2) six by metis
        then have "recv_ok (cfg_recv (cfg t)) \<Longrightarrow> \<exists>ccs. list_all ccs_record ccs \<and> received (cfg_recv (cfg t)) (cfg_io (cfg t)) (concat ccs) (cfg_io (cfg t1))"
          using got(1) [OF 2(1)] by (intro exI [of _ "[?rec]"]) simp
        then show ?thesis using h2 t1(4) rcv by (simp add: skipped_def t_def)
      qed
      ultimately show ?thesis using loop 2 k True h2 t1 by (intro disjI2 exI [of _ h2]) (simp add: t_def)
    next
      case False
      then show ?thesis using loop 2 k h2 t1(1) by (intro disjI1) (simp add: fetch_ok_def)
    qed
  next
    case 3
    obtain al2 x where a: "hsr_refuse_alert t1 (take (n - 5) (drop (?p + 5) (cfg_buf (cfg t1)))) al = (CH_EPROTO, al2, t1\<lparr>alert_received := x\<rparr>)"
      by (rule refuse_alert_spec)
    have "tls_wf (t1\<lparr>alert_received := x\<rparr>)" using t1(1) by (simp add: tls_wf_def)
    then show ?thesis using loop 3 a by (intro disjI1) (simp add: fetch_ok_def)
  next
    case 4
    obtain rc2 h2 where a: "accept_record h1 (pt_len t1) outer n = Some (rc2, h2)" "hs_quiet h2 = hs_quiet h1"
      "tls_wf (hs_t h2)" "pt_off (hs_t h2) = 0"
      "rc2 = CH_OK \<Longrightarrow> \<exists>frag. pending (hs_t h2) = pending t1 @ frag \<and> carries (hs_encrypted h1) (rd t1) ?rec frag (rd (hs_t h2))"
      "hs_encrypted h2 = hs_encrypted h1" "cfg_io (cfg (hs_t h2)) = cfg_io (cfg t1)" "cfg_recv (cfg (hs_t h2)) = cfg_recv (cfg t1)"
      by (rule accept_record_spec [of t1 h1 n outer]) (use t1 c'(3) [OF 4(1)] wf(1) got(3,4) [OF 4(1)] in \<open>auto simp: h1_def\<close>)
    show ?thesis
    proof (cases "rc2 = CH_OK")
      case False
      then show ?thesis using loop 4 a t1(3) by (intro disjI1) (simp add: fetch_ok_def)
    next
      case True
      then obtain frag where f: "pending (hs_t h2) = pending t @ frag" "carries (hs_encrypted h) (rd t) ?rec frag (rd (hs_t h2))"
        using a(5) t1(4) rcv(1) by (auto simp: h1_def)
      have "took h frag h2"
        using got(1) [OF 4(1)] f(2) a(6-8) rcv(2) unfolding took_def t_def [symmetric]
        by (auto simp: h1_def intro!: exI [of _ "[]"] exI [of _ ?rec])
      then have took: "took h frag h2" "took h frag (h2\<lparr>hs_quiet := q\<rparr>)" for q by (simp_all add: took_def)
      have "pt_len (hs_t h2) = ?p + length frag"
        using arg_cong [OF f(1), of length] a(3,4) wf(3,4) by simp
      moreover have "hs_quiet h2 = hs_quiet h" using a(2) by (simp add: h1_def)
      ultimately show ?thesis
        using loop 4 a(1,3) True t1(3) f(1) took
        by (intro disjI1) (auto simp: fetch_ok_def quiet_stream_capped_def Let_def t_def not_less split: if_splits)
    qed
  qed
qed

lemma fetch_loop_spec:
  "tls_wf (hs_t h) \<Longrightarrow> pt_off (hs_t h) = 0 \<Longrightarrow> \<exists>rc h'. fetch_loop h = Some (rc, h') \<and> fetch_ok h rc h'"
proof (induction "ccs_budget h" arbitrary: h rule: less_induct)
  case less
  from fetch_loop_step [OF less.prems] show ?case
  proof (elim disjE exE conjE)
    fix h1
    assume h1: "fetch_loop h = fetch_loop h1" "ccs_budget h1 < ccs_budget h" "tls_wf (hs_t h1)" "pt_off (hs_t h1) = 0" "skipped h h1"
    then show ?thesis using less.hyps [OF h1(2-4)] fetch_ok_skipped [OF h1(5)] by auto
  qed blast
qed

lemma fetch_record_spec:
  assumes "tls_wf (hs_t h)"
  obtains rc h' where "hsr_fetch_record h = Some (rc, h')" "fetch_ok h rc h'"
proof -
  let ?h = "h\<lparr>hs_t := compact (hs_t h)\<rparr>"
  obtain rc h' where "fetch_loop ?h = Some (rc, h')" "fetch_ok ?h rc h'"
    using fetch_loop_spec [of ?h] compact_spec(1,2) [OF assms] by auto
  moreover have "skipped h ?h"
  proof -
    obtain buf n where "compact (hs_t h) = (hs_t h)\<lparr>cfg := (cfg (hs_t h))\<lparr>cfg_buf := buf\<rparr>, pt_len := n, pt_off := 0\<rparr>"
      using compact_spec(4) [OF assms] by blast
    then have "rd (compact (hs_t h)) = rd (hs_t h)" "cfg_io (cfg (compact (hs_t h))) = cfg_io (cfg (hs_t h))"
      "cfg_recv (cfg (compact (hs_t h))) = cfg_recv (cfg (hs_t h))" by simp_all
    then show ?thesis using compact_spec(3) [OF assms] by (auto simp: skipped_def intro!: exI [of _ "[]"] received.none)
  qed
  ultimately show ?thesis using that fetch_ok_skipped by (auto simp: hsr_fetch_record_def)
qed

section \<open>Messages\<close>

lemma msg_len_pending:
  assumes "tls_wf t" "4 \<le> length (pending t)"
  shows "msg_len_at (cfg_buf (cfg t)) (pt_off t) = be_nat (take 3 (drop 1 (pending t)))"
    "cfg_buf (cfg t) ! pt_off t = pending t ! 0"
proof -
  have p: "pending t ! i = cfg_buf (cfg t) ! (pt_off t + i)" if "i < 4" for i
    using that assms by (simp add: pending_def tls_wf_def)
  have "take 3 (drop 1 (pending t)) = [pending t ! 1, pending t ! 2, pending t ! 3]"
    using assms(2) by (intro nth_equalityI) (auto simp: nth_Cons' less_Suc_eq numeral_eq_Suc)
  then show "msg_len_at (cfg_buf (cfg t)) (pt_off t) = be_nat (take 3 (drop 1 (pending t)))"
    using p by (simp add: msg_len_at_def be_nat_Cons be_nat_def)
  show "cfg_buf (cfg t) ! pt_off t = pending t ! 0" using p [of 0] by simp
qed

lemma take_pending:
  assumes "tls_wf t" "n \<le> length (pending t)"
  shows "take n (drop (pt_off t) (cfg_buf (cfg t))) = take n (pending t)"
    "pending (t\<lparr>pt_off := pt_off t + n\<rparr>) = drop n (pending t)" "tls_wf (t\<lparr>pt_off := pt_off t + n\<rparr>)"
proof -
  have n: "n \<le> pt_len t - pt_off t" using assms by simp
  show "take n (drop (pt_off t) (cfg_buf (cfg t))) = take n (pending t)" using n by (simp add: pending_def min.absorb1)
  show "pending (t\<lparr>pt_off := pt_off t + n\<rparr>) = drop n (pending t)" by (simp add: pending_def drop_take add.commute)
  show "tls_wf (t\<lparr>pt_off := pt_off t + n\<rparr>)" using assms(1) n by (auto simp: tls_wf_def)
qed

text \<open>One turn of the loop, on the pending bytes.\<close>

lemma next_msg_step:
  assumes "tls_wf (hs_t h)"
  shows "hsr_next_msg h =
    (let t = hs_t h; p = pending t; n = be_nat (take 3 (drop 1 p))
     in if length p \<ge> 4 \<and> n > 0x4000 then Some (CH_EPROTO, None, h)
        else if length p \<ge> 4 \<and> length p \<ge> 4 + n then
          Some (CH_OK, Some (p ! 0, take (4 + n) p), h\<lparr>hs_t := t\<lparr>pt_off := pt_off t + (4 + n)\<rparr>\<rparr>)
        else Option.bind (hsr_fetch_record h) (\<lambda>r. if fst r \<noteq> CH_OK then Some (fst r, None, snd r) else hsr_next_msg (snd r)))"
proof -
  have a: "size_sub (pt_len (hs_t h)) (pt_off (hs_t h)) = length (pending (hs_t h))" using assms by (simp add: tls_wf_def)
  show ?thesis
  proof (cases "4 \<le> length (pending (hs_t h))")
    case True
    then show ?thesis
      using take_pending(1) [OF assms] msg_len_pending [OF assms True] by (subst hsr_next_msg.simps) (simp add: Let_def a)
  next
    case False
    then show ?thesis by (subst hsr_next_msg.simps) (simp add: Let_def a)
  qed
qed

text \<open>The loop ends: every record that is read adds bytes, of which a message takes a bounded number, or spends the quiet budget.\<close>

definition read_budget :: "'io handshake_state \<Rightarrow> nat" where
  "read_budget h = (0x4004 - length (pending (hs_t h))) + (CH_QUIET_CAP - unat (hs_quiet h))"

lemma fetch_budget:
  assumes "hs_wf h" "fetch_ok h CH_OK h'" "length (pending (hs_t h)) < 0x4004"
  shows "hs_wf h'" "read_budget h' < read_budget h" "\<exists>frag. pending (hs_t h') = pending (hs_t h) @ frag \<and> took h frag h'"
proof -
  obtain frag where f: "pending (hs_t h') = pending (hs_t h) @ frag"
    "if frag = [] then hs_quiet h' = hs_quiet h + 1 \<and> unat (hs_quiet h') \<le> CH_QUIET_CAP else hs_quiet h' = hs_quiet h" "took h frag h'"
    using assms(2) by (auto simp: fetch_ok_def)
  have q: "unat (hs_quiet h) \<le> 32" using assms(1) by (simp add: hs_wf_def CH_QUIET_CAP_def)
  then have q1: "unat (hs_quiet h + 1) = Suc (unat (hs_quiet h))" by (simp add: unat_word_ariths)
  show "read_budget h' < read_budget h"
  proof (cases "frag = []")
    case True
    then show ?thesis using f assms(3) q1 by (auto simp: read_budget_def CH_QUIET_CAP_def)
  next
    case False
    then have g: "length frag > 0" "length (pending (hs_t h')) = length (pending (hs_t h)) + length frag" "hs_quiet h' = hs_quiet h"
      using f by auto
    show ?thesis unfolding read_budget_def g(3) using g(1,2) assms(3) by linarith
  qed
  show "hs_wf h'" using assms(1,2) f(2) by (cases "frag = []") (auto simp: hs_wf_def fetch_ok_def)
  show "\<exists>frag. pending (hs_t h') = pending (hs_t h) @ frag \<and> took h frag h'" using f(1,3) by blast
qed

definition delivers :: "'io handshake_state \<Rightarrow> (u8 \<times> bytes) option \<Rightarrow> 'io handshake_state \<Rightarrow> bool" where
  "delivers h m h' \<longleftrightarrow> (\<exists>frags ty raw. m = Some (ty, raw) \<and> split_message (pending (hs_t h) @ concat frags) = Some (ty, raw, pending (hs_t h')) \<and>
     length raw \<le> 0x4004 \<and> (recv_ok (cfg_recv (cfg (hs_t h))) \<longrightarrow> fetched (cfg_recv (cfg (hs_t h))) (hs_encrypted h)
       (cfg_io (cfg (hs_t h)), rd (hs_t h)) frags (cfg_io (cfg (hs_t h')), rd (hs_t h'))))"

lemma delivers_more:
  assumes "pending (hs_t h1) = pending (hs_t h) @ frag" "took h frag h1" "delivers h1 m h'"
  shows "delivers h m h'"
proof -
  obtain frags ty raw where d: "m = Some (ty, raw)" "split_message (pending (hs_t h1) @ concat frags) = Some (ty, raw, pending (hs_t h'))"
    "length raw \<le> 0x4004" "recv_ok (cfg_recv (cfg (hs_t h1))) \<longrightarrow> fetched (cfg_recv (cfg (hs_t h1))) (hs_encrypted h1)
      (cfg_io (cfg (hs_t h1)), rd (hs_t h1)) frags (cfg_io (cfg (hs_t h')), rd (hs_t h'))"
    using assms(3) unfolding delivers_def by blast
  have "fetched (cfg_recv (cfg (hs_t h))) (hs_encrypted h) (cfg_io (cfg (hs_t h)), rd (hs_t h)) (frag # frags)
      (cfg_io (cfg (hs_t h')), rd (hs_t h'))" if "recv_ok (cfg_recv (cfg (hs_t h)))"
    using assms(2) d(4) that by (auto simp: took_def intro: fetched.more)
  then show ?thesis unfolding delivers_def using d(1-3) assms(1) by (intro exI [of _ "frag # frags"]) simp
qed

lemma next_msg_total:
  "hs_wf h \<Longrightarrow> \<exists>rc m h'. hsr_next_msg h = Some (rc, m, h') \<and> tls_wf (hs_t h') \<and> (rc = CH_OK \<longrightarrow> hs_wf h' \<and> delivers h m h')"
proof (induction "read_budget h" arbitrary: h rule: less_induct)
  case less
  let ?p = "pending (hs_t h)"
  let ?n = "be_nat (take 3 (drop 1 ?p))"
  have wf: "tls_wf (hs_t h)" using less.prems by (simp add: hs_wf_def)
  note step = next_msg_step [OF wf, unfolded Let_def]
  consider "length ?p \<ge> 4 \<and> ?n > 0x4000" | "length ?p \<ge> 4 \<and> length ?p \<ge> 4 + ?n" "?n \<le> 0x4000"
    | "\<not> (length ?p \<ge> 4 \<and> ?n > 0x4000)" "\<not> (length ?p \<ge> 4 \<and> length ?p \<ge> 4 + ?n)" by linarith
  then show ?case
  proof cases
    case 1
    then show ?thesis using step wf by simp
  next
    case 2
    let ?h = "h\<lparr>hs_t := (hs_t h)\<lparr>pt_off := pt_off (hs_t h) + (4 + ?n)\<rparr>\<rparr>"
    have "hsr_next_msg h = Some (CH_OK, Some (?p ! 0, take (4 + ?n) ?p), ?h)" using 2 step by simp
    moreover have t: "pending (hs_t ?h) = drop (4 + ?n) ?p" "tls_wf (hs_t ?h)" using take_pending(2,3) [OF wf, of "4 + ?n"] 2 by simp_all
    moreover have "split_message ?p = Some (?p ! 0, take (4 + ?n) ?p, pending (hs_t ?h))"
      using 2 t(1) by (simp add: split_message_def Let_def)
    then have "delivers h (Some (?p ! 0, take (4 + ?n) ?p)) ?h"
      unfolding delivers_def using 2 by (intro exI [of _ "[]"]) (simp add: fetched.none)
    ultimately show ?thesis using less.prems by (auto simp: hs_wf_def)
  next
    case 3
    then have short: "length ?p < 0x4004" by linarith
    obtain rc h1 where f: "hsr_fetch_record h = Some (rc, h1)" "fetch_ok h rc h1" by (rule fetch_record_spec [OF wf])
    then have next_eq: "hsr_next_msg h = (if rc \<noteq> CH_OK then Some (rc, None, h1) else hsr_next_msg h1)"
      unfolding step if_not_P [OF 3(1)] if_not_P [OF 3(2)] by simp
    show ?thesis
    proof (cases "rc = CH_OK")
      case False
      then show ?thesis using next_eq f(2) by (simp add: fetch_ok_def)
    next
      case True
      note b = fetch_budget [OF less.prems f(2) [unfolded True] short]
      obtain rc' m h' where "hsr_next_msg h1 = Some (rc', m, h')" "tls_wf (hs_t h')" "rc' = CH_OK \<longrightarrow> hs_wf h' \<and> delivers h1 m h'"
        using less.hyps [OF b(2,1)] by blast
      then show ?thesis using next_eq True b(3) delivers_more by (metis (no_types, lifting))
    qed
  qed
qed


section \<open>Properties\<close>

text \<open>A handshake in its cleartext part, reading from a stream in memory: an input for the examples.\<close>

definition stream_hs :: "bytes \<Rightarrow> nat \<Rightarrow> bytes handshake_state" where
  "stream_hs s n =
     \<lparr>hs_t = stream_tls s n, hs_priv = [], hs_pub = [], hs_random = [], hs_early = [], hs_binder_key = [], hs_handshake_secret = [],
      hs_c_hs = [], hs_s_hs = [], hs_master = [], hs_cookie = [], hs_cookie_len = 0, hs_record_size_limit = 0, hs_encrypted = False,
      hs_ccs_seen = 0, hs_quiet = 0, hs_alert = ALERT_DECODE_ERROR, hs_server_finished_ok = False\<rparr>"

lemma stream_hs_wf [simp]: "hs_wf (stream_hs s n)"
  by (simp add: stream_hs_def hs_wf_def)

text \<open>
  C9: Reading a handshake message always returns.  Whatever bytes, counts or errors the caller's \<open>recv\<close> gives, however long the
  peer keeps sending records without content or change_cipher_spec records, \<open>hsr_next_msg\<close> ends with a result code, stops in no
  assertion, and leaves the read offsets inside the buffer; on success it leaves the reader ready for the next message.
\<close>

theorem hsr_next_msg_returns:
  assumes "hs_wf h"
  shows "\<exists>rc m h'. hsr_next_msg h = Some (rc, m, h') \<and> tls_wf (hs_t h') \<and> (rc = CH_OK \<longrightarrow> hs_wf h')"
  using next_msg_total [OF assms] by blast

theorem hsr_next_msg_returns_witness:
  "hs_wf (stream_hs (replicate 400 20) 600) \<and>
   (\<exists>rc m h'. hsr_next_msg (stream_hs (replicate 400 20) 600) = Some (rc, m, h') \<and> tls_wf (hs_t h') \<and> (rc = CH_OK \<longrightarrow> hs_wf h'))"
  using hsr_next_msg_returns [of "stream_hs (replicate 400 20) 600"] by simp

text \<open>
  C8: The reader joins records into messages without losing, repeating or reordering a byte of what the peer sent.  When
  \<open>hsr_next_msg\<close> succeeds, the bytes that \<open>recv\<close> gave it are whole records: behind change_cipher_spec records that are passed over, each carries one
  fragment, its whole content in the clear, or what it opens to under the read key and the next sequence number once the handshake is encrypted.  The call
  returns the first whole message of the bytes that were unread followed by those fragments, with its type and at most 0x4000 bytes
  of body, and the bytes after it stay unread.  The \<open>recv\<close> callback is assumed to write as many bytes as it reports.
\<close>

theorem hsr_next_msg_stream:
  assumes "hs_wf h" "hsr_next_msg h = Some (CH_OK, m, h')" "recv_ok (cfg_recv (cfg (hs_t h)))"
  shows "\<exists>frags ty raw. fetched (cfg_recv (cfg (hs_t h))) (hs_encrypted h) (cfg_io (cfg (hs_t h)), rd (hs_t h)) frags
      (cfg_io (cfg (hs_t h')), rd (hs_t h')) \<and> m = Some (ty, raw) \<and> length raw \<le> 4 + 0x4000 \<and>
    split_message (pending (hs_t h) @ concat frags) = Some (ty, raw, pending (hs_t h')) \<and>
    raw @ pending (hs_t h') = pending (hs_t h) @ concat frags"
proof -
  have "delivers h m h'" using next_msg_total [OF assms(1)] assms(2) by auto
  then show ?thesis using assms(3) split_message_append unfolding delivers_def by fastforce
qed

theorem hsr_next_msg_stream_witness:
  "\<exists>h' frags. hsr_next_msg (stream_hs [22, 3, 3, 0, 3, 1, 0, 0, 22, 3, 3, 0, 4, 1, 7, 8, 0] 64) = Some (CH_OK, Some (1, [1, 0, 0, 1, 7]), h') \<and>
    pending (hs_t h') = [8, 0] \<and> concat frags = [1, 0, 0, 1, 7, 8, 0] \<and>
    fetched stream_recv False ([22, 3, 3, 0, 3, 1, 0, 0, 22, 3, 3, 0, 4, 1, 7, 8, 0], rec_dir_zero) frags (cfg_io (cfg (hs_t h')), rd (hs_t h'))"
proof -
  let ?h = "stream_hs [22, 3, 3, 0, 3, 1, 0, 0, 22, 3, 3, 0, 4, 1, 7, 8, 0] 64"
  have "map_option (\<lambda>(rc, m, h'). (rc, m, pending (hs_t h'))) (hsr_next_msg ?h) = Some (CH_OK, Some (1, [1, 0, 0, 1, 7]), [8, 0])"
    by code_simp
  then obtain h' where h': "hsr_next_msg ?h = Some (CH_OK, Some (1, [1, 0, 0, 1, 7]), h')" "pending (hs_t h') = [8, 0]" by auto
  have "pending (hs_t ?h) = []" "recv_ok (cfg_recv (cfg (hs_t ?h)))" "cfg_recv (cfg (hs_t ?h)) = stream_recv" "\<not> hs_encrypted ?h"
    "cfg_io (cfg (hs_t ?h)) = [22, 3, 3, 0, 3, 1, 0, 0, 22, 3, 3, 0, 4, 1, 7, 8, 0]" "rd (hs_t ?h) = rec_dir_zero"
    by (simp_all add: stream_hs_def stream_tls_def stream_cfg_def pending_def)
  then show ?thesis using hsr_next_msg_stream [OF stream_hs_wf h'(1)] h' by auto
qed


lemma hsr_feed_spec:
  assumes "tls_wf (hs_t h)" "hsr_feed h p = (k, h')"
  shows "tls_wf (hs_t h')" "pending (hs_t h') = pending (hs_t h) @ take k p" "k \<le> length p"
    "k < length p \<Longrightarrow> length (pending (hs_t h')) = cfg_buf_len (cfg (hs_t h'))" "cfg_buf_len (cfg (hs_t h')) = cfg_buf_len (cfg (hs_t h))"
proof -
  define t where "t = compact (hs_t h)"
  have t: "tls_wf t" "pt_off t = 0" "pending t = pending (hs_t h)" using compact_spec(1-3) [OF assms(1)] by (simp_all add: t_def)
  have len: "cfg_buf_len (cfg t) = cfg_buf_len (cfg (hs_t h))" using compact_spec(4) [OF assms(1)] by (metis (mono_tags, lifting) ch_cfg.select_convs(12) ch_cfg.surjective ch_cfg.update_convs(11) ch_tls_priv.select_convs(1) ch_tls_priv.surjective ch_tls_priv.update_convs(1,22,23) t_def)
  have wf: "pt_len t \<le> cfg_buf_len (cfg t)" "length (cfg_buf (cfg t)) = cfg_buf_len (cfg t)" using t(1) by (simp_all add: tls_wf_def)
  let ?m = "mem_put (cfg_buf (cfg t)) (pt_len t) (take k p)"
  have k: "k = min (length p) (cfg_buf_len (cfg t) - pt_len t)" and h': "hs_t h' = t\<lparr>cfg := (cfg t)\<lparr>cfg_buf := ?m\<rparr>, pt_len := pt_len t + k\<rparr>"
    using assms(2) wf(1) by (auto simp: hsr_feed_def Let_def t_def [symmetric] min_def)
  show "k \<le> length p" using k by simp
  have m: "length ?m = length (cfg_buf (cfg t))" using k wf by (intro mem_put_length) simp
  show wf': "tls_wf (hs_t h')" using t(1,2) h' m k wf by (simp add: tls_wf_def)
  have "take (pt_len t + k) ?m = take (pt_len t) (cfg_buf (cfg t)) @ take k p"
    using take_mem_put_end [of "pt_len t" "cfg_buf (cfg t)" "take k p"] wf \<open>k \<le> length p\<close> by simp
  then show "pending (hs_t h') = pending (hs_t h) @ take k p" using h' t(2) unfolding t(3) [symmetric] by (simp add: pending_def)
  show "cfg_buf_len (cfg (hs_t h')) = cfg_buf_len (cfg (hs_t h))" using h' len by simp
  show "k < length p \<Longrightarrow> length (pending (hs_t h')) = cfg_buf_len (cfg (hs_t h'))"
    using wf' h' t(2) k wf(1) by simp
qed

lemma hsr_peek_spec:
  assumes "tls_wf (hs_t h)"
  shows "hsr_peek_message h =
    (let p = pending (hs_t h); n = be_nat (take 3 (drop 1 p))
     in if length p < 4 then Inl ()
        else if n > 0x4000 then Inr (Inr (CH_EPROTO, ALERT_DECODE_ERROR))
        else if 4 + n > cfg_buf_len (cfg (hs_t h)) then Inr (Inr (CH_ECAP, ALERT_INTERNAL_ERROR))
        else if length p < 4 + n then Inl () else Inr (Inl (4 + n)))"
proof -
  have a: "size_sub (pt_len (hs_t h)) (pt_off (hs_t h)) = length (pending (hs_t h))" using assms by (simp add: tls_wf_def)
  show ?thesis using msg_len_pending(1) [OF assms] by (simp add: hsr_peek_message_def Let_def a)
qed

text \<open>
  C17: The fed reader takes bytes as a queue does and never stalls.  \<open>hsr_feed\<close> appends the bytes it takes behind the unread ones;
  when it leaves some of its input, a whole message can be taken or is refused, so \<open>hsr_peek_message\<close> does not ask for more;
  and where that reports a message, \<open>hsr_next_msg_fed\<close> hands over the first message of the stream and keeps what follows.
\<close>

theorem hsr_feed_stream:
  assumes "tls_wf (hs_t h)" "4 \<le> cfg_buf_len (cfg (hs_t h))" "hsr_feed h p = (k, h1)"
  shows "tls_wf (hs_t h1) \<and> pending (hs_t h1) = pending (hs_t h) @ take k p \<and> k \<le> length p \<and>
    (k < length p \<longrightarrow> hsr_peek_message h1 \<noteq> Inl ()) \<and>
    (\<forall>n. hsr_peek_message h1 = Inr (Inl n) \<longrightarrow> (\<exists>ty raw h2. hsr_next_msg_fed h1 = (CH_OK, Some (ty, raw), h2) \<and> tls_wf (hs_t h2) \<and>
       split_message (pending (hs_t h) @ take k p) = Some (ty, raw, pending (hs_t h2))))"
proof -
  note f = hsr_feed_spec [OF assms(1,3)]
  let ?p = "pending (hs_t h1)"
  let ?n = "be_nat (take 3 (drop 1 ?p))"
  note peek = hsr_peek_spec [OF f(1), unfolded Let_def]
  have "hsr_peek_message h1 \<noteq> Inl ()" if "k < length p"
    using f(4) [OF that] f(5) assms(2) unfolding peek by simp
  moreover have "\<exists>ty raw h2. hsr_next_msg_fed h1 = (CH_OK, Some (ty, raw), h2) \<and> tls_wf (hs_t h2) \<and>
      split_message ?p = Some (ty, raw, pending (hs_t h2))" if n: "hsr_peek_message h1 = Inr (Inl n)" for n
  proof -
    have n': "n = 4 + ?n" "4 + ?n \<le> length ?p" using n unfolding peek by (auto split: if_splits)
    let ?h = "h1\<lparr>hs_t := (hs_t h1)\<lparr>pt_off := pt_off (hs_t h1) + n\<rparr>\<rparr>"
    have t: "take n (drop (pt_off (hs_t h1)) (cfg_buf (cfg (hs_t h1)))) = take n ?p" "pending (hs_t ?h) = drop n ?p" "tls_wf (hs_t ?h)"
      using take_pending [OF f(1), of n] n' by simp_all
    have "pt_off (hs_t h1) \<le> length (cfg_buf (cfg (hs_t h1)))" using f(1) by (auto simp: tls_wf_def)
    then have "hsr_next_msg_fed h1 = (CH_OK, Some (?p ! 0, take n ?p), ?h)"
      using n t(1) msg_len_pending(2) [OF f(1)] n' by (simp add: hsr_next_msg_fed_def Let_def f(1))
    moreover have "split_message ?p = Some (?p ! 0, take n ?p, pending (hs_t ?h))" using n' t(2) by (simp add: split_message_def Let_def)
    ultimately show ?thesis using t(3) by blast
  qed
  ultimately show ?thesis using f(1-3) by auto
qed

theorem hsr_feed_stream_witness:
  "\<exists>k h1 h2. hsr_feed (stream_hs [] 6) [20, 0, 0, 1, 9, 4, 0, 0] = (k, h1) \<and> k = 6 \<and>
     hsr_next_msg_fed h1 = (CH_OK, Some (20, [20, 0, 0, 1, 9]), h2) \<and> pending (hs_t h2) = [4]"
proof -
  let ?h = "stream_hs [] 6" and ?p = "[20, 0, 0, 1, 9, 4, 0, 0] :: bytes"
  obtain k h1 where e: "hsr_feed ?h ?p = (k, h1)" by (metis surj_pair)
  have v: "fst (hsr_feed ?h ?p) = 6" "hsr_peek_message (snd (hsr_feed ?h ?p)) = Inr (Inl 5)"
    "tls_wf (hs_t ?h)" "4 \<le> cfg_buf_len (cfg (hs_t ?h))" "pending (hs_t ?h) = []" "split_message (take 6 ?p) = Some (20, [20, 0, 0, 1, 9], [4])"
    by (code_simp, code_simp, simp add: stream_hs_def, code_simp, code_simp, code_simp)
  show ?thesis using hsr_feed_stream [OF v(3,4) e] v(1,2,5,6) e by auto
qed

text \<open>
  C18: A HelloRetryRequest restarts the transcript as RFC 8446 4.4.1 states: where the transcript held the first ClientHello, it
  then holds a message_hash message, whose body is the SHA-256 hash of that ClientHello, followed by the retry request.
\<close>

theorem hsr_restart_transcript_holds:
  assumes "transcript_holds (t_transcript (hs_t h)) ch1"
  shows "\<exists>h'. hsr_restart_transcript h 32 retry = Some h' \<and>
    transcript_holds (t_transcript (hs_t h')) ([HS_MESSAGE_HASH, 0, 0, 32] @ sha256_hash ch1 @ retry) \<and>
    hsr_transcript_hash h' 32 = Some (sha256_hash ([HS_MESSAGE_HASH, 0, 0, 32] @ sha256_hash ch1 @ retry))"
proof -
  let ?t = "t_transcript (hs_t h)"
  have hash: "transcript_hash_after ?t 32 [] = Some (sha256_hash ch1)" using transcript_hash_after_holds [OF assms, of "[]"] by simp
  have "length (hc_block (sha256_state ?t)) = 64" using assms by (auto simp: ctx_holds_def ctx_parts_def)
  then have 0: "transcript_holds (transcript_init ?t) []" by (rule transcript_init_holds)
  obtain t1 where 1: "transcript_update (transcript_init ?t) [HS_MESSAGE_HASH, 0, 0, 32] = Some t1" "transcript_holds t1 [HS_MESSAGE_HASH, 0, 0, 32]"
    using transcript_update_holds [OF 0] by force
  obtain t2 where 2: "transcript_update t1 (sha256_hash ch1) = Some t2" "transcript_holds t2 ([HS_MESSAGE_HASH, 0, 0, 32] @ sha256_hash ch1)"
    using transcript_update_holds [OF 1(2)] by blast
  obtain t3 where 3: "transcript_update t2 retry = Some t3" "transcript_holds t3 ([HS_MESSAGE_HASH, 0, 0, 32] @ sha256_hash ch1 @ retry)"
    using transcript_update_holds [OF 2(2), of retry] by auto
  show ?thesis
    using hash 1(1) 2(1) 3 transcript_hash_after_holds [OF 3(2), of "[]"]
    by (simp add: hsr_restart_transcript_def hsr_transcript_hash_def)
qed

theorem hsr_restart_transcript_holds_witness:
  "\<exists>h'. hsr_restart_transcript (stream_hs [] 64) 32 [2, 0, 0, 0] = Some h' \<and>
    hsr_transcript_hash h' 32 = Some (sha256_hash ([HS_MESSAGE_HASH, 0, 0, 32] @ sha256_hash [] @ [2, 0, 0, 0]))"
proof -
  have "transcript_holds (t_transcript (hs_t (stream_hs [] 64))) []" using stream_tls_transcript by (simp add: stream_hs_def)
  then show ?thesis using hsr_restart_transcript_holds [of "stream_hs [] 64" "[]" "[2, 0, 0, 0]"] by blast
qed

end
