(* ===== verification/Wire.thy ===== *)
theory Wire
  imports Buf
begin

text \<open>
  The fields and vectors that the messages of \<open>src/handshake_post.c\<close> and \<open>src/handshake_parser.c\<close> are made of, as the byte
  reader meets them.  Each step lemma has two directions: what a reader call returns where its field stands in front of it, and
  that a call which does not fail had its field there.
\<close>

section \<open>Vectors\<close>

text \<open>A field and the vectors of the wire formats: a length of one or two bytes, then that many bytes.\<close>

definition be32 :: "u32 \<Rightarrow> bytes" where
  "be32 v = ucast (drop_bit 24 v) # be24 v"

definition vec8 :: "bytes \<Rightarrow> bytes" where
  "vec8 bs = of_nat (length bs) # bs"

definition vec16 :: "bytes \<Rightarrow> bytes" where
  "vec16 bs = be16 (of_nat (length bs)) @ bs"

lemma byte_high: "\<not> bit (b :: u8) (8 + n)" "\<not> bit (b :: u8) (16 + n)" "\<not> bit (b :: u8) (24 + n)"
  using bit_imp_le_length [of b "8 + n"] bit_imp_le_length [of b "16 + n"] bit_imp_le_length [of b "24 + n"] by auto

lemma be16_join: "be16 (push_bit 8 (ucast (a :: u8)) OR ucast (b :: u8)) = [a, b]"
  unfolding be16_def by (auto simp: bit_simps byte_high intro!: bit_word_eqI)

lemma be32_join:
  "be32 (push_bit 8 (push_bit 8 (push_bit 8 (ucast (a :: u8)) OR ucast (b :: u8)) OR ucast (c :: u8)) OR ucast (d :: u8)) = [a, b, c, d]"
  unfolding be32_def be24_def by (auto simp: bit_simps byte_high intro!: bit_word_eqI)

lemma length_be32 [simp]: "length (be32 v) = 4"
  by (simp add: be32_def be24_def)

lemma be_nat_be32: "be_nat (be32 v) = unat v"
proof -
  have lt: "unat (take_bit 24 v) < 2 ^ 24" by (simp add: unat_take_bit)
  have "be32 v = ucast (drop_bit 24 v) # be24 (take_bit 24 v)"
    unfolding be32_def be24_def by (auto simp: bit_simps intro!: bit_word_eqI)
  moreover have "unat v div 16777216 < 256" using unat_u32_less [of v] by (simp add: div_less_iff_less_mult)
  then have "unat (ucast (drop_bit 24 v) :: u8) = unat v div 16777216" by (simp add: unat_ucast_mod unat_drop_bit)
  ultimately have "be_nat (be32 v) = unat v div 16777216 * 16777216 + unat v mod 16777216"
    using be_nat_be24 [OF lt] by (simp add: be_nat_Cons unat_take_bit be24_def)
  then show ?thesis by simp
qed

lemma be32_inject: "be32 v = be32 w \<longleftrightarrow> v = w"
  by (metis be_nat_be32 word_unat_eq_iff)

lemma join_be32:
  "push_bit 8 (push_bit 8 (push_bit 8 (ucast (ucast (drop_bit 24 v) :: u8)) OR ucast (ucast (drop_bit 16 v) :: u8)) OR
     ucast (ucast (drop_bit 8 v) :: u8)) OR ucast (ucast v :: u8) = (v :: u32)"
  by (rule be32_inject [THEN iffD1]) (simp only: be32_join, simp add: be32_def be24_def)

lemma rb_u8_step:
  assumes "rb_wf r"
  shows "rb_view r = Some (v # rest) \<Longrightarrow> fst (rb_u8 r) = v \<and> rb_view (snd (rb_u8 r)) = Some rest"
    "rb_view (snd (rb_u8 r)) = Some rest \<Longrightarrow> rb_view r = Some (fst (rb_u8 r) # rest)"
  using assms by (auto simp: rb_laws split: option.splits list.splits)

lemma rb_u16_step:
  assumes "rb_wf r"
  shows "rb_view r = Some (be16 v @ rest) \<Longrightarrow> fst (rb_u16 r) = v \<and> rb_view (snd (rb_u16 r)) = Some rest"
    "rb_view (snd (rb_u16 r)) = Some rest \<Longrightarrow> rb_view r = Some (be16 (fst (rb_u16 r)) @ rest)"
proof -
  show "rb_view r = Some (be16 v @ rest) \<Longrightarrow> fst (rb_u16 r) = v \<and> rb_view (snd (rb_u16 r)) = Some rest"
    using rb_u16_be16 [OF assms] rb_u16_view [OF assms] by simp
next
  assume "rb_view (snd (rb_u16 r)) = Some rest"
  then obtain a b where v: "rb_view r = Some (a # b # rest)"
    using rb_u16_view [OF assms] by (auto split: option.splits if_splits simp: numeral_2_eq_2 Suc_le_length_iff)
  then have "fst (rb_u16 r) = push_bit 8 (ucast a) OR ucast b"
    using rb.gets_enough [OF assms, of "[a, b]" rest 2] by (simp add: rb_u16_gets case_prod_beta Let_def)
  then show "rb_view r = Some (be16 (fst (rb_u16 r)) @ rest)" using v by (simp add: be16_join)
qed

lemma rb_u32_step:
  assumes "rb_wf r"
  defines "r1 \<equiv> snd (rb_u24 r)"
  defines "x \<equiv> push_bit 8 (fst (rb_u24 r)) OR ucast (fst (rb_u8 r1)) :: u32" and "r2 \<equiv> snd (rb_u8 r1)"
  shows "rb_wf r2" "rb_view r = Some (be32 v @ rest) \<Longrightarrow> x = v \<and> rb_view r2 = Some rest"
    "rb_view r2 = Some rest \<Longrightarrow> rb_view r = Some (be32 x @ rest)"
proof -
  have r1: "rb_wf r1" using assms(1) by (simp add: r1_def rb_u24_wf)
  then show "rb_wf r2" by (simp add: r2_def rb_u8_wf)
  have val: "x = push_bit 8 (push_bit 8 (push_bit 8 (ucast a) OR ucast b) OR ucast c) OR ucast d" "rb_view r2 = Some rest"
    if v: "rb_view r = Some (a # b # c # d # rest)" for a b c d
  proof -
    have "rb_view r1 = Some (d # rest)" using v rb_u24_view [OF assms(1)] by (simp add: r1_def)
    moreover have "fst (rb_u24 r) = push_bit 8 (push_bit 8 (ucast a) OR ucast b) OR ucast c"
      using rb.gets_enough [OF assms(1), of "[a, b, c]" "d # rest" 3] v by (simp add: rb_u24_gets case_prod_beta Let_def)
    ultimately show "x = push_bit 8 (push_bit 8 (push_bit 8 (ucast a) OR ucast b) OR ucast c) OR ucast d" "rb_view r2 = Some rest"
      using rb_u8_step(1) [OF r1] by (simp_all add: x_def r2_def)
  qed
  show "rb_view r = Some (be32 v @ rest) \<Longrightarrow> x = v \<and> rb_view r2 = Some rest"
    using val [of "ucast (drop_bit 24 v)" "ucast (drop_bit 16 v)" "ucast (drop_bit 8 v)" "ucast v"] unfolding join_be32
    by (simp add: be32_def be24_def)
  assume "rb_view r2 = Some rest"
  then have "rb_view r1 = Some (fst (rb_u8 r1) # rest)" using rb_u8_step(2) [OF r1] by (simp add: r2_def)
  then obtain a b c d where v: "rb_view r = Some (a # b # c # d # rest)"
    using rb_u24_view [OF assms(1)] by (auto simp: r1_def split: option.splits if_splits simp: numeral_3_eq_3 Suc_le_length_iff)
  show "rb_view r = Some (be32 x @ rest)" unfolding val(1) [OF v] be32_join using v by simp
qed

lemma rb_bytes_step:
  assumes "rb_wf r"
  shows "rb_view r = Some (bs @ rest) \<Longrightarrow> n = length bs \<Longrightarrow> fst (rb_bytes r n) = Some bs \<and> rb_view (snd (rb_bytes r n)) = Some rest"
    "rb_view (snd (rb_bytes r n)) = Some rest \<Longrightarrow> \<exists>bs. length bs = n \<and> fst (rb_bytes r n) = Some bs \<and> rb_view r = Some (bs @ rest)"
  using assms by (auto simp: rb_bytes_value rb_bytes_view split: option.splits if_splits)

lemma rb_vec8_step:
  assumes "rb_wf r"
  defines "r1 \<equiv> snd (rb_u8 r)" and "len \<equiv> fst (rb_u8 r)"
  defines "x \<equiv> fst (rb_bytes r1 (unat len))" and "r2 \<equiv> snd (rb_bytes r1 (unat len))"
  shows "rb_wf r2" "rb_view r = Some (vec8 bs @ rest) \<Longrightarrow> length bs < 256 \<Longrightarrow> unat len = length bs \<and> x = Some bs \<and> rb_view r2 = Some rest"
    "rb_view r2 = Some rest \<Longrightarrow> \<exists>bs. length bs < 256 \<and> rb_view r = Some (vec8 bs @ rest)"
proof -
  have r1: "rb_wf r1" using assms(1) by (simp add: r1_def rb_u8_wf)
  then show "rb_wf r2" by (simp add: r2_def rb_bytes_wf)
  show "unat len = length bs \<and> x = Some bs \<and> rb_view r2 = Some rest" if v: "rb_view r = Some (vec8 bs @ rest)" "length bs < 256"
  proof -
    have "len = of_nat (length bs)" "rb_view r1 = Some (bs @ rest)"
      using v(1) rb_u8_step(1) [OF assms(1)] by (simp_all add: vec8_def len_def r1_def)
    then show ?thesis using rb_bytes_step(1) [OF r1] v(2) by (simp add: x_def r2_def unat_of_nat)
  qed
  assume "rb_view r2 = Some rest"
  then obtain bs where bs: "length bs = unat len" "rb_view r1 = Some (bs @ rest)"
    using rb_bytes_step(2) [OF r1] unfolding r2_def by blast
  then have "rb_view r = Some (vec8 bs @ rest)" using rb_u8_step(2) [OF assms(1)] by (simp add: vec8_def len_def r1_def)
  then show "\<exists>bs. length bs < 256 \<and> rb_view r = Some (vec8 bs @ rest)" using bs(1) by (intro exI [of _ bs]) simp
qed

lemma rb_vec16_step:
  assumes "rb_wf r"
  defines "r1 \<equiv> snd (rb_u16 r)" and "len \<equiv> fst (rb_u16 r)"
  defines "x \<equiv> fst (rb_bytes r1 (unat len))" and "r2 \<equiv> snd (rb_bytes r1 (unat len))"
  shows "rb_wf r2" "rb_view r = Some (vec16 bs @ rest) \<Longrightarrow> length bs < 65536 \<Longrightarrow> unat len = length bs \<and> x = Some bs \<and> rb_view r2 = Some rest"
    "rb_view r2 = Some rest \<Longrightarrow> \<exists>bs. length bs < 65536 \<and> rb_view r = Some (vec16 bs @ rest)"
proof -
  have r1: "rb_wf r1" using assms(1) by (simp add: r1_def rb_u16_wf)
  then show "rb_wf r2" by (simp add: r2_def rb_bytes_wf)
  show "unat len = length bs \<and> x = Some bs \<and> rb_view r2 = Some rest" if v: "rb_view r = Some (vec16 bs @ rest)" "length bs < 65536"
  proof -
    have "len = of_nat (length bs)" "rb_view r1 = Some (bs @ rest)"
      using v(1) rb_u16_step(1) [OF assms(1)] by (simp_all add: vec16_def len_def r1_def)
    then show ?thesis using rb_bytes_step(1) [OF r1] v(2) by (simp add: x_def r2_def unat_of_nat)
  qed
  assume "rb_view r2 = Some rest"
  then obtain bs where bs: "length bs = unat len" "rb_view r1 = Some (bs @ rest)"
    using rb_bytes_step(2) [OF r1] unfolding r2_def by blast
  then have "rb_view r = Some (vec16 bs @ rest)" using rb_u16_step(2) [OF assms(1)] by (simp add: vec16_def len_def r1_def)
  then show "\<exists>bs. length bs < 65536 \<and> rb_view r = Some (vec16 bs @ rest)" using bs(1) by (intro exI [of _ bs]) simp
qed
end
