(* ===== verification/Post.thy ===== *)
theory Post
  imports Hs_Record Wire Ct
begin

text \<open>
  The messages a server may send on a connected session, \<open>src/handshake_post.c\<close> with the inline helpers of
  \<open>src/handshake_post.h\<close> and \<open>include/chapulin/ticket.h\<close>: NewSessionTicket, KeyUpdate, and the tickets a client keeps and
  presents.  A raw build's client; the outer \<open>None\<close> is a stop in an assertion, and for \<open>drain_run\<close> also a loop that does not end.
\<close>

section \<open>Model\<close>

definition SHA256_LEN :: nat where "SHA256_LEN = 32"
definition HS_NEW_SESSION_TICKET :: u8 where "HS_NEW_SESSION_TICKET = 4"
definition HS_KEY_UPDATE :: u8 where "HS_KEY_UPDATE = 24"
definition CH_TICKET_ID_MAX :: nat where "CH_TICKET_ID_MAX = 320"
definition CH_TICKET_LIFETIME_MAX :: u32 where "CH_TICKET_LIFETIME_MAX = 604800"
definition CH_KEY_UPDATE_RUN_MAX :: u8 where "CH_KEY_UPDATE_RUN_MAX = 16"
definition HSPOST_SEND_EPOCHS_MAX :: u64 where "HSPOST_SEND_EPOCHS_MAX = 0xffffffffffff"
definition HSPOST_TRUST_PIN :: u8 where "HSPOST_TRUST_PIN = 1"
definition HSPOST_TRUST_PSK :: u8 where "HSPOST_TRUST_PSK = 2"

subsection \<open>Tickets a client keeps\<close>

definition ch_ticket_save :: "ch_ticket \<Rightarrow> (rc \<times> ch_saved_ticket option)" where
  "ch_ticket_save ticket =
     (case tk_identity ticket of
        None \<Rightarrow> (CH_EINVAL, None)
      | Some identity \<Rightarrow>
          if tk_identity_len ticket = 0 \<or> tk_identity_len ticket > CH_TICKET_ID_MAX then (CH_EINVAL, None)
          else
            (CH_OK, Some \<lparr>st_ticket = ticket\<lparr>tk_identity := None\<rparr>,
               st_identity = map (\<lambda>i. if i < tk_identity_len ticket then identity ! i else 0) [0..<CH_TICKET_ID_MAX]\<rparr>))"

definition ticket_obfuscated_age :: "ch_ticket \<Rightarrow> u64 \<Rightarrow> u32" where
  "ticket_obfuscated_age ticket age_ms = ucast age_ms + tk_age_add ticket"

definition ch_ticket_obfuscated_age :: "ch_ticket \<Rightarrow> u64 \<Rightarrow> u32" where
  "ch_ticket_obfuscated_age ticket age_ms = ticket_obfuscated_age ticket age_ms"

subsection \<open>The trust a ticket names\<close>

definition trust_label :: bytes where
  "trust_label = ascii ''chapulin ticket trust''"

definition hspost_trust_hash :: "u8 \<Rightarrow> bytes \<Rightarrow> nat \<Rightarrow> bytes option" where
  "hspost_trust_hash kind bs len =
     do {
       s \<leftarrow> sha256_update (sha256_init (ctx_fresh [] 64)) trust_label;
       s \<leftarrow> sha256_update s [kind];
       s \<leftarrow> sha256_update s (take len bs);
       (out, s) \<leftarrow> sha256_final s;
       Some out
     }"

definition trust_names :: "u8 \<Rightarrow> bytes option \<Rightarrow> nat \<Rightarrow> bytes \<Rightarrow> u32 option" where
  "trust_names kind bs len want =
     (case bs of
        None \<Rightarrow> Some 0
      | Some bs \<Rightarrow>
          do {
            hash \<leftarrow> hspost_trust_hash kind bs len;
            Some (ct_memeq hash want SHA256_LEN)
          })"

definition hspost_trust_holds :: "'io ch_cfg \<Rightarrow> ch_ticket \<Rightarrow> bool option" where
  "hspost_trust_holds c ticket =
     do {
       a \<leftarrow> trust_names HSPOST_TRUST_PIN (cfg_server_pubkey c) (cfg_server_pubkey_len c) (tk_trust_hash ticket);
       b \<leftarrow> trust_names HSPOST_TRUST_PIN (cfg_server_pubkey2 c) (cfg_server_pubkey2_len c) (tk_trust_hash ticket);
       p \<leftarrow> trust_names HSPOST_TRUST_PSK (cfg_psk c) (cfg_psk_len c) (tk_trust_hash ticket);
       Some (a OR b OR p \<noteq> 0)
     }"

text \<open>A session that is neither resumed nor keyed by a PSK was authenticated by a pin; hashing at \<open>NULL\<close> would be a fault, \<open>None\<close>.\<close>

definition ticket_trust :: "'io ch_tls_priv \<Rightarrow> bytes option" where
  "ticket_trust t =
     (case cfg_ticket (cfg t) of
        Some saved \<Rightarrow> Some (tk_trust_hash (st_ticket saved))
      | None \<Rightarrow>
          (case cfg_psk (cfg t) of
             Some psk \<Rightarrow> hspost_trust_hash HSPOST_TRUST_PSK psk (cfg_psk_len (cfg t))
           | None \<Rightarrow>
               let second = (pin_slot t = 2)
               in do {
                    key \<leftarrow> (if second then cfg_server_pubkey2 (cfg t) else cfg_server_pubkey (cfg t));
                    hspost_trust_hash HSPOST_TRUST_PIN key
                      (if second then cfg_server_pubkey2_len (cfg t) else cfg_server_pubkey_len (cfg t))
                  }))"

subsection \<open>Presenting a ticket\<close>

text \<open>The answer and the configuration, into whose PSK fields the ticket is written.\<close>

definition hspost_present_ticket :: "'io ch_cfg \<Rightarrow> (bool \<times> 'io ch_cfg) option" where
  "hspost_present_ticket c =
     (case cfg_ticket c of
        None \<Rightarrow> Some (True, c)
      | Some saved \<Rightarrow>
          let psk_len = tk_psk_len (st_ticket saved)
          in if (psk_len \<noteq> SHA256_LEN \<and> psk_len \<noteq> HKDF_HASH_MAX) \<or> tk_lifetime_s (st_ticket saved) = 0 then Some (False, c)
             else do {
               holds \<leftarrow> hspost_trust_holds c (st_ticket saved);
               if \<not> holds then Some (False, c)
               else
                 Some (True,
                   c\<lparr>cfg_psk := Some (tk_psk (st_ticket saved)), cfg_psk_len := psk_len, cfg_psk_id := Some (st_identity saved),
                     cfg_psk_id_len := tk_identity_len (st_ticket saved), cfg_server_pubkey := None, cfg_server_pubkey_len := 0,
                     cfg_server_pubkey2 := None, cfg_server_pubkey2_len := 0\<rparr>)
             })"

definition hspost_ticket_age_ok :: "'io ch_cfg \<Rightarrow> bool" where
  "hspost_ticket_age_ok c =
     (case cfg_ticket c of
        None \<Rightarrow> True
      | Some saved \<Rightarrow>
          let lifetime_s =
                (if tk_lifetime_s (st_ticket saved) < CH_TICKET_LIFETIME_MAX then tk_lifetime_s (st_ticket saved)
                 else CH_TICKET_LIFETIME_MAX);
              lifetime_ms = lifetime_s * 1000
          in cfg_ticket_age_ms c \<le> ucast lifetime_ms)"

subsection \<open>NewSessionTicket\<close>

text \<open>
  The reads of \<open>handle_ticket\<close>: lifetime, age_add, the lengths and bytes of the nonce and the identity, and whether the fields
  fill the message.
\<close>

definition ticket_fields :: "bytes \<Rightarrow> u32 \<times> u32 \<times> u8 \<times> bytes option \<times> u16 \<times> bytes option \<times> bool" where
  "ticket_fields body =
     (let r = rb_init body (length body);
          (hi, r) = rb_u24 r; (lo, r) = rb_u8 r; lifetime_s = push_bit 8 hi OR ucast lo;
          (hi, r) = rb_u24 r; (lo, r) = rb_u8 r; age_add = push_bit 8 hi OR ucast lo;
          (nonce_len, r) = rb_u8 r;
          (nonce, r) = rb_bytes r (unat nonce_len);
          (identity_len, r) = rb_u16 r;
          (identity, r) = rb_bytes r (unat identity_len);
          (ext_len, r) = rb_u16 r;
          r = rb_skip r (unat ext_len)
      in (lifetime_s, age_add, nonce_len, nonce, identity_len, identity, \<not> (rb_err r \<or> rb_left r \<noteq> 0)))"

text \<open>The result code, the alert and the session, whose caller state \<open>on_ticket\<close> moves.\<close>

definition handle_ticket :: "'io ch_tls_priv \<Rightarrow> bytes \<Rightarrow> u8 \<Rightarrow> (rc \<times> u8 \<times> 'io ch_tls_priv) option" where
  "handle_ticket t body alert =
     (let (lifetime_s, age_add, nonce_len, nonce, identity_len, identity, fills) = ticket_fields body
      in if \<not> fills then Some (CH_EPROTO, ALERT_DECODE_ERROR, t)
         else
           case cfg_on_ticket (cfg t) of
             None \<Rightarrow> Some (CH_OK, alert, t)
           | Some on_ticket \<Rightarrow>
               if lifetime_s = 0 \<or> unat nonce_len > SHA256_LEN \<or> unat identity_len > CH_TICKET_ID_MAX then Some (CH_OK, alert, t)
               else do {
                 nonce \<leftarrow> nonce;
                 psk \<leftarrow> ks_res_psk (tls_hash_len t) (res_master t) nonce;
                 trust \<leftarrow> ticket_trust t;
                 let ticket = \<lparr>tk_identity = identity, tk_identity_len = unat identity_len, tk_psk = psk, tk_psk_len = tls_hash_len t,
                       tk_lifetime_s = lifetime_s, tk_age_add = age_add, tk_epoch = epoch t, tk_trust_hash = trust\<rparr>;
                 Some (CH_OK, alert, t\<lparr>cfg := (cfg t)\<lparr>cfg_io := on_ticket (cfg_io (cfg t)) ticket\<rparr>\<rparr>)
               })"

definition take_ticket :: "'io ch_tls_priv \<Rightarrow> bytes \<Rightarrow> u8 \<Rightarrow> (rc \<times> u8 \<times> 'io ch_tls_priv) option" where
  "take_ticket t body alert = handle_ticket t body alert"

subsection \<open>KeyUpdate\<close>

definition hspost_send_key_update :: "'io ch_tls_priv \<Rightarrow> (rc \<times> 'io ch_tls_priv) option" where
  "hspost_send_key_update t =
     do {
       (n, t) \<leftarrow> tx_seal t REC_HANDSHAKE [HS_KEY_UPDATE, 0, 0, 1, 0];
       case n of
         None \<Rightarrow> Some (CH_EIO, t)
       | Some n \<Rightarrow>
           let (rc, t) = tx_send t n
           in if rc \<noteq> CH_OK then Some (CH_EIO, t)
              else do {
                (secret, d) \<leftarrow> rec_dir_update (wr_secret t) (wr t);
                Some (CH_OK, t\<lparr>wr_secret := secret, wr := d, send_epochs := send_epochs t + 1, key_update_owed := False\<rparr>)
              }
     }"

definition handle_key_update :: "'io ch_tls_priv \<Rightarrow> u8 \<Rightarrow> 'io ch_tls_priv option" where
  "handle_key_update t request =
     do {
       let t = t\<lparr>key_update_run := key_update_run t + 1\<rparr>;
       (secret, d) \<leftarrow> rec_dir_update (rd_secret t) (rd t);
       let t = t\<lparr>rd_secret := secret, rd := d\<rparr>;
       Some (if request = 1 \<and> send_epochs t < HSPOST_SEND_EPOCHS_MAX then t\<lparr>key_update_owed := True\<rparr> else t)
     }"

definition take_key_update :: "'io ch_tls_priv \<Rightarrow> bytes \<Rightarrow> bool \<Rightarrow> u8 \<Rightarrow> (rc \<times> u8 \<times> 'io ch_tls_priv) option" where
  "take_key_update t body ends_input alert =
     (if length body \<noteq> 1 then Some (CH_EPROTO, ALERT_DECODE_ERROR, t)
      else if body ! 0 > 1 then Some (CH_EPROTO, ALERT_ILLEGAL_PARAMETER, t)
      else if \<not> ends_input then Some (CH_EPROTO, alert, t)
      else if key_update_run t \<ge> CH_KEY_UPDATE_RUN_MAX then Some (CH_KEY_UPDATE_LIMIT, alert, t)
      else do {
        t \<leftarrow> handle_key_update t (body ! 0);
        Some (CH_OK, alert, t)
      })"

subsection \<open>A run of messages\<close>

text \<open>
  The messages in the first \<open>n\<close> bytes of \<open>cfg.buf\<close>, from \<open>off\<close> on: the result code, the bytes used, the alert and the session.
  The offset starts at 0 and a message is taken only where it ends at or before \<open>n\<close>, so \<open>n - off\<close> does not wrap.
\<close>

function handle_post_handshake :: "'io ch_tls_priv \<Rightarrow> nat \<Rightarrow> nat \<Rightarrow> u8 \<Rightarrow> (rc \<times> nat \<times> u8 \<times> 'io ch_tls_priv) option" where
  "handle_post_handshake t n off alert =
     (if n - off \<ge> 4 then
        let pt = cfg_buf (cfg t); type = pt ! off; msg_len = msg_len_at pt off
        in if msg_len > 0x4000 \<or> 4 + msg_len > cfg_buf_len (cfg t) then Some (CH_EPROTO, 0, alert, t)
           else if off + 4 + msg_len > n then Some (CH_OK, off, alert, t)
           else
             let body = take msg_len (drop (off + 4) pt)
             in do {
               (rc, alert, t) \<leftarrow>
                 (if type = HS_NEW_SESSION_TICKET then take_ticket t body alert
                  else if type = HS_KEY_UPDATE then take_key_update t body (off + 4 + msg_len = n) alert
                  else Some (CH_EPROTO, alert, t));
               if rc \<noteq> CH_OK then Some (rc, 0, alert, t) else handle_post_handshake t n (off + (4 + msg_len)) alert
             }
      else Some (CH_OK, off, alert, t))"
  by pat_completeness auto

termination
  by (relation "measure (\<lambda>(t, n, off, alert). n - off)") auto

declare handle_post_handshake.simps [simp del]

text \<open>The result code, the length of the content, the alert and the session.\<close>

definition open_fragment :: "'io ch_tls_priv \<Rightarrow> nat \<Rightarrow> u8 \<Rightarrow> nat \<Rightarrow> u8 \<Rightarrow> (rc \<times> nat \<times> u8 \<times> 'io ch_tls_priv) option" where
  "open_fragment t fill outer record_len alert =
     (if outer \<noteq> REC_APPDATA then Some (CH_EAUTH, 0, ALERT_BAD_RECORD_MAC, t)
      else do {
        (opened, t) \<leftarrow> open_in_place t fill record_len;
        case opened of
          None \<Rightarrow> Some (CH_EAUTH, 0, ALERT_BAD_RECORD_MAC, t)
        | Some (n, inner_type) \<Rightarrow>
            if inner_type = REC_ALERT then
              let (rc, alert, t) = hsr_refuse_alert t (take n (drop fill (cfg_buf (cfg t)))) alert in Some (rc, n, alert, t)
            else Some (if inner_type = REC_HANDSHAKE then CH_OK else CH_EPROTO, n, alert, t)
      })"

text \<open>
  One turn of the loop of \<open>drain_run\<close>: a return with its result code, alert and session, or the length of the fragment read, the
  bytes now in the buffer, the alert and the session.
\<close>

definition drain_turn ::
    "'io ch_tls_priv \<Rightarrow> nat \<Rightarrow> u8 \<Rightarrow> (rc \<times> u8 \<times> 'io ch_tls_priv + nat \<times> nat \<times> u8 \<times> 'io ch_tls_priv) option" where
  "drain_turn t fill alert =
     do {
       (rc, used, alert, t) \<leftarrow> handle_post_handshake t fill 0 alert;
       if rc \<noteq> CH_OK then Some (Inl (rc, alert, t))
       else if used = fill then Some (Inl (CH_OK, alert, t))
       else
         let t = buf_move t 0 used (size_sub fill used);
             fill = size_sub fill used;
             (rc, outer, record_len, alert, t) = io_read_record t fill (size_sub (cfg_buf_len (cfg t)) fill) alert
         in if rc \<noteq> CH_OK then Some (Inl (rc, alert, t))
            else do {
              (rc, n, alert, t) \<leftarrow> open_fragment t fill outer record_len alert;
              if rc \<noteq> CH_OK then Some (Inl (rc, alert, t)) else Some (Inr (n, fill + n, alert, t))
            }
     }"

partial_function (option) drain_run :: "'io ch_tls_priv \<Rightarrow> nat \<Rightarrow> nat \<Rightarrow> u8 \<Rightarrow> (rc \<times> u8 \<times> 'io ch_tls_priv) option" where
  "drain_run t fill quiet alert =
     (if quiet < CH_QUIET_CAP then
        Option.bind (drain_turn t fill alert)
          (\<lambda>r. case r of
             Inl out \<Rightarrow> Some out
           | Inr (n, fill, alert, t) \<Rightarrow> drain_run t fill (if n = 0 then quiet + 1 else quiet) alert)
      else Some (CH_EPROTO, alert, t))"

definition hspost_read :: "'io ch_tls_priv \<Rightarrow> nat \<Rightarrow> (rc \<times> 'io ch_tls_priv) option" where
  "hspost_read t n =
     do {
       (rc, alert, t) \<leftarrow> drain_run t n 0 ALERT_UNEXPECTED_MESSAGE;
       if rc \<noteq> CH_OK then do {
         (_, t) \<leftarrow> tlsi_fail t alert;
         Some (rc, t)
       }
       else Some (CH_OK, t)
     }"

subsection \<open>Specification\<close>

text \<open>
  The wire form of a NewSessionTicket (RFC 9846 4.7.1), the hash a trust is named by, the trust of a session, and the ticket a
  session makes of a message.
\<close>

definition ticket_wire :: "u32 \<Rightarrow> u32 \<Rightarrow> bytes \<Rightarrow> bytes \<Rightarrow> bytes \<Rightarrow> bytes" where
  "ticket_wire life add nonce identity exts = be32 life @ be32 add @ vec8 nonce @ vec16 identity @ vec16 exts"

definition ticket_lengths :: "bytes \<Rightarrow> bytes \<Rightarrow> bytes \<Rightarrow> bool" where
  "ticket_lengths nonce identity exts \<longleftrightarrow> length nonce < 256 \<and> length identity < 65536 \<and> length exts < 65536"

definition trust_hash :: "u8 \<Rightarrow> bytes \<Rightarrow> bytes" where
  "trust_hash kind bs = sha256_hash (trust_label @ kind # bs)"

definition session_trust :: "'io ch_tls_priv \<Rightarrow> bytes option" where
  "session_trust t =
     (case cfg_ticket (cfg t) of
        Some saved \<Rightarrow> Some (tk_trust_hash (st_ticket saved))
      | None \<Rightarrow>
          case cfg_psk (cfg t) of
            Some psk \<Rightarrow> Some (trust_hash HSPOST_TRUST_PSK (take (cfg_psk_len (cfg t)) psk))
          | None \<Rightarrow>
              if pin_slot t = 2
              then map_option (\<lambda>k. trust_hash HSPOST_TRUST_PIN (take (cfg_server_pubkey2_len (cfg t)) k)) (cfg_server_pubkey2 (cfg t))
              else map_option (\<lambda>k. trust_hash HSPOST_TRUST_PIN (take (cfg_server_pubkey_len (cfg t)) k)) (cfg_server_pubkey (cfg t)))"

definition made_ticket :: "'io ch_tls_priv \<Rightarrow> bytes \<Rightarrow> u32 \<Rightarrow> u32 \<Rightarrow> bytes \<Rightarrow> bytes \<Rightarrow> ch_ticket" where
  "made_ticket t trust life add nonce identity =
     \<lparr>tk_identity = Some identity, tk_identity_len = length identity, tk_psk = label_okm (res_master t) ''resumption'' nonce 32,
      tk_psk_len = 32, tk_lifetime_s = life, tk_age_add = add, tk_epoch = epoch t, tk_trust_hash = trust\<rparr>"

section \<open>Tickets\<close>

lemma trust_hash_eq: "hspost_trust_hash kind bs len = Some (trust_hash kind (take len bs))"
proof -
  have "length (hc_block (ctx_fresh ([] :: u32 list) 64)) = 64" by simp
  then have 0: "sha256_holds (sha256_init (ctx_fresh [] 64)) []" by (rule sha.init_holds)
  obtain s1 where 1: "sha256_update (sha256_init (ctx_fresh [] 64)) trust_label = Some s1" "sha256_holds s1 trust_label"
    using sha256_update_holds [OF 0, of trust_label] by auto
  obtain s2 where 2: "sha256_update s1 [kind] = Some s2" "sha256_holds s2 (trust_label @ [kind])"
    using sha256_update_holds [OF 1(2)] by blast
  obtain s3 where 3: "sha256_update s2 (take len bs) = Some s3" "sha256_holds s3 (trust_label @ kind # take len bs)"
    using sha256_update_holds [OF 2(2), of "take len bs"] by auto
  obtain s4 where "sha256_final s3 = Some (sha256_hash (trust_label @ kind # take len bs), s4)"
    using sha256_final_holds [OF 3(2)] by blast
  then show ?thesis using 1(1) 2(1) 3(1) by (simp add: hspost_trust_hash_def trust_hash_def)
qed

lemma ticket_trust_eq: "ticket_trust t = session_trust t"
  by (auto simp: ticket_trust_def session_trust_def trust_hash_eq Let_def map_option_case split: option.splits)

lemma vec_lengths: "length (vec8 bs) = Suc (length bs)" "length (vec16 bs) = 2 + length bs"
  by (simp_all add: vec8_def vec16_def)

lemma ticket_fields_exact:
  shows "body = ticket_wire life add nonce identity exts \<Longrightarrow> ticket_lengths nonce identity exts \<Longrightarrow>
      ticket_fields body = (life, add, of_nat (length nonce), Some nonce, of_nat (length identity), Some identity, True)"
    and "ticket_fields body = (a, b, c, d, e, f, True) \<Longrightarrow>
      \<exists>life add nonce identity exts. body = ticket_wire life add nonce identity exts \<and> ticket_lengths nonce identity exts"
proof -
  define r0 where "r0 = rb_init body (length body)"
  define r1 where "r1 = snd (rb_u8 (snd (rb_u24 r0)))"
  define r2 where "r2 = snd (rb_u8 (snd (rb_u24 r1)))"
  define r3 where "r3 = snd (rb_bytes (snd (rb_u8 r2)) (unat (fst (rb_u8 r2))))"
  define r4 where "r4 = snd (rb_bytes (snd (rb_u16 r3)) (unat (fst (rb_u16 r3))))"
  define r5 where "r5 = snd (rb_bytes (snd (rb_u16 r4)) (unat (fst (rb_u16 r4))))"
  have v0: "rb_wf r0" "rb_view r0 = Some body" by (simp_all add: r0_def rb_init_wf rb_init_view)
  note s1 = rb_u32_step [OF v0(1), folded r1_def]
  note s2 = rb_u32_step [OF s1(1), folded r2_def]
  note s3 = rb_vec8_step [OF s2(1), folded r3_def]
  note s4 = rb_vec16_step [OF s3(1), folded r4_def]
  note s5 = rb_vec16_step [OF s4(1), folded r5_def]
  have fields: "ticket_fields body =
     (push_bit 8 (fst (rb_u24 r0)) OR ucast (fst (rb_u8 (snd (rb_u24 r0)))), push_bit 8 (fst (rb_u24 r1)) OR ucast (fst (rb_u8 (snd (rb_u24 r1)))),
      fst (rb_u8 r2), fst (rb_bytes (snd (rb_u8 r2)) (unat (fst (rb_u8 r2)))),
      fst (rb_u16 r3), fst (rb_bytes (snd (rb_u16 r3)) (unat (fst (rb_u16 r3)))), rb_view r5 = Some [])"
    using s5(1) by (simp add: ticket_fields_def case_prod_beta Let_def r0_def [symmetric] r1_def [symmetric] r2_def [symmetric]
        r3_def [symmetric] r4_def [symmetric] rb_skip_def r5_def [symmetric] rb_err_view rb_left_view split: option.splits)
  show "ticket_fields body = (life, add, of_nat (length nonce), Some nonce, of_nat (length identity), Some identity, True)"
    if b: "body = ticket_wire life add nonce identity exts" and l: "ticket_lengths nonce identity exts"
  proof -
    have len: "length nonce < 256" "length identity < 65536" "length exts < 65536" using l by (auto simp: ticket_lengths_def)
    note f1 = s1(2) [OF v0(2) [unfolded b ticket_wire_def]]
    note f2 = s2(2) [OF f1 [THEN conjunct2]]
    note f3 = s3(2) [OF f2 [THEN conjunct2] len(1)]
    note f4 = s4(2) [of identity "vec16 exts", OF f3 [THEN conjunct2, THEN conjunct2] len(2)]
    note f5 = s5(2) [of exts "[]", simplified, OF f4 [THEN conjunct2, THEN conjunct2] len(3)]
    have "fst (rb_u8 r2) = of_nat (length nonce)" "fst (rb_u16 r3) = of_nat (length identity)"
      using f3 [THEN conjunct1, symmetric] f4 [THEN conjunct1, symmetric] by simp_all
    then show ?thesis using f1 f2 f3 f4 f5 unfolding fields prod.inject by blast
  qed
  assume "ticket_fields body = (a, b, c, d, e, f, True)"
  then have "rb_view r5 = Some []" unfolding fields by blast
  then obtain exts where e: "length exts < 65536" "rb_view r4 = Some (vec16 exts)" using s5(3) by force
  then obtain identity where i: "length identity < 65536" "rb_view r3 = Some (vec16 identity @ vec16 exts)" using s4(3) by blast
  then obtain nonce where n: "length nonce < 256" "rb_view r2 = Some (vec8 nonce @ vec16 identity @ vec16 exts)" using s3(3) by blast
  from s1(3) [OF s2(3) [OF n(2)]] v0(2)
  show "\<exists>life add nonce identity exts. body = ticket_wire life add nonce identity exts \<and> ticket_lengths nonce identity exts"
    using e(1) i(1) n(1) by (auto simp: ticket_wire_def ticket_lengths_def)
qed

lemma handle_ticket_whole:
  assumes "session_trust t = Some trust" "ticket_lengths nonce identity exts"
  shows "handle_ticket t (ticket_wire life add nonce identity exts) alert =
    Some (CH_OK, alert,
      case cfg_on_ticket (cfg t) of
        None \<Rightarrow> t
      | Some on_ticket \<Rightarrow>
          if life = 0 \<or> 32 < length nonce \<or> 320 < length identity then t
          else t\<lparr>cfg := (cfg t)\<lparr>cfg_io := on_ticket (cfg_io (cfg t)) (made_ticket t trust life add nonce identity)\<rparr>\<rparr>)"
proof -
  note w = ticket_fields_exact(1) [OF refl assms(2), of life add]
  have u: "unat (of_nat (length nonce) :: u8) = length nonce" "unat (of_nat (length identity) :: u16) = length identity"
    using assms(2) by (simp_all add: ticket_lengths_def unat_of_nat)
  have "ks_res_psk 32 (res_master t) nonce = Some (label_okm (res_master t) ''resumption'' nonce 32)" if "length nonce \<le> 32"
    using that by (simp add: ks_res_psk_def hkdf_expand_label_okm)
  then show ?thesis
    using assms(1) w by (auto simp: handle_ticket_def u SHA256_LEN_def CH_TICKET_ID_MAX_def tls_hash_len_def ticket_trust_eq made_ticket_def
        split: option.split)
qed

lemma handle_ticket_bad:
  assumes "\<nexists>life add nonce identity exts. body = ticket_wire life add nonce identity exts \<and> ticket_lengths nonce identity exts"
  shows "handle_ticket t body alert = Some (CH_EPROTO, ALERT_DECODE_ERROR, t)"
proof -
  obtain a b c d e f fills where fields: "ticket_fields body = (a, b, c, d, e, f, fills)" by (metis prod_cases7)
  then show ?thesis using ticket_fields_exact(2) [of body a b c d e f] assms by (auto simp: handle_ticket_def)
qed

section \<open>KeyUpdate\<close>

abbreviation next_secret :: "bytes \<Rightarrow> bytes" where
  "next_secret s \<equiv> label_okm s ''traffic upd'' [] 32"

definition keyed :: "rec_dir \<Rightarrow> bytes \<Rightarrow> rec_dir" where
  "keyed d s = d\<lparr>rd_key := label_okm s ''key'' [] 32, rd_iv := label_okm s ''iv'' [] 12, rd_seq := 0\<rparr>"

lemma rec_dir_update_eq: "rec_dir_update s d = Some (next_secret s, keyed d (next_secret s))"
  by (simp add: rec_dir_update_def rec_dir_init_def hkdf_expand_label_okm keyed_def)

text \<open>What reading messages changes of a session, and the bounds on its KeyUpdate state.\<close>

definition post_moved :: "'io ch_tls_priv \<Rightarrow> 'io ch_tls_priv \<Rightarrow> bool" where
  "post_moved t t' \<longleftrightarrow> (\<exists>io d s run owed.
     t' = t\<lparr>cfg := (cfg t)\<lparr>cfg_io := io\<rparr>, rd := d, rd_secret := s, key_update_run := run, key_update_owed := owed\<rparr>)"

definition ku_ok :: "'io ch_tls_priv \<Rightarrow> bool" where
  "ku_ok t \<longleftrightarrow> key_update_run t \<le> CH_KEY_UPDATE_RUN_MAX \<and> (key_update_owed t \<longrightarrow> send_epochs t < HSPOST_SEND_EPOCHS_MAX)"

lemma post_movedI:
  "t' = t\<lparr>cfg := (cfg t)\<lparr>cfg_io := io\<rparr>, rd := d, rd_secret := s, key_update_run := run, key_update_owed := owed\<rparr> \<Longrightarrow> post_moved t t'"
  unfolding post_moved_def by blast

lemma post_moved_refl [simp]: "post_moved t t"
  by (rule post_movedI [where io = "cfg_io (cfg t)" and d = "rd t" and s = "rd_secret t" and run = "key_update_run t" and owed = "key_update_owed t"]) simp

lemma post_moved_trans:
  assumes "post_moved t t1" "post_moved t1 t2" shows "post_moved t t2"
proof -
  obtain io d s run owed where
    "t1 = t\<lparr>cfg := (cfg t)\<lparr>cfg_io := io\<rparr>, rd := d, rd_secret := s, key_update_run := run, key_update_owed := owed\<rparr>"
    using assms(1) unfolding post_moved_def by blast
  moreover obtain io' d' s' run' owed' where
    "t2 = t1\<lparr>cfg := (cfg t1)\<lparr>cfg_io := io'\<rparr>, rd := d', rd_secret := s', key_update_run := run', key_update_owed := owed'\<rparr>"
    using assms(2) unfolding post_moved_def by blast
  ultimately show ?thesis
    by (intro post_movedI [where io = io' and d = d' and s = s' and run = run' and owed = owed']) simp
qed

lemma post_moved_fields:
  assumes "post_moved t t'"
  shows "cfg_buf (cfg t') = cfg_buf (cfg t)" "cfg_buf_len (cfg t') = cfg_buf_len (cfg t)" "session_trust t' = session_trust t"
    "tls_wf t' = tls_wf t" "state t' = state t" "wr t' = wr t" "wr_secret t' = wr_secret t" "keys t' = keys t"
    "send_epochs t' = send_epochs t" "pt_off t' = pt_off t" "pt_len t' = pt_len t" "tx t' = tx t" "read_closed t' = read_closed t"
    "alert_received t' = alert_received t" "alert_sent t' = alert_sent t" "peer_limit t' = peer_limit t"
  using assms by (auto simp: post_moved_def session_trust_def tls_wf_def split: option.split)

lemma handle_ticket_total:
  assumes "session_trust t \<noteq> None"
  obtains rc al io where "handle_ticket t body alert = Some (rc, al, t\<lparr>cfg := (cfg t)\<lparr>cfg_io := io\<rparr>\<rparr>)" "rc = CH_OK \<or> rc = CH_EPROTO"
proof (cases "\<exists>life add nonce identity exts. body = ticket_wire life add nonce identity exts \<and> ticket_lengths nonce identity exts")
  case False
  show ?thesis by (rule that [of CH_EPROTO ALERT_DECODE_ERROR "cfg_io (cfg t)"]) (use handle_ticket_bad [OF False, of t alert] in simp_all)
next
  case True
  then obtain life add nonce identity exts where b: "body = ticket_wire life add nonce identity exts" "ticket_lengths nonce identity exts" by blast
  obtain trust where trust: "session_trust t = Some trust" using assms by blast
  note h = handle_ticket_whole [OF trust b(2), of life add alert, folded b(1)]
  show ?thesis
  proof (cases "cfg_on_ticket (cfg t) = None \<or> life = 0 \<or> 32 < length nonce \<or> 320 < length identity")
    case True
    then have "handle_ticket t body alert = Some (CH_OK, alert, t)" unfolding h by (cases "cfg_on_ticket (cfg t)") simp_all
    then show ?thesis by (intro that [of CH_OK alert "cfg_io (cfg t)"]) simp_all
  next
    case False
    then obtain f where "cfg_on_ticket (cfg t) = Some f" by auto
    then show ?thesis using h False
      by (intro that [of CH_OK alert "f (cfg_io (cfg t)) (made_ticket t trust life add nonce identity)"]) simp_all
  qed
qed

lemma unat_run: "key_update_run t < CH_KEY_UPDATE_RUN_MAX \<Longrightarrow> key_update_run t + 1 \<le> CH_KEY_UPDATE_RUN_MAX"
  unfolding CH_KEY_UPDATE_RUN_MAX_def by (simp add: word_less_nat_alt word_le_nat_alt unat_word_ariths)

text \<open>A KeyUpdate is refused with the session as it was, or it moves the read direction to the next secret and no other key.\<close>

lemma take_key_update_cases:
  obtains (refused) rc al where "take_key_update t body ends alert = Some (rc, al, t)" "rc = CH_EPROTO \<or> rc = CH_KEY_UPDATE_LIMIT"
  | (rekeyed) "take_key_update t body ends alert =
        Some (CH_OK, alert, t\<lparr>key_update_run := key_update_run t + 1, rd_secret := next_secret (rd_secret t),
          rd := keyed (rd t) (next_secret (rd_secret t)),
          key_update_owed := (key_update_owed t \<or> body = [1] \<and> send_epochs t < HSPOST_SEND_EPOCHS_MAX)\<rparr>)"
      "ends" "key_update_run t < CH_KEY_UPDATE_RUN_MAX" "body = [0] \<or> body = [1]"
proof (cases "length body = 1 \<and> \<not> body ! 0 > 1 \<and> ends \<and> \<not> key_update_run t \<ge> CH_KEY_UPDATE_RUN_MAX")
  case False
  then have "\<exists>rc al. take_key_update t body ends alert = Some (rc, al, t) \<and> (rc = CH_EPROTO \<or> rc = CH_KEY_UPDATE_LIMIT)"
    by (simp add: take_key_update_def not_less split del: if_split) (cases "length body = 1"; cases "body ! 0 > 1"; cases ends; simp)
  then show ?thesis using refused by blast
next
  case True
  then obtain b where b: "body = [b]" by (auto simp: length_Suc_conv)
  then have "b = 0 \<or> b = 1" using True by (auto simp: word_le_nat_alt word_less_nat_alt word_unat_eq_iff)
  then show ?thesis using True b
    by (intro rekeyed) (auto simp: take_key_update_def handle_key_update_def rec_dir_update_eq Let_def)
qed

section \<open>A run of messages\<close>

lemma ku_ok_rekeyed:
  assumes "ku_ok t" "key_update_run t < CH_KEY_UPDATE_RUN_MAX"
  shows "ku_ok (t\<lparr>key_update_run := key_update_run t + 1, rd_secret := s, rd := d,
    key_update_owed := (key_update_owed t \<or> b \<and> send_epochs t < HSPOST_SEND_EPOCHS_MAX)\<rparr>)"
  using assms unat_run [OF assms(2)] by (auto simp: ku_ok_def)

lemma take_message_total:
  assumes "session_trust t \<noteq> None" "ku_ok t"
  obtains rc al t' where
    "(if type = HS_NEW_SESSION_TICKET then take_ticket t body alert
      else if type = HS_KEY_UPDATE then take_key_update t body ends alert else Some (CH_EPROTO, alert, t)) = Some (rc, al, t')"
    "post_moved t t'" "ku_ok t'" "rc = CH_OK \<Longrightarrow> ends \<or> rd t' = rd t" "rc \<noteq> CH_ECLOSED"
proof -
  consider "type = HS_NEW_SESSION_TICKET" | "type \<noteq> HS_NEW_SESSION_TICKET" "type = HS_KEY_UPDATE"
    | "type \<noteq> HS_NEW_SESSION_TICKET" "type \<noteq> HS_KEY_UPDATE" by blast
  then show ?thesis
  proof cases
    case 1
    obtain rc al io where h: "handle_ticket t body alert = Some (rc, al, t\<lparr>cfg := (cfg t)\<lparr>cfg_io := io\<rparr>\<rparr>)" "rc = CH_OK \<or> rc = CH_EPROTO"
      by (rule handle_ticket_total [OF assms(1)])
    have "post_moved t (t\<lparr>cfg := (cfg t)\<lparr>cfg_io := io\<rparr>\<rparr>)"
      by (rule post_movedI [where io = io and d = "rd t" and s = "rd_secret t" and run = "key_update_run t" and owed = "key_update_owed t"]) simp
    moreover have "ku_ok (t\<lparr>cfg := (cfg t)\<lparr>cfg_io := io\<rparr>\<rparr>)" using assms(2) by (simp add: ku_ok_def)
    ultimately show ?thesis using that 1 h by (auto simp: take_ticket_def)
  next
    case 2
    show ?thesis
    proof (cases rule: take_key_update_cases [of t body ends alert])
      case (refused rc al)
      then show ?thesis using that [of rc al t] 2 assms(2) by auto
    next
      case rekeyed
      let ?t = "t\<lparr>key_update_run := key_update_run t + 1, rd_secret := next_secret (rd_secret t), rd := keyed (rd t) (next_secret (rd_secret t)),
        key_update_owed := (key_update_owed t \<or> body = [1] \<and> send_epochs t < HSPOST_SEND_EPOCHS_MAX)\<rparr>"
      have "post_moved t ?t"
        by (rule post_movedI [where io = "cfg_io (cfg t)" and d = "rd ?t" and s = "rd_secret ?t" and run = "key_update_run ?t"
              and owed = "key_update_owed ?t"]) simp
      then show ?thesis using that [of CH_OK alert ?t] rekeyed 2 ku_ok_rekeyed [OF assms(2)] by simp
    qed
  next
    case 3
    then show ?thesis using that [of CH_EPROTO alert t] assms(2) by simp
  qed
qed

lemma handle_post_total:
  assumes "session_trust t \<noteq> None" "ku_ok t" "off \<le> n"
  shows "\<exists>rc used al t'. handle_post_handshake t n off alert = Some (rc, used, al, t') \<and> post_moved t t' \<and> ku_ok t' \<and> rc \<noteq> CH_ECLOSED \<and>
    (rc = CH_OK \<longrightarrow> used \<le> n \<and> (used = n \<or> rd t' = rd t))"
  using assms
proof (induction t n off alert rule: handle_post_handshake.induct)
  case (1 t n off alert)
  let ?pt = "cfg_buf (cfg t)"
  let ?m = "msg_len_at ?pt off"
  show ?case
  proof (cases "n - off \<ge> 4 \<and> \<not> (?m > 0x4000 \<or> 4 + ?m > cfg_buf_len (cfg t)) \<and> \<not> off + 4 + ?m > n")
    case False
    then show ?thesis using "1.prems" by (subst handle_post_handshake.simps) (auto simp: Let_def)
  next
    case True
    obtain rc al t1 where m:
      "(if ?pt ! off = HS_NEW_SESSION_TICKET then take_ticket t (take ?m (drop (off + 4) ?pt)) alert
        else if ?pt ! off = HS_KEY_UPDATE then take_key_update t (take ?m (drop (off + 4) ?pt)) (off + 4 + ?m = n) alert
        else Some (CH_EPROTO, alert, t)) = Some (rc, al, t1)" (is "?msg = _")
      "post_moved t t1" "ku_ok t1" "rc = CH_OK \<Longrightarrow> off + 4 + ?m = n \<or> rd t1 = rd t" "rc \<noteq> CH_ECLOSED"
      by (rule take_message_total [OF "1.prems"(1,2), where type = "?pt ! off" and body = "take ?m (drop (off + 4) ?pt)"
            and ends = "off + 4 + ?m = n" and alert = alert]) blast
    have eq: "handle_post_handshake t n off alert =
        (if rc \<noteq> CH_OK then Some (rc, 0, al, t1) else handle_post_handshake t1 n (off + (4 + ?m)) al)"
      using True m(1) by (subst handle_post_handshake.simps) (simp add: Let_def split del: if_split)
    show ?thesis
    proof (cases "rc = CH_OK")
      case False
      then show ?thesis using eq m(2,3,5) by simp
    next
      case ok: True
      have "\<exists>rc used al' t'. handle_post_handshake t1 n (off + (4 + ?m)) al = Some (rc, used, al', t') \<and> post_moved t1 t' \<and> ku_ok t' \<and> rc \<noteq> CH_ECLOSED \<and>
          (rc = CH_OK \<longrightarrow> used \<le> n \<and> (used = n \<or> rd t' = rd t1))"
        by (rule "1.IH" [OF _ refl refl refl _ _ refl m(1) refl refl])
          (use True ok m(3) "1.prems"(1) post_moved_fields(3) [OF m(2)] in auto)
      then obtain rc2 used al2 t2 where r: "handle_post_handshake t1 n (off + (4 + ?m)) al = Some (rc2, used, al2, t2)"
        "post_moved t1 t2" "ku_ok t2 \<and> rc2 \<noteq> CH_ECLOSED" "rc2 = CH_OK \<longrightarrow> used \<le> n \<and> (used = n \<or> rd t2 = rd t1)" by blast
      have "used = n \<or> rd t2 = rd t" if "rc2 = CH_OK"
      proof (cases "off + 4 + ?m = n")
        case True
        then have "rc2 = CH_OK \<and> used = n" using r(1) that by (subst (asm) handle_post_handshake.simps) simp
        then show ?thesis by simp
      next
        case False
        then show ?thesis using r(4) that m(4) ok by auto
      qed
      then show ?thesis using eq ok r post_moved_trans [OF m(2) r(2)] by auto
    qed
  qed
qed

lemma open_fragment_total:
  assumes "tls_wf t" "fill + n \<le> cfg_buf_len (cfg t)"
  obtains (failed) rc m al d x c' where "open_fragment t fill outer n alert = Some (rc, m, al, t\<lparr>rd := d, cfg := c', alert_received := x\<rparr>)"
      "rc \<noteq> CH_OK" "io_moved fill (cfg t) c'" "rc \<noteq> CH_ECLOSED"
  | (joined) m al d buf where "open_fragment t fill outer n alert = Some (CH_OK, m, al, t\<lparr>rd := d, cfg := (cfg t)\<lparr>cfg_buf := buf\<rparr>\<rparr>)"
      "length buf = length (cfg_buf (cfg t))" "fill + m \<le> cfg_buf_len (cfg t)" "rd_seq (rd t) \<noteq> - 1" "rd_seq d = rd_seq (rd t) + 1"
proof (cases "outer = REC_APPDATA")
  case False
  then show ?thesis using failed [where rc = CH_EAUTH and m = 0 and al = ALERT_BAD_RECORD_MAC and d = "rd t" and c' = "cfg t" and x = "alert_received t"] by (simp add: open_fragment_def)
next
  case True
  have "fill + n \<le> length (cfg_buf (cfg t))" using assms by (simp add: tls_wf_def)
  then show ?thesis
  proof (cases rule: open_in_place_total)
    case (refused d)
    show ?thesis
      by (rule failed [where rc = CH_EAUTH and m = 0 and al = ALERT_BAD_RECORD_MAC and d = d and c' = "cfg t" and x = "alert_received t"]) (use True refused in \<open>simp_all add: open_fragment_def\<close>)
  next
    case (opened d buf m ty)
    have moved: "io_moved fill (cfg t) ((cfg t)\<lparr>cfg_buf := buf\<rparr>)"
      by (rule io_movedI [where io = "cfg_io (cfg t)" and buf = buf]) (use opened in simp_all)
    let ?t = "t\<lparr>rd := d, cfg := (cfg t)\<lparr>cfg_buf := buf\<rparr>\<rparr>"
    consider "ty = REC_ALERT" | "ty = REC_HANDSHAKE" "ty \<noteq> REC_ALERT" | "ty \<noteq> REC_HANDSHAKE" "ty \<noteq> REC_ALERT" by blast
    then show ?thesis
    proof cases
      case 1
      obtain al x where "hsr_refuse_alert ?t (take m (drop fill buf)) alert = (CH_EPROTO, al, ?t\<lparr>alert_received := x\<rparr>)"
        by (rule refuse_alert_spec)
      then show ?thesis using True 1 opened(1) moved
        by (intro failed [where rc = CH_EPROTO and m = m and al = al and d = d and c' = "(cfg t)\<lparr>cfg_buf := buf\<rparr>" and x = x]) (simp_all add: open_fragment_def)
    next
      case 2
      then show ?thesis using True opened assms(2)
        by (intro joined [where m = m and al = alert and d = d and buf = buf]) (simp_all add: open_fragment_def)
    next
      case 3
      then show ?thesis using True opened(1) moved
        by (intro failed [where rc = CH_EPROTO and m = m and al = alert and d = d and c' = "(cfg t)\<lparr>cfg_buf := buf\<rparr>" and x = "alert_received t"]) (simp_all add: open_fragment_def)
    qed
  qed
qed

text \<open>What a run of messages keeps of a session: all of it but its read side and the caller's state.\<close>

definition read_kept :: "'io ch_tls_priv \<Rightarrow> 'io ch_tls_priv \<Rightarrow> bool" where
  "read_kept t t' \<longleftrightarrow> io_moved 0 (cfg t) (cfg t') \<and> pin_slot t' = pin_slot t \<and> state t' = state t \<and> keys t' = keys t \<and> wr t' = wr t \<and>
     wr_secret t' = wr_secret t \<and> send_epochs t' = send_epochs t \<and> tx t' = tx t \<and> read_closed t' = read_closed t \<and>
     peer_limit t' = peer_limit t \<and> pt_off t' = pt_off t \<and> pt_len t' = pt_len t \<and> alert_sent t' = alert_sent t"

lemma io_moved_io: "io_moved at c (c\<lparr>cfg_io := io\<rparr>)"
  by (rule io_movedI [where io = io and buf = "cfg_buf c"]) simp_all

lemma read_kept_refl [simp]: "read_kept t t"
  by (simp add: read_kept_def)

lemma read_kept_trans: "read_kept t t1 \<Longrightarrow> read_kept t1 t2 \<Longrightarrow> read_kept t t2"
  by (auto simp: read_kept_def intro: io_moved_trans)

lemma trust_moved:
  assumes "io_moved at (cfg t) (cfg t')" "pin_slot t' = pin_slot t"
  shows "session_trust t' = session_trust t"
proof -
  obtain io buf where "cfg t' = (cfg t)\<lparr>cfg_io := io, cfg_buf := buf\<rparr>" using assms(1) unfolding io_moved_def by blast
  then show ?thesis using assms(2) by (simp add: session_trust_def split: option.split)
qed

lemma read_kept_wf:
  assumes "read_kept t t'" shows "tls_wf t' = tls_wf t" "session_trust t' = session_trust t" "cfg_buf_len (cfg t') = cfg_buf_len (cfg t)"
  using assms trust_moved [of 0 t t'] io_moved_fields(1,2) [of 0 "cfg t" "cfg t'"] by (simp_all add: read_kept_def tls_wf_def)

lemma post_moved_kept: "post_moved t t' \<Longrightarrow> read_kept t t'"
  unfolding post_moved_def read_kept_def by (auto intro: io_moved_io)

lemma drain_turn_total:
  assumes "tls_wf t" "session_trust t \<noteq> None" "ku_ok t" "fill \<le> cfg_buf_len (cfg t)"
  obtains (ended) rc al t' where "drain_turn t fill alert = Some (Inl (rc, al, t'))" "read_kept t t'" "ku_ok t'"
      "rc = CH_OK \<Longrightarrow> alert_received t' = alert_received t" "rc \<noteq> CH_ECLOSED"
  | (more) n fill' al t' where "drain_turn t fill alert = Some (Inr (n, fill', al, t'))" "read_kept t t'" "ku_ok t'"
      "fill' \<le> cfg_buf_len (cfg t')" "alert_received t' = alert_received t" "rd_seq (rd t) \<noteq> - 1" "rd_seq (rd t') = rd_seq (rd t) + 1"
proof -
  obtain rc used al t1 where h: "handle_post_handshake t fill 0 alert = Some (rc, used, al, t1)" "post_moved t t1" "ku_ok t1 \<and> rc \<noteq> CH_ECLOSED"
    "rc = CH_OK \<longrightarrow> used \<le> fill \<and> (used = fill \<or> rd t1 = rd t)"
    using handle_post_total [OF assms(2,3), of 0 fill alert] by auto
  show ?thesis
  proof (cases "rc = CH_OK \<and> used \<noteq> fill")
    case False
    then show ?thesis using h post_moved_kept [OF h(2)] post_moved_fields(14) [OF h(2)]
      by (intro ended [where rc = rc and al = al and t' = t1]) (auto simp: drain_turn_def)
  next
    case True
    define f where "f = fill - used"
    define t2 where "t2 = buf_move t1 0 used f"
    have f: "used \<le> fill" "f \<le> fill" "rd t1 = rd t" using h(4) True by (auto simp: f_def)
    have wf1: "tls_wf t1" "cfg_buf_len (cfg t1) = cfg_buf_len (cfg t)" using post_moved_fields(2,4) [OF h(2)] assms(1) by simp_all
    have "length (mem_put (cfg_buf (cfg t1)) 0 (take f (drop used (cfg_buf (cfg t1))))) = length (cfg_buf (cfg t1))"
      using wf1 f assms(4) by (intro mem_put_length) (simp add: tls_wf_def f_def)
    then have m2: "io_moved 0 (cfg t1) (cfg t2)"
      by (intro io_movedI [where io = "cfg_io (cfg t1)" and buf = "cfg_buf (cfg t2)"]) (simp_all add: t2_def buf_move_def)
    then have k2: "read_kept t1 t2" by (simp add: read_kept_def t2_def buf_move_def)
    have wf2: "tls_wf t2" "cfg_buf_len (cfg t2) = cfg_buf_len (cfg t)" using read_kept_wf [OF k2] wf1 by simp_all
    obtain rc3 outer n al3 t3 where r: "io_read_record t2 f (cfg_buf_len (cfg t2) - f) al = (rc3, outer, n, al3, t3)" by (metis prod_cases5)
    obtain c' where c': "t3 = t2\<lparr>cfg := c'\<rparr>" "io_moved f (cfg t2) c'" "rc3 = CH_OK \<Longrightarrow> f + n \<le> cfg_buf_len (cfg t2)"
      using io_read_record_spec [OF r] wf2 f(2) assms(4) by (auto simp: tls_wf_def)
    have rc3: "rc3 \<noteq> CH_ECLOSED" using io_read_record_rc [of t2 f "cfg_buf_len (cfg t2) - f" al] r by auto
    have k3: "read_kept t2 t3" using c' io_moved_trans [of 0 "cfg t2" "cfg t2" f c'] by (simp add: read_kept_def)
    have wf3: "tls_wf t3" "cfg_buf_len (cfg t3) = cfg_buf_len (cfg t)" using read_kept_wf [OF k3] wf2 by simp_all
    have k: "read_kept t t3" using post_moved_kept [OF h(2)] k2 k3 read_kept_trans by blast
    have s3: "rd t3 = rd t" "ku_ok t3" "alert_received t3 = alert_received t"
      using c'(1) h(3) f(3) post_moved_fields(14) [OF h(2)] by (simp_all add: t2_def buf_move_def ku_ok_def)
    have turn: "drain_turn t fill alert =
        (if rc3 \<noteq> CH_OK then Some (Inl (rc3, al3, t3))
         else do { (rc, n, al, t) \<leftarrow> open_fragment t3 f outer n al3; if rc \<noteq> CH_OK then Some (Inl (rc, al, t)) else Some (Inr (n, f + n, al, t)) })"
      using True h(1) r f wf2(2) assms(4) by (simp add: drain_turn_def Let_def f_def [symmetric] t2_def [symmetric])
    show ?thesis
    proof (cases "rc3 = CH_OK")
      case False
      then show ?thesis using turn k s3 rc3 by (intro ended [where rc = rc3 and al = al3 and t' = t3]) simp_all
    next
      case ok: True
      have "f + n \<le> cfg_buf_len (cfg t3)" using c'(3) [OF ok] wf2 wf3 by simp
      with wf3(1) show ?thesis
      proof (cases rule: open_fragment_total [where outer = outer and alert = al3])
        case (failed rc m al d x c'')
        have "read_kept t3 (t3\<lparr>rd := d, cfg := c'', alert_received := x\<rparr>)"
          using failed(3) io_moved_trans [of 0 "cfg t3" "cfg t3" f c''] by (simp add: read_kept_def)
        then show ?thesis using turn ok failed s3(2) read_kept_trans [OF k]
          by (intro ended [where rc = rc and al = al and t' = "t3\<lparr>rd := d, cfg := c'', alert_received := x\<rparr>"]) (simp_all add: ku_ok_def)
      next
        case (joined m al d buf)
        let ?t = "t3\<lparr>rd := d, cfg := (cfg t3)\<lparr>cfg_buf := buf\<rparr>\<rparr>"
        have "io_moved 0 (cfg t3) ((cfg t3)\<lparr>cfg_buf := buf\<rparr>)"
          by (rule io_movedI [where io = "cfg_io (cfg t3)" and buf = buf]) (use joined in simp_all)
        then have "read_kept t3 ?t" by (simp add: read_kept_def)
        then show ?thesis using turn ok joined s3 read_kept_trans [OF k]
          by (intro more [where n = m and fill' = "f + m" and al = al and t' = ?t]) (simp_all add: ku_ok_def)
      qed
    qed
  qed
qed

lemma unat_seq_up: "(x :: u64) \<noteq> - 1 \<Longrightarrow> unat (x + 1) = Suc (unat x)"
  using unatSuc [of x] by (simp add: add.commute add_eq_0_iff)

lemma drain_run_total:
  assumes "tls_wf t" "session_trust t \<noteq> None" "ku_ok t" "fill \<le> cfg_buf_len (cfg t)"
  shows "\<exists>rc al t'. drain_run t fill quiet alert = Some (rc, al, t') \<and> read_kept t t' \<and> ku_ok t' \<and> rc \<noteq> CH_ECLOSED \<and>
    (rc = CH_OK \<longrightarrow> alert_received t' = alert_received t)"
  using assms
proof (induction "18446744073709551616 - unat (rd_seq (rd t))" arbitrary: t fill quiet alert rule: less_induct)
  case less
  show ?case
  proof (cases "quiet < CH_QUIET_CAP")
    case False
    then show ?thesis using less.prems by (subst drain_run.simps) simp
  next
    case True
    show ?thesis using less.prems
    proof (cases rule: drain_turn_total [where alert = alert])
      case (ended rc al t')
      then show ?thesis using True by (subst drain_run.simps) simp
    next
      case (more n fill' al t')
      have "18446744073709551616 - unat (rd_seq (rd t')) < 18446744073709551616 - unat (rd_seq (rd t))"
        using unat_u64_less [of "rd_seq (rd t)"] unfolding more(7) unat_seq_up [OF more(6)] by linarith
      from less.hyps [OF this, of fill' "if n = 0 then quiet + 1 else quiet" al]
      obtain rc2 al2 t2 where r: "drain_run t' fill' (if n = 0 then quiet + 1 else quiet) al = Some (rc2, al2, t2)" "read_kept t' t2" "ku_ok t2 \<and> rc2 \<noteq> CH_ECLOSED"
        "rc2 = CH_OK \<longrightarrow> alert_received t2 = alert_received t'"
        using more read_kept_wf [OF more(2)] less.prems by auto
      have "drain_run t fill quiet alert = Some (rc2, al2, t2)"
        using True more(1) r(1) by (subst drain_run.simps) simp
      then show ?thesis using r more read_kept_trans [OF more(2) r(2)] by auto
    qed
  qed
qed

text \<open>Reading a run of messages returns; on success the session stays as connected as it was, otherwise it is failed and wiped.\<close>

lemma hspost_read_total:
  assumes "tls_wf t" "session_trust t \<noteq> None" "ku_ok t" "n \<le> cfg_buf_len (cfg t)"
  obtains (read) t' where "hspost_read t n = Some (CH_OK, t')" "read_kept t t'" "ku_ok t'" "alert_received t' = alert_received t"
  | (failed) rc t' where "hspost_read t n = Some (rc, t')" "rc \<noteq> CH_OK" "rc \<noteq> CH_ECLOSED" "state t' = CH_ST_FAILED" "wiped t'"
      "io_moved 0 (cfg t) (cfg t')" "length (tx t') = length (tx t)"
proof -
  obtain rc al t1 where d: "drain_run t n 0 ALERT_UNEXPECTED_MESSAGE = Some (rc, al, t1)" "read_kept t t1" "ku_ok t1 \<and> rc \<noteq> CH_ECLOSED"
    "rc = CH_OK \<longrightarrow> alert_received t1 = alert_received t"
    using drain_run_total [OF assms] by blast
  show ?thesis
  proof (cases "rc = CH_OK")
    case True
    then show ?thesis using read [of t1] d by (simp add: hspost_read_def)
  next
    case False
    obtain rc2 t2 where f: "tlsi_fail t1 al = Some (rc2, t2)" "state t2 = CH_ST_FAILED" "wiped t2"
      "io_moved (length (cfg_buf (cfg t1))) (cfg t1) (cfg t2)" "length (tx t2) = length (tx t1)"
      by (rule fail_total)
    have "io_moved 0 (cfg t) (cfg t2)" using d(2) io_moved_trans [OF _ f(4)] by (auto simp: read_kept_def)
    then show ?thesis using False d f by (intro failed [where rc = rc and t' = t2]) (simp_all add: hspost_read_def read_kept_def)
  qed
qed

section \<open>Keeping and presenting tickets\<close>

text \<open>The trusts a configuration holds, as the hashes that name them.\<close>

definition held_trusts :: "'io ch_cfg \<Rightarrow> bytes list" where
  "held_trusts c =
     (case cfg_server_pubkey c of None \<Rightarrow> [] | Some k \<Rightarrow> [trust_hash HSPOST_TRUST_PIN (take (cfg_server_pubkey_len c) k)]) @
     (case cfg_server_pubkey2 c of None \<Rightarrow> [] | Some k \<Rightarrow> [trust_hash HSPOST_TRUST_PIN (take (cfg_server_pubkey2_len c) k)]) @
     (case cfg_psk c of None \<Rightarrow> [] | Some k \<Rightarrow> [trust_hash HSPOST_TRUST_PSK (take (cfg_psk_len c) k)])"

lemma length_trust_hash [simp]: "length (trust_hash kind bs) = 32"
  by (simp add: trust_hash_def)

lemma trust_names_eq:
  "length want = 32 \<Longrightarrow> trust_names kind bs len want = Some (case bs of None \<Rightarrow> 0 | Some k \<Rightarrow> if trust_hash kind (take len k) = want then 1 else 0)"
  by (auto simp: trust_names_def trust_hash_eq SHA256_LEN_def ct_memeq_iff split: option.split)

lemma trust_holds_eq:
  assumes "length (tk_trust_hash tk) = 32"
  shows "hspost_trust_holds c tk = Some (tk_trust_hash tk \<in> set (held_trusts c))"
  using assms by (auto simp: hspost_trust_holds_def trust_names_eq held_trusts_def split: option.split)

lemma age_bound:
  assumes "cfg_ticket c = Some saved"
  shows "hspost_ticket_age_ok c \<longleftrightarrow> unat (cfg_ticket_age_ms c) \<le> 1000 * min (unat (tk_lifetime_s (st_ticket saved))) 604800"
proof -
  define s where "s = (if tk_lifetime_s (st_ticket saved) < CH_TICKET_LIFETIME_MAX then tk_lifetime_s (st_ticket saved) else CH_TICKET_LIFETIME_MAX)"
  have s: "unat s = min (unat (tk_lifetime_s (st_ticket saved))) 604800"
    by (auto simp: s_def CH_TICKET_LIFETIME_MAX_def word_less_nat_alt)
  then have "unat (s * 1000) = 1000 * unat s" by (simp add: unat_word_ariths)
  then have "unat (ucast (s * 1000) :: u64) = 1000 * min (unat (tk_lifetime_s (st_ticket saved))) 604800" using s by simp
  then show ?thesis using assms unfolding hspost_ticket_age_ok_def by (simp add: s_def [symmetric] Let_def word_le_nat_alt)
qed

lemma save_made:
  assumes "identity \<noteq> []" "length identity \<le> 320"
  obtains saved where "ch_ticket_save (made_ticket t trust life add nonce identity) = (CH_OK, Some saved)"
    "st_ticket saved = (made_ticket t trust life add nonce identity)\<lparr>tk_identity := None\<rparr>" "take (length identity) (st_identity saved) = identity"
proof -
  let ?tk = "made_ticket t trust life add nonce identity"
  let ?id = "map (\<lambda>i. if i < length identity then identity ! i else 0) [0..<320]"
  have "take (length identity) ?id = map (\<lambda>i. if i < length identity then identity ! i else 0) [0..<length identity]"
    using assms(2) by (simp add: take_map)
  also have "\<dots> = identity" by (simp add: list_eq_iff_nth_eq [of "map _ _" identity])
  finally show ?thesis
    using assms by (intro that [of "\<lparr>st_ticket = ?tk\<lparr>tk_identity := None\<rparr>, st_identity = ?id\<rparr>"])
      (simp_all add: ch_ticket_save_def made_ticket_def CH_TICKET_ID_MAX_def)
qed

lemma present_eq:
  assumes "cfg_ticket c = Some saved" "length (tk_trust_hash (st_ticket saved)) = 32"
  shows "hspost_present_ticket c = Some
    (if tk_psk_len (st_ticket saved) = 32 \<and> tk_lifetime_s (st_ticket saved) \<noteq> 0 \<and> tk_trust_hash (st_ticket saved) \<in> set (held_trusts c)
     then (True, c\<lparr>cfg_psk := Some (tk_psk (st_ticket saved)), cfg_psk_len := 32, cfg_psk_id := Some (st_identity saved),
            cfg_psk_id_len := tk_identity_len (st_ticket saved), cfg_server_pubkey := None, cfg_server_pubkey_len := 0,
            cfg_server_pubkey2 := None, cfg_server_pubkey2_len := 0\<rparr>)
     else (False, c))"
  using assms by (auto simp: hspost_present_ticket_def trust_holds_eq SHA256_LEN_def HKDF_HASH_MAX_def Let_def)

section \<open>Properties\<close>

text \<open>A connected session that a pinned key authenticated, whose caller keeps the identity of its last ticket: an input for the examples.\<close>

definition pinned_tls :: "bytes ch_tls_priv" where
  "pinned_tls =
     (stream_tls [] 600)\<lparr>cfg := (stream_cfg [] 600)\<lparr>cfg_server_pubkey := Some [5, 6, 7], cfg_server_pubkey_len := 3,
        cfg_on_ticket := Some (\<lambda>io tk. case tk_identity tk of None \<Rightarrow> io | Some i \<Rightarrow> i)\<rparr>,
      state := CH_ST_CONNECTED, keys := True\<rparr>"

lemma pinned_trust: "session_trust pinned_tls = Some (trust_hash HSPOST_TRUST_PIN [5, 6, 7])"
  by (simp add: session_trust_def pinned_tls_def stream_tls_def stream_cfg_def)

text \<open>
  C10: A NewSessionTicket with an identity is accepted exactly when its fields fill it.  On the wire form the call returns \<open>CH_OK\<close>, and where the
  caller set \<open>on_ticket\<close>, the lifetime is not zero and the nonce and the identity are short enough, it hands over one ticket
  with the message's lifetime, age_add and identity, the PSK that HKDF-Expand-Label derives from the resumption secret and the
  nonce, and the trust of this session; nothing else of the session changes.  A body that is no such wire form is refused with
  decode_error.  A ticket of no bytes, which the header says is never handed over, is left out: see \<open>empty_identity_delivered\<close>.
\<close>

theorem handle_ticket_exact:
  assumes "session_trust t = Some trust"
  shows "(\<forall>life add nonce identity exts. ticket_lengths nonce identity exts \<and> identity \<noteq> [] \<longrightarrow>
      handle_ticket t (ticket_wire life add nonce identity exts) alert =
      Some (CH_OK, alert,
        case cfg_on_ticket (cfg t) of
          None \<Rightarrow> t
        | Some on_ticket \<Rightarrow>
            if life = 0 \<or> 32 < length nonce \<or> 320 < length identity then t
            else t\<lparr>cfg := (cfg t)\<lparr>cfg_io := on_ticket (cfg_io (cfg t)) (made_ticket t trust life add nonce identity)\<rparr>\<rparr>)) \<and>
    (\<forall>body. (\<nexists>life add nonce identity exts. body = ticket_wire life add nonce identity exts \<and> ticket_lengths nonce identity exts) \<longrightarrow>
      handle_ticket t body alert = Some (CH_EPROTO, ALERT_DECODE_ERROR, t))"
  using handle_ticket_whole [OF assms] handle_ticket_bad by blast

theorem handle_ticket_exact_witness:
  "handle_ticket pinned_tls (ticket_wire 60 1 [9] [1, 2] []) 10 =
    Some (CH_OK, 10, pinned_tls\<lparr>cfg := (cfg pinned_tls)\<lparr>cfg_io := [1, 2]\<rparr>\<rparr>)"
proof -
  have "ticket_lengths [9] [1, 2] [] \<and> [1, 2] \<noteq> []" by (simp add: ticket_lengths_def)
  from handle_ticket_exact [OF pinned_trust, THEN conjunct1, rule_format, OF this, of 60 1 10]
  show ?thesis by (simp add: pinned_tls_def stream_cfg_def made_ticket_def)
qed

text \<open>
  C11: A ticket that a session hands over resumes it while the trust that authenticated the session is still configured, and no
  longer.  Saving a usable ticket succeeds; presenting the saved copy in a configuration succeeds exactly when one of its pins or
  its PSK is the session's trust, and then offers the derived PSK under the ticket's identity, with no pin left beside it; and the
  age check admits exactly the ages up to the ticket's lifetime and seven days, with no overflow of the product.
\<close>

theorem ticket_resumes:
  assumes "session_trust t = Some trust" "length trust = 32" "identity \<noteq> []" "length identity \<le> 320" "life \<noteq> 0"
  shows "\<exists>saved. ch_ticket_save (made_ticket t trust life add nonce identity) = (CH_OK, Some saved) \<and>
    (\<forall>c :: 'b ch_cfg. cfg_ticket c = Some saved \<longrightarrow>
      (hspost_ticket_age_ok c \<longleftrightarrow> unat (cfg_ticket_age_ms c) \<le> 1000 * min (unat life) 604800) \<and>
      (\<exists>c'. hspost_present_ticket c = Some (trust \<in> set (held_trusts c), c') \<and>
        (if trust \<in> set (held_trusts c)
         then cfg_psk c' = Some (label_okm (res_master t) ''resumption'' nonce 32) \<and> cfg_psk_len c' = 32 \<and>
           map_option (take (cfg_psk_id_len c')) (cfg_psk_id c') = Some identity \<and> cfg_server_pubkey c' = None \<and> cfg_server_pubkey2 c' = None
         else c' = c)))"
proof -
  obtain saved where s: "ch_ticket_save (made_ticket t trust life add nonce identity) = (CH_OK, Some saved)"
    "st_ticket saved = (made_ticket t trust life add nonce identity)\<lparr>tk_identity := None\<rparr>" "take (length identity) (st_identity saved) = identity"
    by (rule save_made [OF assms(3,4)])
  have len: "length (tk_trust_hash (st_ticket saved)) = 32" using s(2) assms(2) by (simp add: made_ticket_def)
  show ?thesis
  proof (intro exI [of _ saved] conjI allI impI)
    fix c :: "'b ch_cfg" assume c: "cfg_ticket c = Some saved"
    show "hspost_ticket_age_ok c \<longleftrightarrow> unat (cfg_ticket_age_ms c) \<le> 1000 * min (unat life) 604800"
      using age_bound [OF c] s(2) by (simp add: made_ticket_def)
    show "\<exists>c'. hspost_present_ticket c = Some (trust \<in> set (held_trusts c), c') \<and>
        (if trust \<in> set (held_trusts c)
         then cfg_psk c' = Some (label_okm (res_master t) ''resumption'' nonce 32) \<and> cfg_psk_len c' = 32 \<and>
           map_option (take (cfg_psk_id_len c')) (cfg_psk_id c') = Some identity \<and> cfg_server_pubkey c' = None \<and> cfg_server_pubkey2 c' = None
         else c' = c)"
      using present_eq [OF c len] s(2,3) assms(5)
      by (cases "trust \<in> set (held_trusts c)") (simp_all add: made_ticket_def)
  qed (rule s(1))
qed

theorem ticket_resumes_witness:
  "\<exists>saved. ch_ticket_save (made_ticket pinned_tls (trust_hash HSPOST_TRUST_PIN [5, 6, 7]) 60 1 [9] [1, 2]) = (CH_OK, Some saved) \<and>
    (\<exists>c'. hspost_present_ticket ((cfg pinned_tls)\<lparr>cfg_ticket := Some saved\<rparr>) = Some (True, c') \<and>
      cfg_psk c' = Some (label_okm (res_master pinned_tls) ''resumption'' [9] 32))"
proof -
  have held: "trust_hash HSPOST_TRUST_PIN [5, 6, 7] \<in> set (held_trusts ((cfg pinned_tls)\<lparr>cfg_ticket := s\<rparr>))" for s
    by (simp add: held_trusts_def pinned_tls_def stream_cfg_def)
  obtain saved where s: "ch_ticket_save (made_ticket pinned_tls (trust_hash HSPOST_TRUST_PIN [5, 6, 7]) 60 1 [9] [1, 2]) = (CH_OK, Some saved)"
    "\<forall>c :: bytes ch_cfg. cfg_ticket c = Some saved \<longrightarrow> (\<exists>c'. hspost_present_ticket c = Some (trust_hash HSPOST_TRUST_PIN [5, 6, 7] \<in> set (held_trusts c), c') \<and>
       (trust_hash HSPOST_TRUST_PIN [5, 6, 7] \<in> set (held_trusts c) \<longrightarrow> cfg_psk c' = Some (label_okm (res_master pinned_tls) ''resumption'' [9] 32)))"
    using ticket_resumes [OF pinned_trust, of "[1, 2]" 60 1 "[9]"] by (auto split: if_splits)
  show ?thesis using s(1) s(2) [rule_format, of "(cfg pinned_tls)\<lparr>cfg_ticket := Some saved\<rparr>"] held [of "Some saved"] by auto
qed

text \<open>
  \<open>handle_ticket\<close> admits an identity of no bytes: \<open>on_ticket\<close> is handed such a ticket, which \<open>ch_ticket_save\<close> then refuses.
\<close>

lemma empty_identity_delivered:
  assumes "session_trust t = Some trust" "cfg_on_ticket (cfg t) = Some f" "life \<noteq> 0" "length nonce \<le> 32"
  shows "handle_ticket t (ticket_wire life add nonce [] []) alert =
      Some (CH_OK, alert, t\<lparr>cfg := (cfg t)\<lparr>cfg_io := f (cfg_io (cfg t)) (made_ticket t trust life add nonce [])\<rparr>\<rparr>) \<and>
    ch_ticket_save (made_ticket t trust life add nonce []) = (CH_EINVAL, None)"
  using handle_ticket_whole [OF assms(1), of nonce "[]" "[]" life add alert] assms(2-4)
  by (simp add: ticket_lengths_def ch_ticket_save_def made_ticket_def)

end
