(* ===== verification/Tls.thy ===== *)
theory Tls
  imports Post
begin

text \<open>
  The connected session's calls of \<open>src/tls.c\<close>: the rules of a client configuration, \<open>ch_read\<close> and \<open>ch_close\<close>.  A configuration's
  \<open>cfg_buf\<close> is the memory at \<open>cfg.buf\<close>, so the check that this pointer is set has no counterpart.  The data a read returns is
  \<open>Inr\<close>, empty for its return of 0, and an error is \<open>Inl\<close>.
\<close>

section \<open>Model\<close>

subsection \<open>Configurations\<close>

definition CH_PSK_LEN_MIN :: nat where "CH_PSK_LEN_MIN = 16"
definition CH_MIN_RXBUF :: nat where "CH_MIN_RXBUF = 512"
definition CH_TAKES_PINS :: bool where "CH_TAKES_PINS = True"

definition pin_len_ok :: "nat \<Rightarrow> bool" where
  "pin_len_ok len \<longleftrightarrow> len \<ge> 256 \<and> len \<le> 384 \<and> len mod 8 = 0"

definition psk_id_len_ok :: "nat \<Rightarrow> bool" where
  "psk_id_len_ok len \<longleftrightarrow> len \<ge> 1 \<and> len \<le> CH_TICKET_ID_MAX"

definition psk_configured :: "'io ch_cfg \<Rightarrow> bool" where
  "psk_configured c \<longleftrightarrow> cfg_psk c \<noteq> None \<and> cfg_psk_len c \<ge> CH_PSK_LEN_MIN \<and> cfg_psk_id c \<noteq> None \<and>
     psk_id_len_ok (cfg_psk_id_len c) \<and> cfg_server_pubkey c = None"

text \<open>Whether the last byte of a pin that is set has its low bit clear.\<close>

definition even_pin :: "bytes option \<Rightarrow> nat \<Rightarrow> bool" where
  "even_pin key len = (case key of None \<Rightarrow> False | Some k \<Rightarrow> (k ! (len - 1)) AND 1 = 0)"

definition tlsi_config_ok :: "'io ch_cfg \<Rightarrow> bool" where
  "tlsi_config_ok c =
     (let psk_ok = psk_configured c;
          pin_ok = (cfg_psk c = None \<and> cfg_server_pubkey c \<noteq> None \<and> pin_len_ok (cfg_server_pubkey_len c))
      in if cfg_server_pubkey2 c \<noteq> None \<and> (\<not> pin_ok \<or> \<not> pin_len_ok (cfg_server_pubkey2_len c)) then False
         else if (\<not> psk_ok \<and> \<not> pin_ok) \<or> (pin_ok \<and> \<not> CH_TAKES_PINS) \<or> cfg_buf_len c < CH_MIN_RXBUF then False
         else if cfg_require_pq c then False
         else if (pin_ok \<and> even_pin (cfg_server_pubkey c) (cfg_server_pubkey_len c)) \<or>
           even_pin (cfg_server_pubkey2 c) (cfg_server_pubkey2_len c) then False
         else hspost_ticket_age_ok c)"

subsection \<open>Reading\<close>

definition close_read_side :: "'io ch_tls_priv \<Rightarrow> 'io ch_tls_priv" where
  "close_read_side t =
     t\<lparr>rd := rec_dir_zero, rd_secret := replicate HKDF_HASH_MAX 0, res_master := replicate HKDF_HASH_MAX 0, pt_off := 0, pt_len := 0,
       read_closed := True\<rparr>"

text \<open>A failure that owes the alert \<open>description\<close>, with the result code the caller returns.\<close>

definition fail_with :: "'io ch_tls_priv \<Rightarrow> u8 \<Rightarrow> rc \<Rightarrow> (rc \<times> 'io ch_tls_priv) option" where
  "fail_with t description rc = do { (_, t) \<leftarrow> tlsi_fail t description; Some (rc, t) }"

definition read_alert :: "'io ch_tls_priv \<Rightarrow> nat \<Rightarrow> (rc \<times> 'io ch_tls_priv) option" where
  "read_alert t n =
     (let pt = take n (cfg_buf (cfg t))
      in if n = 2 \<and> pt ! 1 = ALERT_CLOSE_NOTIFY then Some (CH_ECLOSED, close_read_side t)
         else if n = 2 \<and> pt ! 1 = ALERT_USER_CANCELED then Some (CH_OK, t)
         else let (rc, alert, t) = hsr_refuse_alert t pt ALERT_UNEXPECTED_MESSAGE in fail_with t alert rc)"

definition dispatch_one_record :: "'io ch_tls_priv \<Rightarrow> (rc \<times> 'io ch_tls_priv) option" where
  "dispatch_one_record t =
     (let (rc, outer, record_len, alert, t) = io_read_record t 0 (cfg_buf_len (cfg t)) ALERT_DECODE_ERROR
      in if rc \<noteq> CH_OK then fail_with t alert rc
         else if outer \<noteq> REC_APPDATA then fail_with t ALERT_UNEXPECTED_MESSAGE CH_EPROTO
         else do {
           (opened, t) \<leftarrow> open_in_place t 0 record_len;
           case opened of
             None \<Rightarrow> fail_with t ALERT_BAD_RECORD_MAC CH_EAUTH
           | Some (n, inner_type) \<Rightarrow>
               if inner_type = REC_APPDATA then
                 let t = t\<lparr>pt_off := 0, pt_len := n\<rparr> in Some (CH_OK, if n > 0 then t\<lparr>key_update_run := 0\<rparr> else t)
               else if inner_type = REC_HANDSHAKE then hspost_read t n
               else if inner_type = REC_ALERT then read_alert t n
               else fail_with t ALERT_UNEXPECTED_MESSAGE CH_EPROTO
         })"

function read_loop :: "'io ch_tls_priv \<Rightarrow> nat \<Rightarrow> nat \<Rightarrow> ((rc + bytes) \<times> 'io ch_tls_priv) option" where
  "read_loop t n quiet =
     (if quiet < CH_QUIET_CAP then
        if pt_len t > pt_off t then
          let k = size_sub (pt_len t) (pt_off t); k = (if k > n then n else k)
          in Some (Inr (take k (drop (pt_off t) (cfg_buf (cfg t)))), t\<lparr>pt_off := pt_off t + k\<rparr>)
        else do {
          (rc, t) \<leftarrow> dispatch_one_record t;
          if rc = CH_ECLOSED then Some (Inr [], t)
          else if rc \<noteq> CH_OK then Some (Inl rc, t)
          else read_loop t n (quiet + 1)
        }
      else do {
        (rc, t) \<leftarrow> fail_with t ALERT_UNEXPECTED_MESSAGE CH_EPROTO;
        Some (Inl rc, t)
      })"
  by pat_completeness auto

termination
  by (relation "measure (\<lambda>(t, n, quiet). CH_QUIET_CAP - quiet)") auto

declare read_loop.simps [simp del]

definition tls_read :: "'io ch_tls_priv \<Rightarrow> nat \<Rightarrow> ((rc + bytes) \<times> 'io ch_tls_priv) option" where
  "tls_read t n =
     (if \<not> state t \<le> CH_ST_FAILED then None
      else if n = 0 then Some (Inl CH_EINVAL, t)
      else if state t = CH_ST_CLOSED then Some (Inr [], t)
      else if state t \<noteq> CH_ST_CONNECTED then Some (Inl CH_EPROTO, t)
      else if read_closed t then Some (Inr [], t)
      else read_loop t n 0)"

subsection \<open>Closing\<close>

definition tls_close :: "'io ch_tls_priv \<Rightarrow> 'io ch_tls_priv option" where
  "tls_close t =
     (if \<not> state t \<le> CH_ST_FAILED then None
      else do {
        (_, t) \<leftarrow> (if keys t then tlsi_send_alert t 1 ALERT_CLOSE_NOTIFY else Some (CH_OK, t));
        Some ((tlsi_wipe t)\<lparr>state := CH_ST_CLOSED\<rparr>)
      })"

subsection \<open>Specification\<close>

text \<open>
  The invariant of a session from the end of its handshake on: connected with its offsets in its buffer, its trust known and its
  KeyUpdate state in bounds, or closed or failed with every key and secret zero.
\<close>

definition session_ok :: "'io ch_tls_priv \<Rightarrow> bool" where
  "session_ok t \<longleftrightarrow> tls_wf t \<and>
     (if state t = CH_ST_CONNECTED
      then keys t \<and> session_trust t \<noteq> None \<and> ku_ok t \<and> alert_received t = 0 \<and> 0 < peer_limit t \<and> (read_closed t \<longrightarrow> pt_off t = pt_len t)
      else (state t = CH_ST_CLOSED \<or> state t = CH_ST_FAILED) \<and> wiped t)"

section \<open>Reading\<close>

lemma session_ok_failed:
  assumes "tls_wf t" "state t' = CH_ST_FAILED \<or> state t' = CH_ST_CLOSED" "wiped t'" "io_moved at (cfg t) (cfg t')" "length (tx t') = length (tx t)"
  shows "session_ok t'"
  using assms io_moved_fields(1,2) [OF assms(4)] by (auto simp: session_ok_def tls_wf_def wiped_def state_defs)

lemma fail_with_total:
  assumes "tls_wf t"
  obtains t' where "fail_with t d rc = Some (rc, t')" "state t' = CH_ST_FAILED" "session_ok t'" "io_moved 0 (cfg t) (cfg t')"
proof -
  obtain rc2 t' where f: "tlsi_fail t d = Some (rc2, t')" "state t' = CH_ST_FAILED" "wiped t'"
    "io_moved (length (cfg_buf (cfg t))) (cfg t) (cfg t')" "length (tx t') = length (tx t)"
    by (rule fail_total)
  then show ?thesis
    using session_ok_failed [OF assms, of t'] io_moved_trans [of 0 "cfg t" "cfg t", OF _ f(4)]
    by (intro that [of t']) (simp_all add: fail_with_def)
qed

text \<open>
  What handling a record makes of a connected session: it stays connected, or the peer's close_notify closed its read side, or it
  failed.
\<close>

definition dispatched :: "'io ch_tls_priv \<Rightarrow> rc \<Rightarrow> 'io ch_tls_priv \<Rightarrow> bool" where
  "dispatched t rc t' \<longleftrightarrow> session_ok t' \<and> io_moved 0 (cfg t) (cfg t') \<and>
     (if rc = CH_OK then state t' = CH_ST_CONNECTED \<and> \<not> read_closed t'
      else if rc = CH_ECLOSED then state t' = CH_ST_CONNECTED \<and> read_closed t' else state t' = CH_ST_FAILED)"

lemma dispatched_fail:
  assumes "tls_wf t1" "io_moved 0 (cfg t) (cfg t1)" "rc \<noteq> CH_OK" "rc \<noteq> CH_ECLOSED"
  obtains t' where "fail_with t1 d rc = Some (rc, t')" "dispatched t rc t'"
proof -
  obtain t' where t': "fail_with t1 d rc = Some (rc, t')" "state t' = CH_ST_FAILED" "session_ok t'" "io_moved 0 (cfg t1) (cfg t')"
    by (rule fail_with_total [OF assms(1)])
  then show ?thesis using that assms(3,4) io_moved_trans [OF assms(2) t'(4)] by (simp add: dispatched_def)
qed

lemma read_alert_total:
  assumes "session_ok t" "state t = CH_ST_CONNECTED" "\<not> read_closed t"
  obtains rc t' where "read_alert t n = Some (rc, t')" "dispatched t rc t'"
proof -
  have wf: "tls_wf t" using assms(1) by (simp add: session_ok_def)
  let ?pt = "take n (cfg_buf (cfg t))"
  consider "n = 2 \<and> ?pt ! 1 = ALERT_CLOSE_NOTIFY" | "n = 2 \<and> ?pt ! 1 = ALERT_USER_CANCELED" "\<not> (n = 2 \<and> ?pt ! 1 = ALERT_CLOSE_NOTIFY)"
    | "\<not> (n = 2 \<and> ?pt ! 1 = ALERT_USER_CANCELED)" "\<not> (n = 2 \<and> ?pt ! 1 = ALERT_CLOSE_NOTIFY)" by blast
  then show ?thesis
  proof cases
    case 1
    have "session_trust (close_read_side t) = session_trust t" by (simp add: session_trust_def close_read_side_def split: option.split)
    then have "dispatched t CH_ECLOSED (close_read_side t)"
      using assms by (simp add: dispatched_def session_ok_def close_read_side_def tls_wf_def ku_ok_def)
    moreover have "read_alert t n = Some (CH_ECLOSED, close_read_side t)" by (simp only: read_alert_def Let_def if_P [OF 1])
    ultimately show ?thesis using that by blast
  next
    case 2
    then show ?thesis using that [of CH_OK t] assms by (auto simp: read_alert_def dispatched_def)
  next
    case 3
    obtain al x where h: "hsr_refuse_alert t ?pt ALERT_UNEXPECTED_MESSAGE = (CH_EPROTO, al, t\<lparr>alert_received := x\<rparr>)"
      by (rule refuse_alert_spec)
    have wf': "tls_wf (t\<lparr>alert_received := x\<rparr>)" using wf by (simp add: tls_wf_def)
    obtain t' where "fail_with (t\<lparr>alert_received := x\<rparr>) al CH_EPROTO = Some (CH_EPROTO, t')" "dispatched t CH_EPROTO t'"
      by (rule dispatched_fail [OF wf', of t CH_EPROTO al]) simp_all
    moreover have "read_alert t n = fail_with (t\<lparr>alert_received := x\<rparr>) al CH_EPROTO"
      unfolding read_alert_def Let_def if_not_P [OF 3(1)] if_not_P [OF 3(2)] h by simp
    ultimately show ?thesis using that by simp
  qed
qed

lemma session_ok_kept:
  assumes "session_ok t" "state t = CH_ST_CONNECTED" "read_kept t t'" "ku_ok t'" "alert_received t' = alert_received t"
  shows "session_ok t'" "state t' = CH_ST_CONNECTED" "read_closed t' = read_closed t"
  using assms read_kept_wf [OF assms(3)] by (auto simp: session_ok_def read_kept_def)

lemma dispatch_total:
  assumes "session_ok t" "state t = CH_ST_CONNECTED" "\<not> read_closed t"
  obtains rc t' where "dispatch_one_record t = Some (rc, t')" "dispatched t rc t'"
proof -
  have wf: "tls_wf t" "session_trust t \<noteq> None" "ku_ok t" using assms(1,2) by (simp_all add: session_ok_def)
  obtain rc outer n al t1 where r: "io_read_record t 0 (cfg_buf_len (cfg t)) ALERT_DECODE_ERROR = (rc, outer, n, al, t1)" by (metis prod_cases5)
  obtain c' where c': "t1 = t\<lparr>cfg := c'\<rparr>" "io_moved 0 (cfg t) c'" "rc = CH_OK \<Longrightarrow> n \<le> cfg_buf_len (cfg t)"
    using io_read_record_spec [OF r] wf(1) by (auto simp: tls_wf_def)
  have rc: "rc \<noteq> CH_ECLOSED" using io_read_record_rc [of t 0 "cfg_buf_len (cfg t)" ALERT_DECODE_ERROR] r by auto
  have k1: "read_kept t t1" using c' by (simp add: read_kept_def)
  have ku1: "ku_ok t1" using wf(3) c'(1) by (simp add: ku_ok_def)
  have wf1: "tls_wf t1" "cfg_buf_len (cfg t1) = cfg_buf_len (cfg t)" using read_kept_wf [OF k1] wf(1) by simp_all
  have m1: "io_moved 0 (cfg t) (cfg t1)" using c' by simp
  show ?thesis
  proof (cases "rc = CH_OK \<and> outer = REC_APPDATA")
    case False
    let ?rc = "if rc = CH_OK then CH_EPROTO else rc" and ?al = "if rc = CH_OK then ALERT_UNEXPECTED_MESSAGE else al"
    obtain t' where "fail_with t1 ?al ?rc = Some (?rc, t')" "dispatched t ?rc t'"
      by (rule dispatched_fail [OF wf1(1) m1, of ?rc ?al]) (use rc in simp_all)
    then show ?thesis using r False by (intro that [of ?rc t']) (auto simp: dispatch_one_record_def split: if_splits)
  next
    case True
    have "0 + n \<le> length (cfg_buf (cfg t1))" using c'(3) True wf1 by (simp add: tls_wf_def)
    then show ?thesis
    proof (cases rule: open_in_place_total)
      case (refused d)
      have "tls_wf (t1\<lparr>rd := d\<rparr>)" using wf1(1) by (simp add: tls_wf_def)
      then obtain t' where "fail_with (t1\<lparr>rd := d\<rparr>) ALERT_BAD_RECORD_MAC CH_EAUTH = Some (CH_EAUTH, t')" "dispatched t CH_EAUTH t'"
        by (rule dispatched_fail [where t = t and rc = CH_EAUTH and d = ALERT_BAD_RECORD_MAC]) (use m1 in simp_all)
      then show ?thesis using that True r refused by (simp add: dispatch_one_record_def)
    next
      case (opened d buf m ty)
      define t2 where "t2 = t1\<lparr>rd := d, cfg := (cfg t1)\<lparr>cfg_buf := buf\<rparr>\<rparr>"
      have "io_moved 0 (cfg t1) (cfg t2)"
        by (rule io_movedI [where io = "cfg_io (cfg t1)" and buf = buf]) (use opened(2) in \<open>simp_all add: t2_def\<close>)
      then have k2: "read_kept t t2" using k1 by (intro read_kept_trans [OF k1]) (simp add: read_kept_def t2_def)
      have ku2: "ku_ok t2" "alert_received t2 = alert_received t" using ku1 c'(1) by (simp_all add: t2_def ku_ok_def)
      note ok2 = session_ok_kept [OF assms(1,2) k2 ku2]
      have wf2: "tls_wf t2" "m \<le> cfg_buf_len (cfg t2)" "session_trust t2 \<noteq> None"
        using read_kept_wf [OF k2] wf opened(4) c'(3) True by simp_all
      have m2: "io_moved 0 (cfg t) (cfg t2)" using k2 by (simp add: read_kept_def)
      have disp: "dispatch_one_record t =
          (if ty = REC_APPDATA then
             let t = t2\<lparr>pt_off := 0, pt_len := m\<rparr> in Some (CH_OK, if m > 0 then t\<lparr>key_update_run := 0\<rparr> else t)
           else if ty = REC_HANDSHAKE then hspost_read t2 m
           else if ty = REC_ALERT then read_alert t2 m
           else fail_with t2 ALERT_UNEXPECTED_MESSAGE CH_EPROTO)"
        using True r opened(1) by (simp add: dispatch_one_record_def t2_def)
      consider "ty = REC_APPDATA" | "ty \<noteq> REC_APPDATA" "ty = REC_HANDSHAKE" | "ty \<noteq> REC_APPDATA" "ty \<noteq> REC_HANDSHAKE" "ty = REC_ALERT"
        | "ty \<noteq> REC_APPDATA" "ty \<noteq> REC_HANDSHAKE" "ty \<noteq> REC_ALERT" by blast
      then show ?thesis
      proof cases
        case 1
        let ?t = "if m > 0 then t2\<lparr>pt_off := 0, pt_len := m, key_update_run := 0\<rparr> else t2\<lparr>pt_off := 0, pt_len := m\<rparr>"
        have "session_trust (t2\<lparr>pt_off := 0, pt_len := m\<rparr>) = session_trust t2"
          "session_trust (t2\<lparr>pt_off := 0, pt_len := m, key_update_run := 0\<rparr>) = session_trust t2"
          by (simp_all add: session_trust_def split: option.split)
        then have "dispatched t CH_OK ?t"
          using ok2 wf2 m2 assms(3) ku2 unfolding dispatched_def session_ok_def by (cases "m > 0") (simp_all add: tls_wf_def ku_ok_def)
        moreover have "dispatch_one_record t = Some (CH_OK, ?t)" using 1 disp by (simp add: Let_def)
        ultimately show ?thesis using that by blast
      next
        case 2
        from wf2(1,3) ku2(1) wf2(2) show ?thesis
        proof (cases rule: hspost_read_total)
          case (read t')
          have "alert_received t' = alert_received t2" by (rule read(4))
          then have "dispatched t CH_OK t'"
            using session_ok_kept [OF ok2(1,2) read(2,3)] read(2) m2 io_moved_trans [of 0 "cfg t" "cfg t2" 0 "cfg t'"] ok2(3) assms(3)
            by (simp add: dispatched_def read_kept_def)
          then show ?thesis using that 2 disp read(1) by simp
        next
          case (failed rc t')
          have "session_ok t'" using session_ok_failed [OF wf2(1)] failed by blast
          then have "dispatched t rc t'" using failed m2 io_moved_trans [of 0 "cfg t" "cfg t2" 0 "cfg t'"] by (simp add: dispatched_def)
          then show ?thesis using that 2 disp failed(1) by simp
        qed
      next
        case 3
        obtain rc t' where "read_alert t2 m = Some (rc, t')" "dispatched t2 rc t'"
          by (rule read_alert_total [OF ok2(1,2)]) (use ok2(3) assms(3) in simp_all)
        then show ?thesis using that 3 disp m2 io_moved_trans [of 0 "cfg t" "cfg t2" 0 "cfg t'"] by (simp add: dispatched_def)
      next
        case 4
        obtain t' where "fail_with t2 ALERT_UNEXPECTED_MESSAGE CH_EPROTO = Some (CH_EPROTO, t')" "dispatched t CH_EPROTO t'"
          by (rule dispatched_fail [OF wf2(1) m2, of CH_EPROTO]) simp_all
        then show ?thesis using that 4 disp by simp
      qed
    qed
  qed
qed


lemma fail_with_rc: "fail_with t d rc = Some (rc', t') \<Longrightarrow> rc' = rc"
  by (auto simp: fail_with_def bind_eq_Some_conv)

lemma read_alert_codes:
  assumes "read_alert t n = Some (rc, t')" "rc = CH_OK \<or> rc = CH_ECLOSED"
  shows "n = 2 \<and> (if rc = CH_OK then cfg_buf (cfg t) ! 1 = ALERT_USER_CANCELED \<and> t' = t
     else cfg_buf (cfg t) ! 1 = ALERT_CLOSE_NOTIFY \<and> t' = close_read_side t)"
proof -
  obtain al x where "hsr_refuse_alert t (take n (cfg_buf (cfg t))) ALERT_UNEXPECTED_MESSAGE = (CH_EPROTO, al, t\<lparr>alert_received := x\<rparr>)"
    by (rule refuse_alert_spec)
  then show ?thesis using assms fail_with_rc [of _ al CH_EPROTO rc t'] unfolding read_alert_def Let_def by (auto split: if_splits)
qed

text \<open>
  The records of a connected session as the peer sends them.  \<open>next_record t ct io d\<close>: the bytes that \<open>recv\<close> gives next, up to the
  caller's state \<open>io\<close>, are one record, which the session's read direction opens to the content and type \<open>ct\<close> and which leaves the
  direction at \<open>d\<close>.  A quiet record is one without data for the caller: handshake messages, an empty data record, or user_canceled.
\<close>

definition next_record :: "'io ch_tls_priv \<Rightarrow> bytes \<times> u8 \<Rightarrow> 'io \<Rightarrow> rec_dir \<Rightarrow> bool" where
  "next_record t ct io d \<longleftrightarrow> (\<exists>rec. received (cfg_recv (cfg t)) (cfg_io (cfg t)) rec io \<and>
     rec_open (rd t) rec (cfg_buf_len (cfg t)) = Some (Some ct, d))"

fun quiet_content :: "bytes \<times> u8 \<Rightarrow> bool" where
  "quiet_content (content, type) \<longleftrightarrow> type = REC_HANDSHAKE \<or> type = REC_APPDATA \<and> content = [] \<or>
     type = REC_ALERT \<and> length content = 2 \<and> content ! 1 = ALERT_USER_CANCELED"

fun close_notify :: "bytes \<times> u8 \<Rightarrow> bool" where
  "close_notify (content, type) \<longleftrightarrow> type = REC_ALERT \<and> length content = 2 \<and> content ! 1 = ALERT_CLOSE_NOTIFY"

text \<open>Records handled one after another that left no data to read.\<close>

inductive quiet_run :: "'io ch_tls_priv \<Rightarrow> 'io ch_tls_priv \<Rightarrow> bool" where
  none: "quiet_run t t"
| one: "next_record t ct io d \<Longrightarrow> quiet_content ct \<Longrightarrow> snd ct \<noteq> REC_HANDSHAKE \<longrightarrow> cfg_io (cfg t1) = io \<and> rd t1 = d \<Longrightarrow>
    dispatch_one_record t = Some (CH_OK, t1) \<Longrightarrow> quiet_run t1 t2 \<Longrightarrow> quiet_run t t2"

lemma dispatch_record:
  assumes "session_ok t" "state t = CH_ST_CONNECTED" "\<not> read_closed t" "\<not> pt_len t > pt_off t" "recv_ok (cfg_recv (cfg t))"
    and "dispatch_one_record t = Some (rc, t')" "rc = CH_OK \<or> rc = CH_ECLOSED"
  shows "\<exists>ct io d. next_record t ct io d \<and>
    (if rc = CH_ECLOSED then close_notify ct \<and> cfg_io (cfg t') = io
     else if pt_len t' > pt_off t' then ct = (pending t', REC_APPDATA) \<and> cfg_io (cfg t') = io \<and> rd t' = d
     else quiet_content ct \<and> (snd ct \<noteq> REC_HANDSHAKE \<longrightarrow> cfg_io (cfg t') = io \<and> rd t' = d))"
proof -
  have wf: "tls_wf t" "session_trust t \<noteq> None" "ku_ok t" using assms(1,2) by (simp_all add: session_ok_def)
  obtain rc1 outer n al t1 where r: "io_read_record t 0 (cfg_buf_len (cfg t)) ALERT_DECODE_ERROR = (rc1, outer, n, al, t1)" by (metis prod_cases5)
  obtain c' where c': "t1 = t\<lparr>cfg := c'\<rparr>" "io_moved 0 (cfg t) c'" "rc1 = CH_OK \<Longrightarrow> n \<le> cfg_buf_len (cfg t)"
    using io_read_record_spec [OF r] wf(1) by (auto simp: tls_wf_def)
  have wf1: "tls_wf t1" "cfg_buf_len (cfg t1) = cfg_buf_len (cfg t)" "session_trust t1 \<noteq> None" "ku_ok t1"
    using wf_moved [OF wf(1) c'(2)] c'(1) io_moved_fields(2) [OF c'(2)] trust_moved [of 0 t t1] wf c'(2) by (simp_all add: ku_ok_def)
  have rc1: "rc1 \<noteq> CH_ECLOSED" using io_read_record_rc [of t 0 "cfg_buf_len (cfg t)" ALERT_DECODE_ERROR] r by auto
  have ok: "rc1 = CH_OK" "outer = REC_APPDATA"
    using assms(6,7) r rc1 by (auto simp: dispatch_one_record_def dest: fail_with_rc split: if_splits)
  let ?rec = "take n (cfg_buf (cfg t1))"
  have rcv: "received (cfg_recv (cfg t)) (cfg_io (cfg t)) ?rec (cfg_io (cfg t1))"
    using io_read_record_received(1) [OF r [unfolded ok(1)]] wf(1) assms(5) by (simp add: tls_wf_def)
  have "0 + n \<le> length (cfg_buf (cfg t1))" using c'(3) ok wf1 by (simp add: tls_wf_def)
  then show ?thesis
  proof (cases rule: open_in_place_total)
    case (refused d)
    then show ?thesis using assms(6,7) r ok by (auto simp: dispatch_one_record_def dest: fail_with_rc)
  next
    case (opened d buf m ty)
    define t2 where "t2 = t1\<lparr>rd := d, cfg := (cfg t1)\<lparr>cfg_buf := buf\<rparr>\<rparr>"
    have t2: "cfg_io (cfg t2) = cfg_io (cfg t1)" "rd t2 = d" "cfg_buf (cfg t2) = buf" by (simp_all add: t2_def)
    have "m \<le> length buf" using opened(2,4) wf1 c'(3) ok(1) by (simp add: tls_wf_def)
    then have lm: "length (take m buf) = m" "take m buf ! 1 = buf ! 1" if "m = 2" using that by simp_all
    have nr: "next_record t (take m buf, ty) (cfg_io (cfg t1)) d"
      using rcv opened(7) wf1(2) c'(1) unfolding next_record_def by auto
    have k2: "read_kept t1 t2"
      using io_movedI [where c' = "cfg t2" and c = "cfg t1" and io = "cfg_io (cfg t1)" and buf = buf and at = 0] opened(2)
      by (simp add: read_kept_def t2_def)
    have "dispatch_one_record t =
        (if ty = REC_APPDATA then
           let t = t2\<lparr>pt_off := 0, pt_len := m\<rparr> in Some (CH_OK, if m > 0 then t\<lparr>key_update_run := 0\<rparr> else t)
         else if ty = REC_HANDSHAKE then hspost_read t2 m
         else if ty = REC_ALERT then read_alert t2 m
         else fail_with t2 ALERT_UNEXPECTED_MESSAGE CH_EPROTO)"
      using r ok opened(1) by (simp add: dispatch_one_record_def t2_def)
    note disp = this [symmetric, unfolded assms(6)]
    have still: "pt_off t2 = pt_off t" "pt_len t2 = pt_len t" using c'(1) by (simp_all add: t2_def)
    consider "ty = REC_APPDATA" | "ty \<noteq> REC_APPDATA" "ty = REC_HANDSHAKE" | "ty \<noteq> REC_APPDATA" "ty \<noteq> REC_HANDSHAKE" "ty = REC_ALERT"
      | "ty \<noteq> REC_APPDATA" "ty \<noteq> REC_HANDSHAKE" "ty \<noteq> REC_ALERT" by blast
    then show ?thesis
    proof cases
      case 1
      then have t': "rc = CH_OK" "t' = (if m > 0 then t2\<lparr>pt_off := 0, pt_len := m, key_update_run := 0\<rparr> else t2\<lparr>pt_off := 0, pt_len := m\<rparr>)"
        using disp by (auto simp: Let_def split: if_splits)
      have "pending t' = take m buf" using t'(2) t2(3) by (simp add: pending_def)
      then show ?thesis
        using nr 1 t' t2 by (intro exI [of _ "(take m buf, ty)"] exI [of _ "cfg_io (cfg t1)"] exI [of _ d]) simp
    next
      case 2
      have "tls_wf t2" "session_trust t2 \<noteq> None" "ku_ok t2" "m \<le> cfg_buf_len (cfg t2)"
        using read_kept_wf [OF k2] wf1 opened(4) c'(3) ok by (simp_all add: ku_ok_def t2_def)
      then have "rc = CH_OK \<and> pt_off t' = pt_off t2 \<and> pt_len t' = pt_len t2"
      proof (cases rule: hspost_read_total)
        case (read t'')
        then show ?thesis using disp 2 by (auto simp: read_kept_def)
      next
        case (failed rc t'')
        then show ?thesis using disp 2 assms(7) by auto
      qed
      then show ?thesis
        using nr 2 still assms(4) by (intro exI [of _ "(take m buf, ty)"] exI [of _ "cfg_io (cfg t1)"] exI [of _ d]) simp
    next
      case 3
      then have "read_alert t2 m = Some (rc, t')" using disp by simp
      note al = read_alert_codes [OF this assms(7)]
      have "t' = t2 \<or> t' = close_read_side t2" "rc = CH_OK \<Longrightarrow> t' = t2" using al by (auto split: if_splits)
      then show ?thesis
        using nr 3 al lm t2 still assms(4,7)
        by (intro exI [of _ "(take m buf, ty)"] exI [of _ "cfg_io (cfg t1)"] exI [of _ d]) (auto simp: close_read_side_def)
    next
      case 4
      then show ?thesis using disp assms(7) fail_with_rc [of t2 ALERT_UNEXPECTED_MESSAGE CH_EPROTO rc t'] by auto
    qed
  qed
qed

text \<open>What reading found at the peer: quiet records, then the record that gave the data or closed the stream.\<close>

definition read_from :: "'io ch_tls_priv \<Rightarrow> bytes \<Rightarrow> 'io ch_tls_priv \<Rightarrow> bool" where
  "read_from t d t' \<longleftrightarrow> (\<exists>t1 ct dir. quiet_run t t1 \<and> next_record t1 ct (cfg_io (cfg t')) dir \<and>
     (if d = [] then close_notify ct else ct = (d @ pending t', REC_APPDATA) \<and> rd t' = dir))"

definition read_outcome :: "'io ch_tls_priv \<Rightarrow> nat \<Rightarrow> rc + bytes \<Rightarrow> 'io ch_tls_priv \<Rightarrow> bool" where
  "read_outcome t n r t' \<longleftrightarrow> session_ok t' \<and> io_moved 0 (cfg t) (cfg t') \<and>
     (case r of
        Inl rc \<Rightarrow> state t' = CH_ST_FAILED
      | Inr d \<Rightarrow> state t' = CH_ST_CONNECTED \<and> length d \<le> n \<and> (d = [] \<longleftrightarrow> read_closed t') \<and>
          (if pt_len t > pt_off t then d = take n (pending t) \<and> pending t' = drop n (pending t) \<and> cfg t' = cfg t \<and> rd t' = rd t
           else recv_ok (cfg_recv (cfg t)) \<longrightarrow> read_from t d t'))"

lemma read_pending:
  assumes "session_ok t" "state t = CH_ST_CONNECTED" "\<not> read_closed t" "quiet < CH_QUIET_CAP" "pt_len t > pt_off t" "0 < n"
  obtains t' where "read_loop t n quiet = Some (Inr (take n (pending t)), t')" "session_ok t'" "cfg t' = cfg t" "state t' = CH_ST_CONNECTED"
    "\<not> read_closed t'" "take n (pending t) \<noteq> []" "pending t' = drop n (pending t)" "rd t' = rd t"
proof -
  let ?k = "min (pt_len t - pt_off t) n"
  let ?t = "t\<lparr>pt_off := pt_off t + ?k\<rparr>"
  have wf: "tls_wf t" using assms(1) by (simp add: session_ok_def)
  have k: "?k \<le> length (pending t)" "take ?k (pending t) = take n (pending t)" "drop ?k (pending t) = drop n (pending t)"
    using wf by (simp_all add: min_def)
  have loop: "read_loop t n quiet = Some (Inr (take n (pending t)), ?t)"
    using assms(4,5) take_pending(1) [OF wf k(1)] k(2) by (subst read_loop.simps) (simp add: Let_def min_def split: if_splits)
  have "session_trust ?t = session_trust t" by (simp add: session_trust_def split: option.split)
  then have ok: "session_ok ?t" using assms by (simp add: session_ok_def tls_wf_def ku_ok_def)
  have "length (take n (pending t)) > 0" using wf assms(5,6) by simp
  then have ne: "take n (pending t) \<noteq> []" by (metis length_greater_0_conv)
  show ?thesis by (rule that [OF loop ok _ _ _ ne]) (use assms take_pending(2) [OF wf k(1)] k(3) in simp_all)
qed

lemma read_outcome_later:
  assumes "read_outcome t1 n r t'" "dispatch_one_record t = Some (CH_OK, t1)" "io_moved 0 (cfg t) (cfg t1)" "\<not> pt_len t > pt_off t"
    and rec: "recv_ok (cfg_recv (cfg t)) \<Longrightarrow> \<exists>ct io d. next_record t ct io d \<and>
      (if pt_len t1 > pt_off t1 then ct = (pending t1, REC_APPDATA) \<and> cfg_io (cfg t1) = io \<and> rd t1 = d
       else quiet_content ct \<and> (snd ct \<noteq> REC_HANDSHAKE \<longrightarrow> cfg_io (cfg t1) = io \<and> rd t1 = d))"
    and "r = Inr [] \<Longrightarrow> \<not> pt_len t1 > pt_off t1"
  shows "read_outcome t n r t'"
proof -
  have moved: "io_moved 0 (cfg t) (cfg t')" using assms(1) io_moved_trans [OF assms(3), of 0 "cfg t'"] by (simp add: read_outcome_def)
  have "read_from t d t'" if "r = Inr d" "recv_ok (cfg_recv (cfg t))" for d
  proof -
    note rd = that
    obtain ct io dir where nr: "next_record t ct io dir"
      "if pt_len t1 > pt_off t1 then ct = (pending t1, REC_APPDATA) \<and> cfg_io (cfg t1) = io \<and> rd t1 = dir
       else quiet_content ct \<and> (snd ct \<noteq> REC_HANDSHAKE \<longrightarrow> cfg_io (cfg t1) = io \<and> rd t1 = dir)" using rec [OF rd(2)] by blast
    show ?thesis
    proof (cases "pt_len t1 > pt_off t1")
      case True
      then have "d @ pending t' = pending t1" "cfg t' = cfg t1" "rd t' = rd t1" "d \<noteq> []"
        using assms(1,6) that(1) by (auto simp: read_outcome_def)
      then show ?thesis using nr True quiet_run.none [of t] unfolding read_from_def by auto
    next
      case False
      then have "read_from t1 d t'" using assms(1) that io_moved_fields(5) [OF assms(3)] by (simp add: read_outcome_def)
      then obtain t2 ct' dir' where f: "quiet_run t1 t2" "next_record t2 ct' (cfg_io (cfg t')) dir'"
        "if d = [] then close_notify ct' else ct' = (d @ pending t', REC_APPDATA) \<and> rd t' = dir'" by (auto simp: read_from_def)
      have "quiet_run t t2" by (rule quiet_run.one [OF nr(1) _ _ assms(2) f(1)]) (use nr(2) False in simp_all)
      then show ?thesis using f(2,3) unfolding read_from_def by blast
    qed
  qed
  then show ?thesis using assms(1,4) moved by (auto simp: read_outcome_def split: sum.split)
qed

lemma read_loop_total:
  assumes "session_ok t" "state t = CH_ST_CONNECTED" "\<not> read_closed t" "0 < n"
  shows "\<exists>r t'. read_loop t n quiet = Some (r, t') \<and> read_outcome t n r t'"
  using assms
proof (induction t n quiet rule: read_loop.induct)
  case (1 t n quiet)
  have wf: "tls_wf t" using "1.prems"(1) by (simp add: session_ok_def)
  consider "\<not> quiet < CH_QUIET_CAP" | "quiet < CH_QUIET_CAP" "pt_len t > pt_off t" | "quiet < CH_QUIET_CAP" "\<not> pt_len t > pt_off t" by blast
  then show ?case
  proof cases
    case 1
    obtain t' where "fail_with t ALERT_UNEXPECTED_MESSAGE CH_EPROTO = Some (CH_EPROTO, t')" "state t' = CH_ST_FAILED" "session_ok t'"
      "io_moved 0 (cfg t) (cfg t')" by (rule fail_with_total [OF wf])
    then show ?thesis using 1 by (subst read_loop.simps) (simp add: read_outcome_def)
  next
    case 2
    then obtain t' where "read_loop t n quiet = Some (Inr (take n (pending t)), t')" "session_ok t'" "cfg t' = cfg t" "state t' = CH_ST_CONNECTED"
      "\<not> read_closed t'" "take n (pending t) \<noteq> []" "pending t' = drop n (pending t)" "rd t' = rd t"
      using read_pending [OF "1.prems"(1-3)] "1.prems"(4) by metis
    then show ?thesis using 2 by (simp add: read_outcome_def)
  next
    case 3
    obtain rc t1 where d: "dispatch_one_record t = Some (rc, t1)" "dispatched t rc t1" by (rule dispatch_total [OF "1.prems"(1-3)])
    have loop: "read_loop t n quiet =
        (if rc = CH_ECLOSED then Some (Inr [], t1) else if rc \<noteq> CH_OK then Some (Inl rc, t1) else read_loop t1 n (quiet + 1))"
      using 3 d(1) by (subst read_loop.simps) simp
    show ?thesis
    proof (cases "rc = CH_OK")
      case False
      have "read_from t [] t1" if "rc = CH_ECLOSED" "recv_ok (cfg_recv (cfg t))"
        using dispatch_record [OF "1.prems"(1-3) 3(2) that(2) d(1)] that(1) quiet_run.none [of t] by (auto simp: read_from_def)
      then show ?thesis using False loop d(2) 3 by (cases "rc = CH_ECLOSED") (simp_all add: dispatched_def read_outcome_def)
    next
      case True
      have c1: "session_ok t1" "state t1 = CH_ST_CONNECTED" "\<not> read_closed t1" "io_moved 0 (cfg t) (cfg t1)"
        using d(2) True by (simp_all add: dispatched_def)
      have "\<exists>r t'. read_loop t1 n (quiet + 1) = Some (r, t') \<and> read_outcome t1 n r t'"
        by (rule "1.IH" [OF 3 d(1) refl]) (use True c1 "1.prems"(4) in simp_all)
      then obtain r t' where r: "read_loop t1 n (quiet + 1) = Some (r, t')" "read_outcome t1 n r t'" by blast
      have "read_outcome t n r t'"
      proof (rule read_outcome_later [OF r(2) d(1) [unfolded True] c1(4) 3(2)])
        show "\<exists>ct io d. next_record t ct io d \<and>
          (if pt_len t1 > pt_off t1 then ct = (pending t1, REC_APPDATA) \<and> cfg_io (cfg t1) = io \<and> rd t1 = d
           else quiet_content ct \<and> (snd ct \<noteq> REC_HANDSHAKE \<longrightarrow> cfg_io (cfg t1) = io \<and> rd t1 = d))" if "recv_ok (cfg_recv (cfg t))"
          using dispatch_record [OF "1.prems"(1-3) 3(2) that d(1)] True by simp
        show "\<not> pt_len t1 > pt_off t1" if "r = Inr []"
        proof
          assume p: "pt_len t1 > pt_off t1"
          then have "length (pending t1) > 0" using c1(1) by (simp add: session_ok_def)
          then have "pending t1 \<noteq> []" by (metis length_greater_0_conv)
          then show False using r(2) that "1.prems"(4) p by (auto simp: read_outcome_def)
        qed
      qed
      then show ?thesis using loop True r(1) by auto
    qed
  qed
qed


section \<open>Closing and configuring\<close>

lemma tls_close_total:
  assumes "session_ok t"
  obtains t' where "tls_close t = Some t'" "state t' = CH_ST_CLOSED" "session_ok t'" "io_moved 0 (cfg t) (cfg t')" "\<not> keys t \<Longrightarrow> cfg t' = cfg t"
proof -
  have wf: "tls_wf t" "state t \<le> CH_ST_FAILED" using assms by (auto simp: session_ok_def state_defs split: if_splits)
  obtain rc c' d x where a: "tlsi_send_alert t 1 ALERT_CLOSE_NOTIFY = Some (rc, t\<lparr>cfg := c', wr := d, tx := x\<rparr>)"
    "io_moved (length (cfg_buf (cfg t))) (cfg t) c'" "length x = length (tx t)"
    by (rule send_alert_total)
  define t1 where "t1 = (if keys t then t\<lparr>cfg := c', wr := d, tx := x\<rparr> else t)"
  let ?t = "(tlsi_wipe t1)\<lparr>state := CH_ST_CLOSED\<rparr>"
  have c: "tls_close t = Some ?t" using a(1) wf(2) by (simp add: tls_close_def t1_def)
  have m: "io_moved 0 (cfg t) (cfg ?t)" using io_moved_trans [of 0 "cfg t" "cfg t", OF _ a(2)] by (simp add: t1_def tlsi_wipe_def)
  have "session_ok ?t"
    by (rule session_ok_failed [OF wf(1) _ _ m]) (use a(3) in \<open>simp_all add: t1_def tlsi_wipe_def wiped_def HKDF_HASH_MAX_def\<close>)
  then show ?thesis using that [of ?t] c m by (simp add: t1_def tlsi_wipe_def)
qed

text \<open>A configuration the rules admit has one trust, which the invariant of the session asks for.\<close>

lemma config_trust:
  assumes "tlsi_config_ok (cfg t)" "pin_slot t = 2 \<Longrightarrow> cfg_psk (cfg t) = None \<Longrightarrow> cfg_server_pubkey2 (cfg t) \<noteq> None"
  shows "session_trust t \<noteq> None"
  using assms by (auto simp: tlsi_config_ok_def session_trust_def psk_configured_def Let_def split: option.split if_splits)

section \<open>Properties\<close>

text \<open>
  C5: \<open>ch_read\<close> on a connected session always returns, whatever the peer sends and however the caller's \<open>recv\<close> cuts it, and
  returns only what the peer authenticated.  Unread data comes first, in order, and nothing is then read from the peer.
  Otherwise the bytes returned, followed by those left for the next call, are the whole content of one application_data record:
  the bytes that \<open>recv\<close> delivered next after records without data, opened under the session's read key and sequence number.
  It returns 0 exactly when such a record was the peer's close_notify alert, so a stream that was cut off is an error.
  An error leaves the session failed, with every key wiped.  \<open>recv\<close> reports no more bytes than it wrote.
\<close>

theorem tls_read_authentic:
  assumes "session_ok t" "state t = CH_ST_CONNECTED" "\<not> read_closed t" "0 < n" "recv_ok (cfg_recv (cfg t))"
  shows "\<exists>r t'. tls_read t n = Some (r, t') \<and> session_ok t' \<and>
    (case r of
       Inl rc \<Rightarrow> state t' = CH_ST_FAILED \<and> wiped t'
     | Inr d \<Rightarrow> state t' = CH_ST_CONNECTED \<and> length d \<le> n \<and> (d = [] \<longleftrightarrow> read_closed t') \<and>
         (if pt_len t > pt_off t then d = take n (pending t) \<and> pending t' = drop n (pending t) \<and> cfg t' = cfg t \<and> rd t' = rd t
          else \<exists>t1 ct dir. quiet_run t t1 \<and> next_record t1 ct (cfg_io (cfg t')) dir \<and>
            (if d = [] then close_notify ct else ct = (d @ pending t', REC_APPDATA) \<and> rd t' = dir)))"
proof -
  obtain r t' where r: "read_loop t n 0 = Some (r, t')" "read_outcome t n r t'"
    using read_loop_total [OF assms(1-3) assms(4)] by blast
  moreover have "tls_read t n = read_loop t n 0" using assms(2-4) by (simp add: tls_read_def state_defs)
  moreover have "state t' = CH_ST_FAILED \<Longrightarrow> wiped t'" using r(2) by (simp add: read_outcome_def session_ok_def state_defs)
  ultimately show ?thesis
    using assms(5) unfolding read_outcome_def read_from_def by (intro exI [of _ r] exI [of _ t']) (auto split: sum.splits)
qed

lemma pinned_ok: "session_ok pinned_tls" "state pinned_tls = CH_ST_CONNECTED" "\<not> read_closed pinned_tls"
proof -
  have "tls_wf pinned_tls" by (simp add: tls_wf_def pinned_tls_def stream_tls_def stream_cfg_def tx_zero_def)
  then show "session_ok pinned_tls"
    using pinned_trust by (simp add: session_ok_def pinned_tls_def stream_tls_def ku_ok_def)
qed (simp_all add: pinned_tls_def stream_tls_def)

text \<open>A record that a stream in memory holds next, as the session opens it.\<close>

lemma stream_read_exact:
  assumes "cfg_recv c = stream_recv" "cfg_io c = bs @ rest" "length bs = n"
  shows "read_exact c at n = (CH_OK, c\<lparr>cfg_io := rest, cfg_buf := if n = 0 then cfg_buf c else mem_put (cfg_buf c) at bs\<rparr>)"
  using assms by (subst read_exact.simps) (auto simp: stream_recv_def read_exact.simps)

lemma stream_record:
  assumes "tls_wf t" "cfg_recv (cfg t) = stream_recv" "cfg_io (cfg t) = record_of (rd t) (p @ [ty]) @ rest" "ty \<noteq> 0" "rd_seq (rd t) \<noteq> - 1"
    and "length p + 22 \<le> cfg_buf_len (cfg t)" "length p \<le> 0x4000"
  shows "\<exists>t1 buf. io_read_record t 0 (cfg_buf_len (cfg t)) al = (CH_OK, REC_APPDATA, length p + 22, al, t1) \<and>
    open_in_place t1 0 (length p + 22) = Some (Some (length p, ty), t\<lparr>rd := (rd t)\<lparr>rd_seq := rd_seq (rd t) + 1\<rparr>,
      cfg := (cfg t)\<lparr>cfg_io := rest, cfg_buf := p @ buf\<rparr>\<rparr>) \<and> length p + length buf = length (cfg_buf (cfg t))"
proof -
  let ?r = "record_of (rd t) (p @ [ty])"
  define hdr body where "hdr = take 5 ?r" and "body = drop 5 ?r"
  have split: "?r = hdr @ body" "length hdr = 5" "length body = length p + 17" by (simp_all add: hdr_def body_def)
  have h: "hdr = rec_hdr (length p + 17)" by (simp add: hdr_def record_of_def Let_def add.commute)
  have len: "unat (hdr ! 3) * 2 ^ 8 + unat (hdr ! 4) = length p + 17" using body_length [of "length p + 17"] assms(7) by (simp add: h)
  let ?b = "cfg_buf (cfg t)"
  let ?c1 = "(cfg t)\<lparr>cfg_io := body @ rest, cfg_buf := hdr @ drop 5 ?b\<rparr>"
  let ?c2 = "(cfg t)\<lparr>cfg_io := rest, cfg_buf := ?r @ drop (length p + 22) ?b\<rparr>"
  have lb: "length ?b = cfg_buf_len (cfg t)" using assms(1) by (simp add: tls_wf_def)
  have e1: "read_exact (cfg t) 0 REC_HDR = (CH_OK, ?c1)"
    using stream_read_exact [of "cfg t" hdr "body @ rest" 5 0] assms(2,3) split by (simp add: mem_put_def)
  have e2: "read_exact ?c1 REC_HDR (length p + 17) = (CH_OK, ?c2)"
    using stream_read_exact [of ?c1 body rest "length p + 17" 5] assms(2) split
    by (simp add: mem_put_def add.commute)
  have "check_body (t\<lparr>cfg := ?c1\<rparr>) 0 (length p + 17) (cfg_buf_len (cfg t)) al = (CH_OK, al)"
    using assms(6,7) by (simp add: check_body_def h rec_body_max_def)
  then have io: "io_read_record t 0 (cfg_buf_len (cfg t)) al = (CH_OK, REC_APPDATA, length p + 22, al, t\<lparr>cfg := ?c2\<rparr>)"
    using e1 e2 len assms(6) split(1,2) h by (simp add: io_read_record_def nth_append)
  have "unpadded (p @ [ty]) = Some (p, ty)" using unpadded_content [OF assms(4), of p 0] by simp
  then have "rec_open (rd t) ?r (cfg_buf_len (cfg t)) = Some (Some (p, ty), (rd t)\<lparr>rd_seq := rd_seq (rd t) + 1\<rparr>)"
    using rec_open_record [OF assms(5), of "p @ [ty]" "cfg_buf_len (cfg t)"] assms(6,7) by simp
  then have "open_in_place (t\<lparr>cfg := ?c2\<rparr>) 0 (length p + 22) = Some (Some (length p, ty), t\<lparr>rd := (rd t)\<lparr>rd_seq := rd_seq (rd t) + 1\<rparr>,
      cfg := (cfg t)\<lparr>cfg_io := rest, cfg_buf := p @ ty # drop (length p + 1) (cfg_buf ?c2)\<rparr>\<rparr>)"
    by (simp add: open_in_place_def mem_put_def)
  then show ?thesis using io lb assms(6)
    by (intro exI [of _ "t\<lparr>cfg := ?c2\<rparr>"] exI [of _ "ty # drop (length p + 1) (cfg_buf ?c2)"]) simp
qed

lemma stream_data:
  assumes "tls_wf t" "cfg_recv (cfg t) = stream_recv" "cfg_io (cfg t) = record_of (rd t) (p @ [REC_APPDATA]) @ rest" "rd_seq (rd t) \<noteq> - 1"
    and "length p + 22 \<le> cfg_buf_len (cfg t)" "length p \<le> 0x4000"
  shows "\<exists>t' buf. dispatch_one_record t = Some (CH_OK, t') \<and> tls_wf t' \<and> pending t' = p \<and>
    cfg t' = (cfg t)\<lparr>cfg_io := rest, cfg_buf := buf\<rparr> \<and> rd t' = (rd t)\<lparr>rd_seq := rd_seq (rd t) + 1\<rparr> \<and> pt_off t' = 0 \<and> pt_len t' = length p"
proof -
  obtain t1 buf where r: "io_read_record t 0 (cfg_buf_len (cfg t)) ALERT_DECODE_ERROR = (CH_OK, REC_APPDATA, length p + 22, ALERT_DECODE_ERROR, t1)"
    "open_in_place t1 0 (length p + 22) = Some (Some (length p, REC_APPDATA), t\<lparr>rd := (rd t)\<lparr>rd_seq := rd_seq (rd t) + 1\<rparr>,
      cfg := (cfg t)\<lparr>cfg_io := rest, cfg_buf := p @ buf\<rparr>\<rparr>)" "length p + length buf = length (cfg_buf (cfg t))"
    using stream_record [OF assms(1-3) _ assms(4-6), of ALERT_DECODE_ERROR] by (auto simp: REC_APPDATA_def)
  let ?t = "t\<lparr>rd := (rd t)\<lparr>rd_seq := rd_seq (rd t) + 1\<rparr>, cfg := (cfg t)\<lparr>cfg_io := rest, cfg_buf := p @ buf\<rparr>, pt_off := 0, pt_len := length p\<rparr>"
  let ?t' = "if length p > 0 then ?t\<lparr>key_update_run := 0\<rparr> else ?t"
  have "dispatch_one_record t = Some (CH_OK, ?t')" using r(1,2) by (simp add: dispatch_one_record_def Let_def)
  then show ?thesis using r(3) assms(1,5)
    by (intro exI [of _ ?t'] exI [of _ "p @ buf"]) (auto simp: tls_wf_def pending_def)
qed

lemma stream_close:
  assumes "tls_wf t" "cfg_recv (cfg t) = stream_recv" "cfg_io (cfg t) = record_of (rd t) [lvl, ALERT_CLOSE_NOTIFY, REC_ALERT] @ rest"
    and "rd_seq (rd t) \<noteq> - 1" "24 \<le> cfg_buf_len (cfg t)"
  shows "\<exists>t'. dispatch_one_record t = Some (CH_ECLOSED, t')"
proof -
  let ?p = "[lvl, ALERT_CLOSE_NOTIFY]"
  obtain t1 buf where r: "io_read_record t 0 (cfg_buf_len (cfg t)) ALERT_DECODE_ERROR = (CH_OK, REC_APPDATA, 24, ALERT_DECODE_ERROR, t1)"
    "open_in_place t1 0 24 = Some (Some (Suc (Suc 0), REC_ALERT), t\<lparr>rd := (rd t)\<lparr>rd_seq := rd_seq (rd t) + 1\<rparr>,
      cfg := (cfg t)\<lparr>cfg_io := rest, cfg_buf := ?p @ buf\<rparr>\<rparr>)"
    using stream_record [of t ?p, OF assms(1,2) _ _ assms(4), of REC_ALERT rest ALERT_DECODE_ERROR] assms(3,5)
    by (auto simp: REC_ALERT_def)
  show ?thesis using r by (simp add: dispatch_one_record_def read_alert_def REC_ALERT_def REC_APPDATA_def REC_HANDSHAKE_def)
qed

definition over_stream :: "bytes \<Rightarrow> bytes ch_tls_priv" where
  "over_stream s = pinned_tls\<lparr>cfg := (cfg pinned_tls)\<lparr>cfg_io := s\<rparr>\<rparr>"

lemma over_stream_fields [simp]:
  "session_ok (over_stream s)" "state (over_stream s) = CH_ST_CONNECTED" "\<not> read_closed (over_stream s)" "tls_wf (over_stream s)"
  "cfg_recv (cfg (over_stream s)) = stream_recv" "cfg_io (cfg (over_stream s)) = s" "cfg_buf_len (cfg (over_stream s)) = 600"
  "rd (over_stream s) = rec_dir_zero" "pt_len (over_stream s) = 0" "pt_off (over_stream s) = 0"
proof -
  have "session_trust (over_stream s) = session_trust pinned_tls" by (simp add: over_stream_def session_trust_def split: option.split)
  then show "session_ok (over_stream s)" using pinned_ok(1)
    by (simp add: session_ok_def tls_wf_def ku_ok_def over_stream_def pinned_tls_def stream_tls_def)
qed (simp_all add: over_stream_def pinned_tls_def stream_tls_def stream_cfg_def tls_wf_def tx_zero_def)

lemma rec_dir_zero_seq [simp]: "rd_seq rec_dir_zero = 0"
  by (simp add: rec_dir_zero_def)

lemma example_data:
  assumes "s = record_of rec_dir_zero [REC_APPDATA] @ record_of (rec_dir_zero\<lparr>rd_seq := 1\<rparr>) [1, 2, 3, REC_APPDATA] @ rest"
  shows "\<exists>t'. tls_read (over_stream s) 2 = Some (Inr [1, 2], t')"
proof -
  obtain t1 buf where t1: "dispatch_one_record (over_stream s) = Some (CH_OK, t1)" "tls_wf t1"
    "cfg t1 = (cfg (over_stream s))\<lparr>cfg_io := record_of (rec_dir_zero\<lparr>rd_seq := 1\<rparr>) [1, 2, 3, REC_APPDATA] @ rest, cfg_buf := buf\<rparr>"
    "rd t1 = rec_dir_zero\<lparr>rd_seq := 1\<rparr>" "pt_off t1 = 0" "pt_len t1 = 0"
    using stream_data [of "over_stream s" "[]"] assms by auto
  obtain t2 where t2: "dispatch_one_record t1 = Some (CH_OK, t2)" "tls_wf t2" "pending t2 = [1, 2, 3]" "pt_off t2 = 0" "pt_len t2 = 3"
    using stream_data [of t1 "[1, 2, 3]" rest] t1 by auto
  have "take 2 (cfg_buf (cfg t2)) = take 2 (pending t2)" using t2(4,5) by (simp add: pending_def)
  then have "\<exists>t'. read_loop t2 2 (Suc (Suc 0)) = Some (Inr [1, 2], t')" using t2(3-5) by (subst read_loop.simps) (simp add: CH_QUIET_CAP_def)
  then have "\<exists>t'. read_loop t1 2 1 = Some (Inr [1, 2], t')" using t1 t2(1) by (subst read_loop.simps) (simp add: CH_QUIET_CAP_def)
  then have "\<exists>t'. read_loop (over_stream s) 2 0 = Some (Inr [1, 2], t')" using t1(1) by (subst read_loop.simps) (simp add: CH_QUIET_CAP_def)
  then show ?thesis by (simp add: tls_read_def state_defs)
qed

lemma example_close:
  assumes "s = record_of rec_dir_zero [1, ALERT_CLOSE_NOTIFY, REC_ALERT]"
  shows "\<exists>t'. tls_read (over_stream s) 2 = Some (Inr [], t')"
proof -
  obtain t' where "dispatch_one_record (over_stream s) = Some (CH_ECLOSED, t')" using stream_close [of "over_stream s" 1 "[]"] assms by auto
  then have "read_loop (over_stream s) 2 0 = Some (Inr [], t')" by (subst read_loop.simps) (simp add: CH_QUIET_CAP_def)
  then show ?thesis by (simp add: tls_read_def state_defs)
qed

theorem tls_read_authentic_witness:
  "(\<exists>s t'. s = record_of rec_dir_zero [REC_APPDATA] @ record_of (rec_dir_zero\<lparr>rd_seq := 1\<rparr>) [1, 2, 3, REC_APPDATA] \<and>
     tls_read (over_stream s) 2 = Some (Inr [1, 2], t') \<and> session_ok t' \<and>
     (\<exists>t1 ct dir. quiet_run (over_stream s) t1 \<and> next_record t1 ct (cfg_io (cfg t')) dir \<and> ct = ([1, 2] @ pending t', REC_APPDATA))) \<and>
   (\<exists>s t'. s = record_of rec_dir_zero [1, ALERT_CLOSE_NOTIFY, REC_ALERT] \<and> tls_read (over_stream s) 2 = Some (Inr [], t') \<and> read_closed t' \<and>
     (\<exists>t1 ct dir. quiet_run (over_stream s) t1 \<and> next_record t1 ct (cfg_io (cfg t')) dir \<and> close_notify ct))"
proof -
  have use: "session_ok t' \<and> (d = [] \<longleftrightarrow> read_closed t') \<and>
      (\<exists>t1 ct dir. quiet_run (over_stream s) t1 \<and> next_record t1 ct (cfg_io (cfg t')) dir \<and>
         (if d = [] then close_notify ct else ct = (d @ pending t', REC_APPDATA) \<and> rd t' = dir))"
    if "tls_read (over_stream s) 2 = Some (Inr d, t')" for s d t'
    using tls_read_authentic [of "over_stream s" 2] that
    by (simp del: close_notify.simps split del: if_split) (auto split: if_splits)
  show ?thesis
  proof (intro conjI)
    show "\<exists>s t'. s = record_of rec_dir_zero [REC_APPDATA] @ record_of (rec_dir_zero\<lparr>rd_seq := 1\<rparr>) [1, 2, 3, REC_APPDATA] \<and>
        tls_read (over_stream s) 2 = Some (Inr [1, 2], t') \<and> session_ok t' \<and>
        (\<exists>t1 ct dir. quiet_run (over_stream s) t1 \<and> next_record t1 ct (cfg_io (cfg t')) dir \<and> ct = ([1, 2] @ pending t', REC_APPDATA))"
      using example_data [of _ "[]"] use by fastforce
  qed (use example_close use in fastforce)
qed

text \<open>
  The cap on quiet records is one short of its name: where the last record that one call may read carries data, the call fails
  instead of returning it, though no more than \<open>CH_QUIET_CAP - 1\<close> records were without data.
\<close>

lemma last_record_dropped:
  assumes "\<not> pt_len t > pt_off t" "dispatch_one_record t = Some (CH_OK, t1)" "pt_len t1 > pt_off t1" "tls_wf t1"
  shows "\<exists>t'. read_loop t n (CH_QUIET_CAP - 1) = Some (Inl CH_EPROTO, t') \<and> state t' = CH_ST_FAILED"
proof -
  obtain t' where f: "fail_with t1 ALERT_UNEXPECTED_MESSAGE CH_EPROTO = Some (CH_EPROTO, t')" "state t' = CH_ST_FAILED"
    by (rule fail_with_total [OF assms(4)])
  then have "read_loop t1 n CH_QUIET_CAP = Some (Inl CH_EPROTO, t')" by (subst read_loop.simps) simp
  then show ?thesis using assms(1,2) f(2) by (subst read_loop.simps) (simp add: CH_QUIET_CAP_def)
qed

end
