(* ===== verification/Tls_Write.thy ===== *)
theory Tls_Write
  imports Tls
begin

text \<open>
  The send path of \<open>src/tls_write.c\<close>: \<open>ch_write\<close>, \<open>ch_write_parts\<close> and \<open>ch_writable_len\<close>, the KeyUpdate sent before a data record,
  and \<open>ch_fail\<close>.  The loops over a caller's parts may not end on a cursor that names no byte, and not returning is \<open>None\<close>; the
  lemmas show that they return.  Sums and products of \<open>size_t\<close> values are taken modulo \<open>2^64\<close>.
\<close>

section \<open>Model\<close>

subsection \<open>Limits\<close>

definition SIZE_MAX :: nat where "SIZE_MAX = 18446744073709551615"
definition CH_KEY_UPDATE_RECORD_LEN :: nat where "CH_KEY_UPDATE_RECORD_LEN = REC_OVERHEAD + 4 + 1"

definition size_add :: "nat \<Rightarrow> nat \<Rightarrow> nat" where "size_add a b = (a + b) mod (SIZE_MAX + 1)"
definition size_mul :: "nat \<Rightarrow> nat \<Rightarrow> nat" where "size_mul a b = (a * b) mod (SIZE_MAX + 1)"

definition record_plaintext_max :: "'io ch_tls_priv \<Rightarrow> nat" where
  "record_plaintext_max t = (if unat (peer_limit t) < CH_TX_PT then unat (peer_limit t) else CH_TX_PT)"

definition records_per_key :: "'io ch_tls_priv \<Rightarrow> nat" where
  "records_per_key t = SIZE_MAX"

definition records_before_key_update :: "'io ch_tls_priv \<Rightarrow> nat" where
  "records_before_key_update t =
     (if key_update_owed t then 0
      else
        let per_key = records_per_key t
        in if per_key = SIZE_MAX then SIZE_MAX
           else if unat (rd_seq (wr t)) < per_key then per_key - unat (rd_seq (wr t)) else 0)"

definition key_update_before_record :: "'io ch_tls_priv \<Rightarrow> (rc \<times> 'io ch_tls_priv) option" where
  "key_update_before_record t =
     (if records_before_key_update t \<noteq> 0 then Some (CH_OK, t)
      else if send_epochs t \<ge> HSPOST_SEND_EPOCHS_MAX then fail_with t ALERT_INTERNAL_ERROR CH_ECAP
      else do {
        (rc, t) \<leftarrow> hspost_send_key_update t;
        if rc \<noteq> CH_OK then fail_with t ALERT_INTERNAL_ERROR rc else Some (CH_OK, t)
      })"

subsection \<open>Parts\<close>

record ch_part =
  part_pt :: bytes
  part_len :: nat

record parts_cursor =
  pc_parts :: "ch_part list"
  pc_count :: nat
  pc_index :: nat
  pc_offset :: nat

function parts_skip_empty :: "parts_cursor \<Rightarrow> parts_cursor" where
  "parts_skip_empty c =
     (if pc_index c < pc_count c \<and> pc_offset c = part_len (pc_parts c ! pc_index c)
      then parts_skip_empty (c\<lparr>pc_index := pc_index c + 1, pc_offset := 0\<rparr>) else c)"
  by pat_completeness auto

termination
  by (relation "measure (\<lambda>c. pc_count c - pc_index c)") auto

declare parts_skip_empty.simps [simp del]

partial_function (option) parts_copy_record :: "parts_cursor \<Rightarrow> wbuf \<Rightarrow> nat \<Rightarrow> (parts_cursor \<times> wbuf) option" where
  "parts_copy_record c w limit =
     (if wb_len w < limit \<and> pc_index c < pc_count c then
        let part = pc_parts c ! pc_index c;
            left = size_sub (part_len part) (pc_offset c);
            room = size_sub limit (wb_len w);
            k = (if left < room then left else room);
            w = wb_bytes w (drop (pc_offset c) (part_pt part)) k;
            c = parts_skip_empty (c\<lparr>pc_offset := pc_offset c + k\<rparr>)
        in parts_copy_record c w limit
      else Some (c, w))"

subsection \<open>Writing\<close>

text \<open>One turn of the loop of \<open>tls_write_parts\<close>: a return with its result code, or the session and the cursor after one record.\<close>

definition write_turn :: "'io ch_tls_priv \<Rightarrow> parts_cursor \<Rightarrow> nat \<Rightarrow> (rc \<times> 'io ch_tls_priv + 'io ch_tls_priv \<times> parts_cursor) option" where
  "write_turn t cursor limit =
     do {
       (rc, t) \<leftarrow> key_update_before_record t;
       if rc \<noteq> CH_OK then Some (Inl (rc, t))
       else do {
         let inner = wb_init (drop REC_HDR (tx t)) (length (tx t) - REC_HDR);
         (cursor, inner) \<leftarrow> parts_copy_record cursor inner limit;
         let t = t\<lparr>tx := take REC_HDR (tx t) @ wb_p inner\<rparr>;
         if wb_err inner then map_option Inl (fail_with t ALERT_INTERNAL_ERROR CH_ECAP)
         else do {
           (n, t) \<leftarrow> tx_seal t REC_APPDATA (take (wb_len inner) (wb_p inner));
           case n of
             None \<Rightarrow> map_option Inl (fail_with t ALERT_INTERNAL_ERROR CH_ECAP)
           | Some n \<Rightarrow>
               let (rc, t) = tx_send t n
               in if rc \<noteq> CH_OK then map_option Inl (fail_with t ALERT_INTERNAL_ERROR rc) else Some (Inr (t, cursor))
         }
       }
     }"

partial_function (option) write_loop :: "'io ch_tls_priv \<Rightarrow> parts_cursor \<Rightarrow> nat \<Rightarrow> (rc \<times> 'io ch_tls_priv) option" where
  "write_loop t cursor limit =
     (if pc_index cursor < pc_count cursor then
        Option.bind (write_turn t cursor limit)
          (\<lambda>r. case r of Inl out \<Rightarrow> Some out | Inr (t, cursor) \<Rightarrow> write_loop t cursor limit)
      else Some (CH_OK, t))"

definition tls_write_parts :: "'io ch_tls_priv \<Rightarrow> ch_part list \<Rightarrow> nat \<Rightarrow> (rc \<times> 'io ch_tls_priv) option" where
  "tls_write_parts t parts part_count =
     (if \<not> state t \<le> CH_ST_FAILED then None
      else if state t \<noteq> CH_ST_CONNECTED then Some (CH_EPROTO, t)
      else
        let cursor = parts_skip_empty \<lparr>pc_parts = parts, pc_count = part_count, pc_index = 0, pc_offset = 0\<rparr>
        in write_loop t cursor (record_plaintext_max t))"

definition tls_write :: "'io ch_tls_priv \<Rightarrow> bytes \<Rightarrow> nat \<Rightarrow> (rc \<times> 'io ch_tls_priv) option" where
  "tls_write t p n = tls_write_parts t [\<lparr>part_pt = p, part_len = n\<rparr>] 1"

subsection \<open>The writable length\<close>

text \<open>The plaintext and the number of records.\<close>

definition records_fill :: "nat \<Rightarrow> nat \<Rightarrow> nat \<times> nat" where
  "records_fill cap limit =
     (let whole = cap div size_add limit REC_OVERHEAD;
          in_whole = size_mul whole limit;
          overhead = size_mul (size_add whole 1) REC_OVERHEAD;
          with_one_more = (if cap > overhead then cap - overhead else 0)
      in if with_one_more > in_whole then (with_one_more, size_add whole 1) else (in_whole, whole))"

definition fill_across_key_update :: "nat \<Rightarrow> nat \<Rightarrow> nat \<Rightarrow> nat \<Rightarrow> nat" where
  "fill_across_key_update cap limit room per_key =
     (let left = size_sub cap (size_mul room (size_add limit REC_OVERHEAD));
          rest = (if left > CH_KEY_UPDATE_RECORD_LEN then left - CH_KEY_UPDATE_RECORD_LEN else 0);
          (after, records) = records_fill rest limit;
          after = (if records > per_key then size_mul per_key limit else after)
      in size_add (size_mul room limit) after)"

definition tls_writable_len :: "'io ch_tls_priv \<Rightarrow> nat \<Rightarrow> nat" where
  "tls_writable_len t cap =
     (let limit = record_plaintext_max t
      in if limit = 0 then 0
         else
           let (fill, records) = records_fill cap limit;
               room = records_before_key_update t
           in if records > room then fill_across_key_update cap limit room (records_per_key t) else fill)"

subsection \<open>Failing\<close>

definition error_alerts :: "u8 list" where
  "error_alerts = [10, 20, 22, 40, 42, 43, 44, 45, 46, 47, 48, 49, 50, 51, 70, 71, 80, 86, 109, 110, 112, 113, 115, 116, 117, 120]"

definition is_error_alert :: "u8 \<Rightarrow> bool" where
  "is_error_alert description = list_ex (\<lambda>a. a = description) error_alerts"

definition tls_fail :: "'io ch_tls_priv \<Rightarrow> u8 \<Rightarrow> (rc \<times> 'io ch_tls_priv) option" where
  "tls_fail t description =
     (if \<not> state t \<le> CH_ST_FAILED then None
      else if \<not> is_error_alert description then Some (CH_EINVAL, t)
      else if state t \<noteq> CH_ST_CONNECTED then Some (CH_EPROTO, t)
      else tlsi_fail t description)"

subsection \<open>Specification\<close>

text \<open>The bytes of the parts, those a cursor has left, and a cursor that names a byte or the end.\<close>

definition part_bytes :: "ch_part \<Rightarrow> bytes" where
  "part_bytes p = take (part_len p) (part_pt p)"

definition parts_bytes :: "ch_part list \<Rightarrow> bytes" where
  "parts_bytes ps = concat (map part_bytes ps)"

definition parts_ok :: "ch_part list \<Rightarrow> bool" where
  "parts_ok ps \<longleftrightarrow> list_all (\<lambda>p. part_len p \<le> length (part_pt p)) ps"

definition bytes_left :: "parts_cursor \<Rightarrow> bytes" where
  "bytes_left c = drop (pc_offset c) (parts_bytes (take (pc_count c - pc_index c) (drop (pc_index c) (pc_parts c))))"

definition cursor_ok :: "parts_cursor \<Rightarrow> bool" where
  "cursor_ok c \<longleftrightarrow> pc_count c \<le> length (pc_parts c) \<and> parts_ok (pc_parts c) \<and>
     (pc_index c < pc_count c \<longrightarrow> pc_offset c \<le> part_len (pc_parts c ! pc_index c))"

definition cursor_ready :: "parts_cursor \<Rightarrow> bool" where
  "cursor_ready c \<longleftrightarrow> cursor_ok c \<and> (pc_index c < pc_count c \<longrightarrow> pc_offset c < part_len (pc_parts c ! pc_index c))"

text \<open>Sending one record with the given content, and a byte string record by record.\<close>

definition record_turn :: "'io ch_tls_priv \<Rightarrow> bytes \<Rightarrow> (rc \<times> 'io ch_tls_priv + 'io ch_tls_priv) option" where
  "record_turn t content =
     do {
       (rc, t) \<leftarrow> key_update_before_record t;
       if rc \<noteq> CH_OK then Some (Inl (rc, t))
       else do {
         let t = t\<lparr>tx := take REC_HDR (tx t) @ mem_put (drop REC_HDR (tx t)) 0 content\<rparr>;
         (n, t) \<leftarrow> tx_seal t REC_APPDATA content;
         case n of
           None \<Rightarrow> map_option Inl (fail_with t ALERT_INTERNAL_ERROR CH_ECAP)
         | Some n \<Rightarrow>
             let (rc, t) = tx_send t n
             in if rc \<noteq> CH_OK then map_option Inl (fail_with t ALERT_INTERNAL_ERROR rc) else Some (Inr t)
       }
     }"

function write_bytes :: "'io ch_tls_priv \<Rightarrow> bytes \<Rightarrow> nat \<Rightarrow> (rc \<times> 'io ch_tls_priv) option" where
  "write_bytes t bs limit =
     (if bs = [] \<or> limit = 0 then Some (CH_OK, t)
      else
        case record_turn t (take limit bs) of
          None \<Rightarrow> None
        | Some (Inl out) \<Rightarrow> Some out
        | Some (Inr t) \<Rightarrow> write_bytes t (drop limit bs) limit)"
  by pat_completeness auto

termination
  by (relation "measure (\<lambda>(t, bs, limit). length bs)") auto

declare write_bytes.simps [simp del]

section \<open>The cursor\<close>

lemma length_part_bytes [simp]: "part_len p \<le> length (part_pt p) \<Longrightarrow> length (part_bytes p) = part_len p"
  by (simp add: part_bytes_def)

lemma parts_ok_nth: "parts_ok ps \<Longrightarrow> i < length ps \<Longrightarrow> part_len (ps ! i) \<le> length (part_pt (ps ! i))"
  by (simp add: parts_ok_def list_all_length)

lemma bytes_left_part:
  assumes "cursor_ok c" "pc_index c < pc_count c"
  shows "bytes_left c = drop (pc_offset c) (part_bytes (pc_parts c ! pc_index c)) @ bytes_left (c\<lparr>pc_index := pc_index c + 1, pc_offset := 0\<rparr>)"
proof -
  let ?i = "pc_index c" and ?ps = "pc_parts c"
  have i: "?i < length ?ps" using assms by (simp add: cursor_ok_def)
  have "drop ?i ?ps = ?ps ! ?i # drop (Suc ?i) ?ps" using i by (rule Cons_nth_drop_Suc [symmetric])
  moreover obtain k where "pc_count c - ?i = Suc k" "pc_count c - Suc ?i = k" using assms(2) by (metis Suc_diff_Suc)
  moreover have "pc_offset c \<le> length (part_bytes (?ps ! ?i))"
    using assms i parts_ok_nth [of ?ps ?i] by (simp add: cursor_ok_def)
  ultimately show ?thesis by (simp add: bytes_left_def parts_bytes_def)
qed

lemma bytes_left_end: "\<not> pc_index c < pc_count c \<Longrightarrow> bytes_left c = []"
  by (simp add: bytes_left_def parts_bytes_def)

lemma skip_empty_spec:
  "cursor_ok c \<Longrightarrow> cursor_ready (parts_skip_empty c) \<and> bytes_left (parts_skip_empty c) = bytes_left c"
proof (induction c rule: parts_skip_empty.induct)
  case (1 c)
  show ?case
  proof (cases "pc_index c < pc_count c \<and> pc_offset c = part_len (pc_parts c ! pc_index c)")
    case True
    let ?c = "c\<lparr>pc_index := pc_index c + 1, pc_offset := 0\<rparr>"
    have ok: "cursor_ok ?c" using "1.prems" by (simp add: cursor_ok_def)
    have "pc_index c < length (pc_parts c)" using "1.prems" True by (simp add: cursor_ok_def)
    then have "bytes_left c = bytes_left ?c"
      using bytes_left_part [OF "1.prems"] True parts_ok_nth "1.prems" by (simp add: cursor_ok_def)
    then show ?thesis using "1.IH" [OF True ok] True by (subst (1 2) parts_skip_empty.simps) simp
  next
    case False
    then have "parts_skip_empty c = c" by (subst parts_skip_empty.simps) (simp only: if_False)
    then show ?thesis using "1.prems" False by (auto simp: cursor_ready_def cursor_ok_def)
  qed
qed

lemma ready_left: "cursor_ready c \<Longrightarrow> bytes_left c = [] \<longleftrightarrow> \<not> pc_index c < pc_count c"
proof -
  assume r: "cursor_ready c"
  have "bytes_left c \<noteq> []" if i: "pc_index c < pc_count c"
  proof -
    have "pc_index c < length (pc_parts c)" using r i by (simp add: cursor_ready_def cursor_ok_def)
    then have "length (drop (pc_offset c) (part_bytes (pc_parts c ! pc_index c))) > 0"
      using r i parts_ok_nth [of "pc_parts c"] by (simp add: cursor_ready_def cursor_ok_def)
    then show ?thesis using bytes_left_part [of c] r i by (auto simp: cursor_ready_def)
  qed
  then show ?thesis using bytes_left_end by blast
qed

text \<open>Bytes put at the end of a writer.\<close>

definition wput :: "wbuf \<Rightarrow> bytes \<Rightarrow> wbuf" where
  "wput w bs = w\<lparr>wb_p := mem_put (wb_p w) (wb_len w) bs, wb_len := wb_len w + length bs\<rparr>"

lemma wput_append: "wb_len w + length as + length bs \<le> length (wb_p w) \<Longrightarrow> wput (wput w as) bs = wput w (as @ bs)"
  by (simp add: wput_def mem_put_join add.assoc)

lemma wput_Nil [simp]: "wput w [] = w"
  by (simp add: wput_def mem_put_def)

lemma wb_bytes_wput:
  assumes "\<not> wb_err w" "wb_len w + n \<le> wb_cap w" "n \<le> length src"
  shows "wb_bytes w src n = wput w (take n src)"
  using assms by (simp add: wb_bytes_def wb_room_def wput_def)

lemma copy_record_spec:
  assumes "cursor_ready c" "\<not> wb_err w" "wb_len w \<le> limit" "limit \<le> wb_cap w" "wb_cap w \<le> length (wb_p w)"
  shows "\<exists>c'. parts_copy_record c w limit = Some (c', wput w (take (limit - wb_len w) (bytes_left c))) \<and> cursor_ready c' \<and>
    bytes_left c' = drop (limit - wb_len w) (bytes_left c)"
  using assms
proof (induction "limit - wb_len w" arbitrary: c w rule: less_induct)
  case less
  show ?case
  proof (cases "wb_len w < limit \<and> pc_index c < pc_count c")
    case False
    then have "parts_copy_record c w limit = Some (c, w)" by (subst parts_copy_record.simps) auto
    moreover have "limit - wb_len w = 0 \<or> bytes_left c = []" using False less.prems(1,3) ready_left by fastforce
    ultimately show ?thesis using less.prems(1) by auto
  next
    case True
    let ?part = "pc_parts c ! pc_index c"
    let ?src = "drop (pc_offset c) (part_pt ?part)"
    define n where "n = limit - wb_len w"
    define left where "left = part_len ?part - pc_offset c"
    define k where "k = min left n"
    define w1 where "w1 = wput w (take k ?src)"
    define c1 where "c1 = c\<lparr>pc_offset := pc_offset c + k\<rparr>"
    have i: "pc_index c < length (pc_parts c)" "pc_offset c < part_len ?part" "part_len ?part \<le> length (part_pt ?part)"
      using less.prems(1) True parts_ok_nth [of "pc_parts c" "pc_index c"] by (auto simp: cursor_ready_def cursor_ok_def)
    have k: "0 < k" "k \<le> n" "k \<le> left" "k \<le> length ?src" "0 < n" using i True by (auto simp: k_def left_def n_def)
    have ok1: "cursor_ok c1" using less.prems(1) i k True by (auto simp: cursor_ready_def cursor_ok_def c1_def left_def)
    note s = skip_empty_spec [OF ok1]
    have len1: "length (take k ?src) = k" using k by simp
    have w1: "wb_bytes w ?src k = w1" using wb_bytes_wput [of w k ?src] less.prems k by (simp add: w1_def n_def)
    have f1: "wb_len w1 = wb_len w + k" "wb_cap w1 = wb_cap w" "wb_err w1 = wb_err w" "length (wb_p w1) = length (wb_p w)"
      using len1 less.prems k by (simp_all add: w1_def wput_def n_def)
    have n1: "limit - wb_len w1 = n - k" using f1 by (simp add: n_def)
    have sizes: "size_sub (part_len ?part) (pc_offset c) = left" "size_sub limit (wb_len w) = n" "(if left < n then left else n) = k"
      using i True by (simp_all add: left_def n_def k_def min_def)
    have step: "parts_copy_record c w limit = parts_copy_record (parts_skip_empty c1) w1 limit"
      by (subst parts_copy_record.simps) (simp only: Let_def sizes w1 c1_def True if_True simp_thms)
    have fst_part: "drop (pc_offset c) (part_bytes ?part) = take left ?src" by (simp add: part_bytes_def left_def drop_take)
    have after: "bytes_left c1 = drop k (bytes_left c)" "take k (bytes_left c) = take k ?src"
      using bytes_left_part [of c] bytes_left_part [OF ok1] True less.prems(1) k fst_part i(3)
      by (simp_all add: cursor_ready_def c1_def part_bytes_def left_def drop_take min_def drop_drop add.commute)
    have le: "wb_len w1 \<le> limit" using f1(1) k True unfolding n_def by linarith
    have lt: "limit - wb_len w1 < limit - wb_len w" using n1 k by (simp add: n_def)
    obtain c' where c': "parts_copy_record (parts_skip_empty c1) w1 limit = Some (c', wput w1 (take (n - k) (bytes_left c1)))"
      "cursor_ready c'" "bytes_left c' = drop (n - k) (bytes_left c1)"
      using less.hyps [OF lt, of "parts_skip_empty c1"] le s f1 less.prems unfolding n1 by auto
    have "wput w1 (take (n - k) (bytes_left c1)) = wput w (take k (bytes_left c) @ take (n - k) (drop k (bytes_left c)))"
      unfolding w1_def after using len1 less.prems k by (intro wput_append) (simp add: n_def)
    also have "take k (bytes_left c) @ take (n - k) (drop k (bytes_left c)) = take n (bytes_left c)"
      using take_add [of k "n - k" "bytes_left c"] k by simp
    finally show ?thesis using step c' after k by (auto simp: n_def [symmetric])
  qed
qed

section \<open>One record\<close>

lemma send_all_moved: "io_moved 0 c (snd (io_send_all c p))"
  by (rule io_moved_trans [OF io_moved_refl io_send_all_moved]) simp

text \<open>What the send path keeps of a session.\<close>

definition write_kept :: "'io ch_tls_priv \<Rightarrow> 'io ch_tls_priv \<Rightarrow> bool" where
  "write_kept t t' \<longleftrightarrow> io_moved 0 (cfg t) (cfg t') \<and> pin_slot t' = pin_slot t \<and> state t' = state t \<and> keys t' = keys t \<and>
     length (tx t') = length (tx t) \<and> read_closed t' = read_closed t \<and> peer_limit t' = peer_limit t \<and> pt_off t' = pt_off t \<and>
     pt_len t' = pt_len t \<and> alert_received t' = alert_received t \<and> key_update_run t' = key_update_run t \<and>
     (key_update_owed t' \<longrightarrow> key_update_owed t \<and> send_epochs t' = send_epochs t)"

lemma write_kept_refl [simp]: "write_kept t t"
  by (simp add: write_kept_def)

lemma write_kept_trans: "write_kept t t1 \<Longrightarrow> write_kept t1 t2 \<Longrightarrow> write_kept t t2"
  by (auto simp: write_kept_def intro: io_moved_trans)

lemma write_kept_wf: "write_kept t t' \<Longrightarrow> tls_wf t' = tls_wf t"
  using io_moved_fields(1,2) [of 0 "cfg t" "cfg t'"] by (simp add: write_kept_def tls_wf_def)

lemma write_kept_ok:
  assumes "session_ok t" "state t = CH_ST_CONNECTED" "write_kept t t'"
  shows "session_ok t'" "state t' = CH_ST_CONNECTED" "peer_limit t' = peer_limit t"
  using assms trust_moved [of 0 t t'] write_kept_wf [OF assms(3)] by (auto simp: session_ok_def write_kept_def ku_ok_def)

text \<open>Sealing a message of at most \<open>CH_TX_PT\<close> bytes and sending it: refused at the last sequence number, refused by the caller, or sent.\<close>

lemma seal_cases:
  assumes "tls_wf t" "length pt \<le> 512"
  obtains (worn) "rd_seq (wr t) = - 1" "tx_seal t type pt = Some (None, t)"
  | (sealed) "rd_seq (wr t) \<noteq> - 1"
      "tx_seal t type pt = Some (Some (length pt + REC_OVERHEAD),
        t\<lparr>wr := (wr t)\<lparr>rd_seq := rd_seq (wr t) + 1\<rparr>, tx := mem_put (tx t) 0 (record_of (wr t) (pt @ [type]))\<rparr>)"
      "length (mem_put (tx t) 0 (record_of (wr t) (pt @ [type]))) = length (tx t)"
      "take (length pt + REC_OVERHEAD) (mem_put (tx t) 0 (record_of (wr t) (pt @ [type]))) = record_of (wr t) (pt @ [type])"
proof (cases "rd_seq (wr t) = - 1")
  case True
  then show ?thesis using worn by (simp add: tx_seal_eq)
next
  case False
  have len: "length (tx t) = 622" using assms(1) by (simp add: tls_wf_def CH_TX_STAGE_def CH_TX_HELLO_def CH_TX_PT_def)
  then show ?thesis using sealed False assms(2) by (simp add: tx_seal_eq mem_put_def)
qed

lemma send_key_update_total:
  assumes "tls_wf t"
  obtains (failed) c' d x where "hspost_send_key_update t = Some (CH_EIO, t\<lparr>cfg := c', wr := d, tx := x\<rparr>)"
      "io_moved 0 (cfg t) c'" "length x = length (tx t)"
  | (sent) x where "rd_seq (wr t) \<noteq> - 1"
      "fst (io_send_all (cfg t) (record_of (wr t) [HS_KEY_UPDATE, 0, 0, 1, 0, REC_HANDSHAKE])) = CH_OK"
      "hspost_send_key_update t = Some (CH_OK, t\<lparr>cfg := snd (io_send_all (cfg t) (record_of (wr t) [HS_KEY_UPDATE, 0, 0, 1, 0, REC_HANDSHAKE])),
        wr_secret := next_secret (wr_secret t), wr := keyed (wr t) (next_secret (wr_secret t)), tx := x,
        send_epochs := send_epochs t + 1, key_update_owed := False\<rparr>)"
      "length x = length (tx t)"
proof -
  let ?m = "[HS_KEY_UPDATE, 0, 0, 1, 0]"
  let ?x = "mem_put (tx t) 0 (record_of (wr t) (?m @ [REC_HANDSHAKE]))"
  let ?s = "io_send_all (cfg t) (record_of (wr t) (?m @ [REC_HANDSHAKE]))"
  have m: "io_moved 0 (cfg t) (snd ?s)" by (rule send_all_moved)
  have "length ?m \<le> 512" by simp
  with assms show ?thesis
  proof (cases rule: seal_cases [where type = REC_HANDSHAKE])
    case worn
    then show ?thesis using failed [where c' = "cfg t" and d = "wr t" and x = "tx t"] by (simp add: hspost_send_key_update_def)
  next
    case sealed
    let ?t1 = "t\<lparr>wr := (wr t)\<lparr>rd_seq := rd_seq (wr t) + 1\<rparr>, tx := ?x\<rparr>"
    have send: "tx_send ?t1 (length ?m + REC_OVERHEAD) = (fst ?s, ?t1\<lparr>cfg := snd ?s\<rparr>)" using sealed(4) by (simp add: tx_send_eq)
    show ?thesis
    proof (cases "fst ?s = CH_OK")
      case False
      have "hspost_send_key_update t = Some (CH_EIO, ?t1\<lparr>cfg := snd ?s\<rparr>)"
        using sealed(2) send False by (simp add: hspost_send_key_update_def)
      then show ?thesis using m sealed(3) by (intro failed [where c' = "snd ?s" and d = "(wr t)\<lparr>rd_seq := rd_seq (wr t) + 1\<rparr>" and x = ?x]) simp_all
    next
      case True
      have k: "keyed ((wr t)\<lparr>rd_seq := n\<rparr>) s = keyed (wr t) s" for n s by (simp add: keyed_def)
      show ?thesis
        by (rule sent [of ?x]) (use sealed send True in \<open>simp_all add: hspost_send_key_update_def rec_dir_update_eq k\<close>)
    qed
  qed
qed

lemma before_record_total:
  assumes "session_ok t" "state t = CH_ST_CONNECTED"
  obtains (failed) rc t' where "key_update_before_record t = Some (rc, t')" "rc \<noteq> CH_OK" "state t' = CH_ST_FAILED" "session_ok t'" "io_moved 0 (cfg t) (cfg t')"
  | (ready) t' where "key_update_before_record t = Some (CH_OK, t')" "write_kept t t'" "\<not> key_update_owed t'"
proof (cases "key_update_owed t")
  case False
  then show ?thesis using ready [of t] by (simp add: key_update_before_record_def records_before_key_update_def records_per_key_def SIZE_MAX_def)
next
  case True
  have wf: "tls_wf t" "send_epochs t < HSPOST_SEND_EPOCHS_MAX" using assms True by (simp_all add: session_ok_def ku_ok_def)
  from wf(1) show ?thesis
  proof (cases rule: send_key_update_total)
    case (failed c' d x)
    let ?t = "t\<lparr>cfg := c', wr := d, tx := x\<rparr>"
    have wf': "tls_wf ?t" using wf(1) failed io_moved_fields(1,2) [OF failed(2)] by (simp add: tls_wf_def)
    obtain t' where f: "fail_with ?t ALERT_INTERNAL_ERROR CH_EIO = Some (CH_EIO, t')" "state t' = CH_ST_FAILED" "session_ok t'" "io_moved 0 (cfg ?t) (cfg t')"
      by (rule fail_with_total [OF wf'])
    have "key_update_before_record t = Some (CH_EIO, t')"
      using True wf(2) failed(1) f(1) by (simp add: key_update_before_record_def records_before_key_update_def not_le [symmetric])
    then show ?thesis using f io_moved_trans [OF failed(2), of 0 "cfg t'"] by (intro that(1) [of CH_EIO t']) simp_all
  next
    case (sent x)
    let ?t = "t\<lparr>cfg := snd (io_send_all (cfg t) (record_of (wr t) [HS_KEY_UPDATE, 0, 0, 1, 0, REC_HANDSHAKE])),
        wr_secret := next_secret (wr_secret t), wr := keyed (wr t) (next_secret (wr_secret t)), tx := x,
        send_epochs := send_epochs t + 1, key_update_owed := False\<rparr>"
    have "key_update_before_record t = Some (CH_OK, ?t)"
      using True wf(2) sent(3) by (simp add: key_update_before_record_def records_before_key_update_def not_le [symmetric])
    moreover have "write_kept t ?t" using send_all_moved [of "cfg t"] sent(4) by (simp add: write_kept_def)
    ultimately show ?thesis by (intro ready [of ?t]) simp_all
  qed
qed

lemma stage_tx:
  assumes "tls_wf t" "length content \<le> 512"
  shows "write_kept t (t\<lparr>tx := take REC_HDR (tx t) @ mem_put (drop REC_HDR (tx t)) 0 content\<rparr>)"
  using assms by (simp add: write_kept_def tls_wf_def CH_TX_STAGE_def CH_TX_HELLO_def CH_TX_PT_def)

text \<open>Sending one record: the session fails, or it stays connected and the record sealed under its write key is what was sent.\<close>

lemma record_turn_total:
  assumes "session_ok t" "state t = CH_ST_CONNECTED" "length content \<le> 512"
  obtains (failed) rc t' where "record_turn t content = Some (Inl (rc, t'))" "rc \<noteq> CH_OK" "state t' = CH_ST_FAILED" "session_ok t'"
  | (sent) t1 t' where "key_update_before_record t = Some (CH_OK, t1)" "write_kept t t1" "rd_seq (wr t1) \<noteq> - 1"
      "fst (io_send_all (cfg t1) (record_of (wr t1) (content @ [REC_APPDATA]))) = CH_OK"
      "record_turn t content = Some (Inr t')" "write_kept t1 t'" "wr t' = (wr t1)\<lparr>rd_seq := rd_seq (wr t1) + 1\<rparr>"
      "cfg t' = snd (io_send_all (cfg t1) (record_of (wr t1) (content @ [REC_APPDATA])))" "\<not> key_update_owed t'"
proof (use assms(1,2) in \<open>cases rule: before_record_total\<close>)
  case (failed rc t')
  then show ?thesis by (intro that(1) [of rc t']) (simp_all add: record_turn_def)
next
  case (ready t1)
  note ok1 = write_kept_ok [OF assms(1,2) ready(2)]
  have wf1: "tls_wf t1" using ok1(1) by (simp add: session_ok_def)
  define t2 where "t2 = t1\<lparr>tx := take REC_HDR (tx t1) @ mem_put (drop REC_HDR (tx t1)) 0 content\<rparr>"
  have k2: "write_kept t1 t2" unfolding t2_def by (rule stage_tx [OF wf1 assms(3)])
  have wf2: "tls_wf t2" using write_kept_wf [OF k2] wf1 by simp
  have turn: "record_turn t content =
      do {
         (n, t) \<leftarrow> tx_seal t2 REC_APPDATA content;
         case n of
           None \<Rightarrow> map_option Inl (fail_with t ALERT_INTERNAL_ERROR CH_ECAP)
         | Some n \<Rightarrow>
             let (rc, t) = tx_send t n
             in if rc \<noteq> CH_OK then map_option Inl (fail_with t ALERT_INTERNAL_ERROR rc) else Some (Inr t)
       }"
    using ready(1) by (simp add: record_turn_def t2_def)
  from wf2 assms(3) show ?thesis
  proof (cases rule: seal_cases [where type = REC_APPDATA])
    case worn
    obtain t' where f: "fail_with t2 ALERT_INTERNAL_ERROR CH_ECAP = Some (CH_ECAP, t')" "state t' = CH_ST_FAILED" "session_ok t'"
      by (rule fail_with_total [OF wf2])
    show ?thesis by (rule that(1) [of CH_ECAP t']) (use turn worn f in simp_all)
  next
    case sealed
    define r where "r = record_of (wr t1) (content @ [REC_APPDATA])"
    have w12: "wr t2 = wr t1" "cfg t2 = cfg t1" by (simp_all add: t2_def)
    define t3 where "t3 = t2\<lparr>wr := (wr t1)\<lparr>rd_seq := rd_seq (wr t1) + 1\<rparr>, tx := mem_put (tx t2) 0 r, cfg := snd (io_send_all (cfg t1) r)\<rparr>"
    have seal: "tx_seal t2 REC_APPDATA content = Some (Some (length content + REC_OVERHEAD),
        t2\<lparr>wr := (wr t1)\<lparr>rd_seq := rd_seq (wr t1) + 1\<rparr>, tx := mem_put (tx t2) 0 r\<rparr>)"
      using sealed(2) by (simp add: w12 r_def)
    have send: "tx_send (t2\<lparr>wr := (wr t1)\<lparr>rd_seq := rd_seq (wr t1) + 1\<rparr>, tx := mem_put (tx t2) 0 r\<rparr>) (length content + REC_OVERHEAD) =
        (fst (io_send_all (cfg t1) r), t3)"
      using sealed(4) by (simp add: tx_send_eq t3_def w12 r_def)
    have "io_moved 0 (cfg t2) (cfg t3)" using send_all_moved [of "cfg t1" r] by (simp add: t3_def w12)
    then have k3: "write_kept t2 t3" using sealed(3) by (simp add: write_kept_def t3_def w12 r_def)
    have wf3: "tls_wf t3" using write_kept_wf [OF k3] wf2 by simp
    show ?thesis
    proof (cases "fst (io_send_all (cfg t1) r) = CH_OK")
      case False
      obtain t' where f: "fail_with t3 ALERT_INTERNAL_ERROR (fst (io_send_all (cfg t1) r)) = Some (fst (io_send_all (cfg t1) r), t')"
        "state t' = CH_ST_FAILED" "session_ok t'"
        by (rule fail_with_total [OF wf3])
      show ?thesis by (rule that(1) [of "fst (io_send_all (cfg t1) r)" t']) (use turn seal send f False in simp_all)
    next
      case True
      have "record_turn t content = Some (Inr t3)" using turn seal send True by simp
      then show ?thesis
        using ready sealed(1) True write_kept_trans [OF k2 k3] w12
        by (intro that(2) [of t1 t3]) (simp_all add: r_def t3_def t2_def)
    qed
  qed
qed

lemma write_turn_eq:
  assumes "session_ok t" "state t = CH_ST_CONNECTED" "cursor_ready c" "limit \<le> 512"
  shows "\<exists>c'. cursor_ready c' \<and> bytes_left c' = drop limit (bytes_left c) \<and>
    write_turn t c limit = map_option (\<lambda>r. case r of Inl out \<Rightarrow> Inl out | Inr t' \<Rightarrow> Inr (t', c')) (record_turn t (take limit (bytes_left c)))"
proof (use assms(1,2) in \<open>cases rule: before_record_total\<close>)
  case (failed rc t')
  obtain c' where "cursor_ready c'" "bytes_left c' = drop limit (bytes_left c)"
    using copy_record_spec [OF assms(3), of "wb_init (replicate limit 0) limit" limit] by (auto simp: wb_init_def)
  then show ?thesis using failed(1,2) by (intro exI [of _ c']) (simp add: write_turn_def record_turn_def)
next
  case (ready t1)
  have len: "length (tx t1) = 622" using write_kept_ok(1) [OF assms(1,2) ready(2)]
    by (simp add: session_ok_def tls_wf_def CH_TX_STAGE_def CH_TX_HELLO_def CH_TX_PT_def)
  let ?w = "wb_init (drop REC_HDR (tx t1)) (length (tx t1) - REC_HDR)"
  define b where "b = take limit (bytes_left c)"
  have w: "\<not> wb_err ?w" "wb_len ?w = 0" "limit \<le> wb_cap ?w" "wb_cap ?w \<le> length (wb_p ?w)" "wb_p ?w = drop REC_HDR (tx t1)"
    using len assms(4) by (simp_all add: wb_init_def)
  obtain c' where c': "parts_copy_record c ?w limit = Some (c', wput ?w b)" "cursor_ready c'" "bytes_left c' = drop limit (bytes_left c)"
    using copy_record_spec [OF assms(3) w(1) _ w(3,4)] w(2) by (auto simp: b_def)
  have p: "wb_p (wput ?w b) = mem_put (drop REC_HDR (tx t1)) 0 b" "wb_len (wput ?w b) = length b" "\<not> wb_err (wput ?w b)"
    using w by (simp_all add: wput_def)
  have content: "take (length b) (mem_put (drop REC_HDR (tx t1)) 0 b) = b" by (simp add: mem_put_def)
  define t2 where "t2 = t1\<lparr>tx := take REC_HDR (tx t1) @ mem_put (drop REC_HDR (tx t1)) 0 b\<rparr>"
  obtain n t3 where seal: "tx_seal t2 REC_APPDATA b = Some (n, t3)" by (metis tx_seal_eq surj_pair)
  have wturn: "write_turn t c limit = (case n of None \<Rightarrow> map_option Inl (fail_with t3 ALERT_INTERNAL_ERROR CH_ECAP)
       | Some n \<Rightarrow> let (rc, t) = tx_send t3 n
           in if rc \<noteq> CH_OK then map_option Inl (fail_with t ALERT_INTERNAL_ERROR rc) else Some (Inr (t, c')))"
    using ready(1) c'(1) seal unfolding t2_def by (simp add: write_turn_def p content del: One_nat_def)
  have turn: "record_turn t b = (case n of None \<Rightarrow> map_option Inl (fail_with t3 ALERT_INTERNAL_ERROR CH_ECAP)
       | Some n \<Rightarrow> let (rc, t) = tx_send t3 n
           in if rc \<noteq> CH_OK then map_option Inl (fail_with t ALERT_INTERNAL_ERROR rc) else Some (Inr t))"
    using ready(1) seal unfolding t2_def by (simp add: record_turn_def)
  have "write_turn t c limit = map_option (\<lambda>r. case r of Inl out \<Rightarrow> Inl out | Inr t' \<Rightarrow> Inr (t', c')) (record_turn t b)"
    unfolding wturn turn by (auto simp: option.map_comp comp_def split: option.split prod.split)
  then show ?thesis using c'(2,3) b_def by blast
qed

section \<open>Writing\<close>

lemma record_max: "session_ok t \<Longrightarrow> state t = CH_ST_CONNECTED \<Longrightarrow> 0 < record_plaintext_max t \<and> record_plaintext_max t \<le> 512"
  by (auto simp: session_ok_def record_plaintext_max_def CH_TX_PT_def word_gt_0 unat_gt_0)

lemma write_loop_eq:
  assumes "session_ok t" "state t = CH_ST_CONNECTED" "cursor_ready c" "0 < limit" "limit \<le> 512"
  shows "write_loop t c limit = write_bytes t (bytes_left c) limit"
  using assms
proof (induction "length (bytes_left c)" arbitrary: t c rule: less_induct)
  case less
  show ?case
  proof (cases "pc_index c < pc_count c")
    case False
    then show ?thesis using ready_left [OF less.prems(3)] by (subst write_loop.simps, subst write_bytes.simps) simp
  next
    case True
    then have ne: "bytes_left c \<noteq> []" using ready_left [OF less.prems(3)] by simp
    obtain c' where c': "cursor_ready c'" "bytes_left c' = drop limit (bytes_left c)"
      "write_turn t c limit = map_option (\<lambda>r. case r of Inl out \<Rightarrow> Inl out | Inr t' \<Rightarrow> Inr (t', c')) (record_turn t (take limit (bytes_left c)))"
      using write_turn_eq [OF less.prems(1-3,5)] by blast
    have "length (take limit (bytes_left c)) \<le> 512" using less.prems(5) by simp
    with less.prems(1,2) show ?thesis
    proof (cases rule: record_turn_total)
      case (failed rc t')
      then show ?thesis using True ne less.prems(4) c'(3) by (subst write_loop.simps, subst write_bytes.simps) simp
    next
      case (sent t1 t')
      note k = write_kept_ok [OF less.prems(1,2) write_kept_trans [OF sent(2,6)]]
      have "length (bytes_left c') < length (bytes_left c)" using c'(2) ne less.prems(4) by simp
      then have "write_loop t' c' limit = write_bytes t' (bytes_left c') limit" using less.hyps k c'(1) less.prems(4,5) by blast
      then show ?thesis using True ne less.prems(4) c' sent(5) by (subst write_loop.simps, subst write_bytes.simps) simp
    qed
  qed
qed

lemma write_bytes_total:
  assumes "session_ok t" "state t = CH_ST_CONNECTED" "0 < limit" "limit \<le> 512"
  shows "\<exists>rc t'. write_bytes t bs limit = Some (rc, t') \<and> session_ok t' \<and>
    state t' = (if rc = CH_OK then CH_ST_CONNECTED else CH_ST_FAILED)"
  using assms
proof (induction "length bs" arbitrary: t bs rule: less_induct)
  case less
  show ?case
  proof (cases "bs = []")
    case True
    then show ?thesis using less.prems by (subst write_bytes.simps) simp
  next
    case False
    have "length (take limit bs) \<le> 512" using less.prems(4) by simp
    with less.prems(1,2) show ?thesis
    proof (cases rule: record_turn_total)
      case (failed rc t')
      then show ?thesis using False less.prems(3) by (subst write_bytes.simps) simp
    next
      case (sent t1 t')
      note k = write_kept_ok [OF less.prems(1,2) write_kept_trans [OF sent(2,6)]]
      have "length (drop limit bs) < length bs" using False less.prems(3) by simp
      from less.hyps [OF this k(1,2) less.prems(3,4)] show ?thesis
        using False less.prems(3) sent(5) by (subst write_bytes.simps) simp
    qed
  qed
qed

lemma write_parts_eq:
  assumes "session_ok t" "state t = CH_ST_CONNECTED" "parts_ok ps"
  shows "tls_write_parts t ps (length ps) = write_bytes t (parts_bytes ps) (record_plaintext_max t)"
proof -
  let ?c = "\<lparr>pc_parts = ps, pc_count = length ps, pc_index = 0, pc_offset = 0\<rparr>"
  have "cursor_ok ?c" using assms(3) by (simp add: cursor_ok_def)
  note s = skip_empty_spec [OF this]
  have "tls_write_parts t ps (length ps) = write_loop t (parts_skip_empty ?c) (record_plaintext_max t)"
    using assms(2) by (simp add: tls_write_parts_def state_defs)
  also have "\<dots> = write_bytes t (bytes_left ?c) (record_plaintext_max t)"
    using write_loop_eq [OF assms(1,2), of "parts_skip_empty ?c"] s record_max [OF assms(1,2)] by simp
  finally show ?thesis by (simp add: bytes_left_def)
qed

lemma write_eq:
  assumes "session_ok t" "state t = CH_ST_CONNECTED" "n \<le> length p"
  shows "tls_write t p n = write_bytes t (take n p) (record_plaintext_max t)"
  using write_parts_eq [OF assms(1,2), of "[\<lparr>part_pt = p, part_len = n\<rparr>]"] assms(3)
  by (simp add: tls_write_def parts_ok_def parts_bytes_def part_bytes_def)

section \<open>What a caller's socket receives\<close>

text \<open>A \<open>send\<close> that takes every byte it is given, and keeps them.\<close>

definition takes_all :: "bytes ch_cfg \<Rightarrow> bool" where
  "takes_all c \<longleftrightarrow> cfg_send c = (\<lambda>io p. (int (length p), io @ p))"

fun chunks :: "nat \<Rightarrow> bytes \<Rightarrow> bytes list" where
  "chunks n bs = (if bs = [] \<or> n = 0 then [] else take n bs # chunks n (drop n bs))"

declare chunks.simps [simp del]

lemma concat_chunks: "0 < n \<Longrightarrow> concat (chunks n bs) = bs"
  by (induction n bs rule: chunks.induct) (subst chunks.simps, auto)

lemma chunks_bounds: "list_all (\<lambda>c. c \<noteq> [] \<and> length c \<le> n) (chunks n bs)"
proof (induction n bs rule: chunks.induct)
  case (1 n bs)
  then show ?case by (subst chunks.simps) auto
qed

lemma length_chunks_le: "length (chunks n bs) \<le> length bs"
proof (induction n bs rule: chunks.induct)
  case (1 n bs)
  show ?case
  proof (cases "bs = [] \<or> n = 0")
    case False
    then have "length (drop n bs) < length bs" by simp
    moreover have "length (chunks n bs) = Suc (length (chunks n (drop n bs)))" using False by (subst chunks.simps) simp
    ultimately show ?thesis using "1.IH" [OF False] by linarith
  qed (subst chunks.simps, simp)
qed

definition record_count :: "nat \<Rightarrow> nat \<Rightarrow> nat" where
  "record_count limit n = (n + limit - 1) div limit"

lemma record_count_step: "0 < limit \<Longrightarrow> 0 < n \<Longrightarrow> record_count limit n = Suc (record_count limit (n - limit))"
proof -
  assume l: "0 < limit" and n: "0 < n"
  show ?thesis
  proof (cases "n \<le> limit")
    case True
    then have e: "n + limit - 1 = limit + (n - 1)" and lt: "n - 1 < limit" using n l by linarith+
    have "(limit + (n - 1)) div limit = Suc ((n - 1) div limit)" using div_add_self1 [of limit "n - 1"] l by simp
    moreover have "(limit - 1) div limit = 0" "(n - 1) div limit = 0" using l lt by simp_all
    ultimately show ?thesis using True unfolding record_count_def e by simp
  next
    case False
    then have e: "n + limit - 1 = limit + (n - limit + limit - 1)" using l by simp
    show ?thesis unfolding record_count_def e using div_add_self1 [of limit "n - limit + limit - 1"] l by (simp del: div_add_self1)
  qed
qed

lemma length_chunks: "0 < n \<Longrightarrow> length (chunks n bs) = record_count n (length bs)"
proof (induction n bs rule: chunks.induct)
  case (1 n bs)
  show ?case
  proof (cases "bs = []")
    case True
    then show ?thesis using "1.prems" by (subst chunks.simps) (simp add: record_count_def)
  next
    case False
    then show ?thesis using "1.IH" "1.prems" record_count_step [of n "length bs"] by (subst chunks.simps) simp
  qed
qed

lemma send_all_log:
  assumes "takes_all c" shows "io_send_all c p = (CH_OK, c\<lparr>cfg_io := cfg_io c @ p\<rparr>)"
proof (cases "p = []")
  case True
  then show ?thesis by (subst io_send_all.simps) simp
next
  case False
  have "io_send_all c' [] = (CH_OK, c')" for c' :: "bytes ch_cfg" by (subst io_send_all.simps) simp
  then show ?thesis using False assms by (subst io_send_all.simps) (simp add: takes_all_def)
qed

lemma takes_all_io [simp]: "takes_all (c\<lparr>cfg_io := io\<rparr>) = takes_all c"
  by (simp add: takes_all_def)

lemma before_not_owed: "\<not> key_update_owed t \<Longrightarrow> key_update_before_record t = Some (CH_OK, t)"
  by (simp add: key_update_before_record_def records_before_key_update_def records_per_key_def SIZE_MAX_def)

lemma record_turn_sent:
  assumes "tls_wf t" "takes_all (cfg t)" "\<not> key_update_owed t" "rd_seq (wr t) \<noteq> - 1" "length content \<le> 512"
  shows "\<exists>t'. record_turn t content = Some (Inr t')"
proof -
  have len: "length (tx t) = 622" using assms(1) by (simp add: tls_wf_def CH_TX_STAGE_def CH_TX_HELLO_def CH_TX_PT_def)
  have "mem_put (drop 5 (tx t)) 0 content = content @ drop (5 + length content) (tx t)" by (simp add: mem_put_def add.commute)
  then show ?thesis
    using assms len by (simp add: record_turn_def before_not_owed tx_seal_eq tx_send_eq send_all_log)
qed

abbreviation data_calls :: "bytes list \<Rightarrow> (u8 \<times> bytes \<times> nat) list" where
  "data_calls cs \<equiv> map (\<lambda>c. (REC_APPDATA, c, 622)) cs"

lemma write_log:
  assumes "session_ok t" "state t = CH_ST_CONNECTED" "0 < limit" "limit \<le> 512" "takes_all (cfg t)" "\<not> key_update_owed t"
    and "unat (rd_seq (wr t)) + length (chunks limit bs) < 18446744073709551616"
  shows "\<exists>t' l. write_bytes t bs limit = Some (CH_OK, t') \<and> seal_run (wr t) (data_calls (chunks limit bs)) = Some (l, wr t') \<and>
    map sealed_content l = map (\<lambda>c. (c, REC_APPDATA)) (chunks limit bs) \<and>
    cfg_io (cfg t') = cfg_io (cfg t) @ concat (map sealed_record l) \<and> length (concat (map sealed_record l)) = length bs + 22 * length l"
  using assms
proof (induction "length bs" arbitrary: t bs rule: less_induct)
  case less
  show ?case
  proof (cases "bs = []")
    case True
    have "chunks limit [] = []" by (subst chunks.simps) simp
    then show ?thesis using True by (simp add: write_bytes.simps [of t "[]"])
  next
    case False
    let ?c = "take limit bs" and ?d = "wr t"
    have cs: "chunks limit bs = ?c # chunks limit (drop limit bs)" using False less.prems(3) by (subst chunks.simps) simp
    have seq: "rd_seq ?d \<noteq> - 1"
    proof
      assume "rd_seq ?d = - 1"
      then have "unat (rd_seq ?d) = 18446744073709551615" by (simp add: unsigned_minus_1_eq_mask mask_eq_exp_minus_1)
      then show False using less.prems(7) cs by simp
    qed
    have "length ?c \<le> 512" using less.prems(4) by simp
    with less.prems(1,2) show ?thesis
    proof (cases rule: record_turn_total)
      case (failed rc t')
      have "\<exists>t'. record_turn t ?c = Some (Inr t')"
        by (rule record_turn_sent) (use less.prems seq in \<open>simp_all add: session_ok_def\<close>)
      then show ?thesis using failed(1) by auto
    next
      case (sent t1 t')
      have [simp]: "t1 = t" using sent(1) before_not_owed [OF less.prems(6)] by simp
      let ?r = "record_of ?d (?c @ [REC_APPDATA])"
      note k = write_kept_ok [OF less.prems(1,2) write_kept_trans [OF sent(2,6)]]
      have cfg': "cfg t' = (cfg t)\<lparr>cfg_io := cfg_io (cfg t) @ ?r\<rparr>" using sent(8) send_all_log [OF less.prems(5)] by simp
      have lt: "length (drop limit bs) < length bs" using False less.prems(3) by simp
      have "unat (rd_seq (wr t')) = Suc (unat (rd_seq ?d))" using sent(7) unat_seq_up [OF seq] by simp
      then have "unat (rd_seq (wr t')) + length (chunks limit (drop limit bs)) < 18446744073709551616" using less.prems(7) cs by simp
      then obtain t2 l where r: "write_bytes t' (drop limit bs) limit = Some (CH_OK, t2)"
        "seal_run (wr t') (data_calls (chunks limit (drop limit bs))) = Some (l, wr t2)"
        "map sealed_content l = map (\<lambda>c. (c, REC_APPDATA)) (chunks limit (drop limit bs))"
        "cfg_io (cfg t2) = cfg_io (cfg t') @ concat (map sealed_record l)" "length (concat (map sealed_record l)) = length (drop limit bs) + 22 * length l"
        using less.hyps [OF lt k(1,2) less.prems(3,4) _ sent(9)] less.prems(5) cfg' by auto
      have seal: "rec_seal ?d REC_APPDATA ?c 622 = Some (Some ?r, wr t')" using seq less.prems(4) sent(7) by (simp add: rec_seal_eq min_le_iff_disj)
      show ?thesis
        using False less.prems(3) sent(5) r seal cs cfg'
        by (intro exI [of _ t2] exI [of _ "(nonce_of ?d, ?r, ?c, REC_APPDATA) # l"]) (subst write_bytes.simps, simp)
    qed
  qed
qed

lemma before_owed:
  assumes "session_ok t" "state t = CH_ST_CONNECTED" "takes_all (cfg t)" "key_update_owed t" "rd_seq (wr t) \<noteq> - 1"
  obtains t1 where "key_update_before_record t = Some (CH_OK, t1)" "write_kept t t1" "\<not> key_update_owed t1"
    "wr t1 = keyed (wr t) (next_secret (wr_secret t))" "takes_all (cfg t1)"
    "cfg_io (cfg t1) = cfg_io (cfg t) @ record_of (wr t) [HS_KEY_UPDATE, 0, 0, 1, 0, REC_HANDSHAKE]"
proof -
  have wf: "tls_wf t" "\<not> HSPOST_SEND_EPOCHS_MAX \<le> send_epochs t" using assms(1,2,4) by (simp_all add: session_ok_def ku_ok_def not_le)
  from wf(1) show ?thesis
  proof (cases rule: send_key_update_total)
    case (failed c' d x)
    have len: "length (tx t) = 622" using wf(1) by (simp add: tls_wf_def CH_TX_STAGE_def CH_TX_HELLO_def CH_TX_PT_def)
    have "\<exists>t'. hspost_send_key_update t = Some (CH_OK, t')"
      using assms(3,5) len by (simp add: hspost_send_key_update_def tx_seal_eq tx_send_eq send_all_log rec_dir_update_eq)
    then show ?thesis using failed(1) by auto
  next
    case (sent x)
    let ?t = "t\<lparr>cfg := snd (io_send_all (cfg t) (record_of (wr t) [HS_KEY_UPDATE, 0, 0, 1, 0, REC_HANDSHAKE])),
        wr_secret := next_secret (wr_secret t), wr := keyed (wr t) (next_secret (wr_secret t)), tx := x,
        send_epochs := send_epochs t + 1, key_update_owed := False\<rparr>"
    have "key_update_before_record t = Some (CH_OK, ?t)"
      using assms(4) wf(2) sent(3) by (simp add: key_update_before_record_def records_before_key_update_def)
    moreover have "write_kept t ?t" using send_all_moved [of "cfg t"] sent(4) by (simp add: write_kept_def)
    ultimately show ?thesis using send_all_log [OF assms(3)] assms(3) by (intro that [of ?t]) simp_all
  qed
qed

lemma write_after_key_update:
  assumes "key_update_before_record t = Some (CH_OK, t1)" "\<not> key_update_owed t1" "bs \<noteq> []"
  shows "write_bytes t bs limit = write_bytes t1 bs limit \<or> limit = 0"
  using assms by (subst (1 2) write_bytes.simps) (simp add: record_turn_def before_not_owed)

section \<open>The writable length\<close>

text \<open>What \<open>n\<close> bytes take on the wire in records of \<open>limit\<close> bytes.\<close>

definition wire_len :: "nat \<Rightarrow> nat \<Rightarrow> nat" where
  "wire_len limit n = n + 22 * record_count limit n"

lemma record_count_mono: "m \<le> n \<Longrightarrow> record_count limit m \<le> record_count limit n"
  by (simp add: record_count_def div_le_mono diff_le_mono)

lemma wire_len_mono: "m < n \<Longrightarrow> wire_len limit m < wire_len limit n"
  using record_count_mono [of m n limit] by (simp add: wire_len_def)

lemma record_count_whole:
  assumes "0 < limit" "j \<le> limit"
  shows "record_count limit (q * limit + j) = q + (if j = 0 then 0 else 1)"
proof (induction q)
  case 0
  have "record_count limit 0 = 0" using assms(1) by (simp add: record_count_def)
  then show ?case using record_count_step [OF assms(1), of j] assms(2) by simp
next
  case (Suc q)
  then show ?case using record_count_step [OF assms(1), of "Suc q * limit + j"] assms(1) by simp
qed

lemma records_fill_exact:
  assumes "0 < limit" "limit \<le> 16384" "cap \<le> SIZE_MAX"
  shows "\<exists>n. records_fill cap limit = (n, record_count limit n) \<and> wire_len limit n \<le> cap \<and> cap < wire_len limit (Suc n)"
proof -
  define q where "q = cap div (limit + 22)"
  define r where "r = cap mod (limit + 22)"
  have cap: "cap = q * limit + q * 22 + r" and r: "r < limit + 22"
    using div_mult_mod_eq [of cap "limit + 22"] by (simp_all add: q_def r_def distrib_left)
  have "q \<le> q * limit" using assms(1) by simp
  moreover have max: "q * limit + q * 22 \<le> 18446744073709551615" using cap assms(3) by (simp add: SIZE_MAX_def)
  ultimately have q: "23 * q \<le> 18446744073709551615" by linarith
  have small: "q * limit < 18446744073709551616" using max by linarith
  have small': "(q + 1) * 22 < 18446744073709551616" "q + 1 < 18446744073709551616" using q by simp_all
  have parts: "size_add limit 22 = limit + 22" "size_mul q limit = q * limit" "size_add q 1 = q + 1" "size_mul (q + 1) 22 = (q + 1) * 22"
    using small small' assms(2) by (simp_all add: size_add_def size_mul_def SIZE_MAX_def)
  have fill: "records_fill cap limit = (if r > 22 then (q * limit + (r - 22), q + 1) else (q * limit, q))"
    unfolding records_fill_def Let_def parts(1) q_def [symmetric] parts(2) parts(3) parts(4) using cap by auto
  show ?thesis
  proof (cases "r > 22")
    case True
    let ?j = "r - 22"
    have j: "0 < ?j" "?j < limit" using True r by simp_all
    have c: "record_count limit (q * limit + ?j) = q + 1" "record_count limit (Suc (q * limit + ?j)) = q + 1"
      using record_count_whole [OF assms(1), of ?j q] record_count_whole [OF assms(1), of "Suc ?j" q] j by simp_all
    show ?thesis
      by (rule exI [of _ "q * limit + ?j"]) (use True fill c cap in \<open>simp add: wire_len_def\<close>)
  next
    case False
    have c: "record_count limit (q * limit) = q" "record_count limit (Suc (q * limit)) = q + 1"
      using record_count_whole [OF assms(1), of 0 q] record_count_whole [OF assms(1), of 1 q] assms(1) by simp_all
    show ?thesis
      by (rule exI [of _ "q * limit"]) (use False fill c cap in \<open>simp add: wire_len_def\<close>)
  qed
qed

definition session_wire :: "'io ch_tls_priv \<Rightarrow> nat \<Rightarrow> nat" where
  "session_wire t n = (if n = 0 then 0 else wire_len (record_plaintext_max t) n + (if key_update_owed t then 27 else 0))"

lemma record_count_le: "wire_len limit n \<le> cap \<Longrightarrow> record_count limit n \<le> cap"
  by (simp add: wire_len_def)

lemma record_count_zero: "0 < limit \<Longrightarrow> record_count limit n = 0 \<longleftrightarrow> n = 0"
  using record_count_step [of limit n] by (cases "n = 0") (simp_all add: record_count_def)

lemma writable_owed:
  assumes "key_update_owed t" "0 < record_plaintext_max t" "record_plaintext_max t \<le> 16384" "cap \<le> SIZE_MAX"
  shows "\<exists>n. tls_writable_len t cap = n \<and> session_wire t n \<le> cap \<and> cap < session_wire t (Suc n)"
proof -
  let ?l = "record_plaintext_max t"
  let ?rest = "if cap > 27 then cap - 27 else 0"
  obtain n where n: "records_fill cap ?l = (n, record_count ?l n)" "wire_len ?l n \<le> cap" "cap < wire_len ?l (Suc n)"
    using records_fill_exact [OF assms(2-4)] by blast
  obtain m where m: "records_fill ?rest ?l = (m, record_count ?l m)" "wire_len ?l m \<le> ?rest" "?rest < wire_len ?l (Suc m)"
  proof -
    have "?rest \<le> SIZE_MAX" using assms(4) by (rule order_trans [rotated]) simp
    from records_fill_exact [OF assms(2,3) this] show ?thesis using that by blast
  qed
  have room: "records_before_key_update t = 0" using assms(1) by (simp add: records_before_key_update_def)
  show ?thesis
  proof (cases "record_count ?l n > 0")
    case False
    then have "n = 0" using record_count_zero [OF assms(2)] by simp
    then have "tls_writable_len t cap = 0" using n(1) assms(2) False by (simp add: tls_writable_len_def room)
    then show ?thesis using n(3) \<open>n = 0\<close> assms(1) by (simp add: session_wire_def)
  next
    case True
    have le: "record_count ?l m \<le> SIZE_MAX" "m \<le> cap" "m < SIZE_MAX + 1"
      using record_count_le [OF m(2)] m(2) assms(4) by (auto simp: wire_len_def split: if_splits)
    have "tls_writable_len t cap = m"
      using n(1) True assms(2) m(1) le by (cases "27 < cap") (simp_all add: tls_writable_len_def room fill_across_key_update_def Let_def records_per_key_def
          size_mul_def size_add_def CH_KEY_UPDATE_RECORD_LEN_def)
    moreover have "session_wire t m \<le> cap" using m(2) assms(1) by (auto simp: session_wire_def wire_len_def split: if_splits)
    moreover have "cap < session_wire t (Suc m)" using m(3) assms(1) by (auto simp: session_wire_def split: if_splits)
    ultimately show ?thesis by blast
  qed
qed

lemma writable_exact:
  assumes "0 < record_plaintext_max t" "record_plaintext_max t \<le> 16384" "cap \<le> SIZE_MAX"
  shows "\<exists>n. tls_writable_len t cap = n \<and> session_wire t n \<le> cap \<and> cap < session_wire t (Suc n)"
proof (cases "key_update_owed t")
  case True
  then show ?thesis using writable_owed assms by blast
next
  case False
  let ?l = "record_plaintext_max t"
  obtain n where n: "records_fill cap ?l = (n, record_count ?l n)" "wire_len ?l n \<le> cap" "cap < wire_len ?l (Suc n)"
    using records_fill_exact [OF assms] by blast
  have room: "records_before_key_update t = SIZE_MAX" using False by (simp add: records_before_key_update_def records_per_key_def)
  have "record_count ?l n \<le> SIZE_MAX" using record_count_le [OF n(2)] assms(3) by simp
  then have "tls_writable_len t cap = n" using n(1) assms(1) by (simp add: tls_writable_len_def room)
  then show ?thesis using n(2,3) False by (auto simp: session_wire_def)
qed

lemma session_wire_mono: "m < n \<Longrightarrow> session_wire t m < session_wire t n"
  using wire_len_mono [of m n] by (auto simp: session_wire_def wire_len_def)

section \<open>Properties\<close>

text \<open>
  C16: \<open>ch_writable_len\<close> is exact: of all lengths, it returns the largest whose records fit in \<open>cap\<close> bytes, counting the overhead of
  every record \<open>ch_write\<close> cuts and the KeyUpdate it sends first where one is owed.  No sum or product in it wraps a 64-bit
  \<open>size_t\<close>.
\<close>

theorem tls_writable_len_exact:
  assumes "0 < peer_limit t" "cap \<le> SIZE_MAX"
  shows "session_wire t (tls_writable_len t cap) \<le> cap \<and> (\<forall>n. session_wire t n \<le> cap \<longrightarrow> n \<le> tls_writable_len t cap)"
proof -
  have "0 < record_plaintext_max t" "record_plaintext_max t \<le> 16384"
    using assms(1) by (auto simp: record_plaintext_max_def CH_TX_PT_def word_gt_0 unat_gt_0)
  then obtain n where n: "tls_writable_len t cap = n" "session_wire t n \<le> cap" "cap < session_wire t (Suc n)"
    using writable_exact [OF _ _ assms(2)] by blast
  have "m \<le> n" if "session_wire t m \<le> cap" for m
  proof (rule ccontr)
    assume "\<not> m \<le> n"
    then have "Suc n = m \<or> Suc n < m" by auto
    then have "session_wire t (Suc n) \<le> session_wire t m" using session_wire_mono [of "Suc n" m t] by auto
    then show False using n(3) that by simp
  qed
  then show ?thesis using n by auto
qed

theorem tls_writable_len_exact_witness:
  "session_wire pinned_tls (tls_writable_len pinned_tls 1000) \<le> 1000 \<and> tls_writable_len pinned_tls 1000 = 956"
proof -
  have "0 < peer_limit pinned_tls" by (simp add: pinned_tls_def stream_tls_def)
  moreover have "tls_writable_len pinned_tls 1000 = 956" by code_simp
  ultimately show ?thesis using tls_writable_len_exact [of pinned_tls 1000] by (simp add: SIZE_MAX_def)
qed

text \<open>
  C15: Writing parts is writing their bytes in one buffer: \<open>ch_write_parts\<close> sends the same records as \<open>ch_write\<close> of the
  concatenation, with the same result and the same session after it, wherever the parts end and however many are empty.
\<close>

theorem tls_write_parts_concat:
  assumes "session_ok t" "parts_ok ps"
  shows "tls_write_parts t ps (length ps) = tls_write t (parts_bytes ps) (length (parts_bytes ps))"
proof (cases "state t = CH_ST_CONNECTED")
  case True
  then show ?thesis using write_parts_eq [OF assms(1) True assms(2)] write_eq [OF assms(1) True, of "length (parts_bytes ps)" "parts_bytes ps"] by simp
next
  case False
  then show ?thesis using assms(1) by (auto simp: tls_write_def tls_write_parts_def)
qed

theorem tls_write_parts_concat_witness:
  "tls_write_parts pinned_tls [\<lparr>part_pt = [1, 2], part_len = 2\<rparr>, \<lparr>part_pt = [], part_len = 0\<rparr>, \<lparr>part_pt = [3], part_len = 1\<rparr>] 3 =
   tls_write pinned_tls [1, 2, 3] 3"
proof -
  let ?ps = "[\<lparr>part_pt = [1, 2], part_len = 2\<rparr>, \<lparr>part_pt = [], part_len = 0\<rparr>, \<lparr>part_pt = [3], part_len = 1\<rparr>]"
  have "parts_ok ?ps" by (simp add: parts_ok_def)
  from tls_write_parts_concat [OF pinned_ok(1) this] show ?thesis by (simp add: parts_bytes_def part_bytes_def numeral_3_eq_3)
qed

text \<open>The direction the data goes under: the one in use, or the next one where a KeyUpdate is owed.\<close>

definition data_dir :: "'io ch_tls_priv \<Rightarrow> rec_dir" where
  "data_dir t = (if key_update_owed t then keyed (wr t) (next_secret (wr_secret t)) else wr t)"

definition records_left :: "'io ch_tls_priv \<Rightarrow> nat \<Rightarrow> bool" where
  "records_left t n \<longleftrightarrow> rd_seq (wr t) \<noteq> - 1 \<and> unat (rd_seq (data_dir t)) + record_count (record_plaintext_max t) n < 18446744073709551616"

lemma write_log_opens:
  assumes "session_ok t" "state t = CH_ST_CONNECTED" "0 < limit" "limit \<le> 512" "takes_all (cfg t)" "\<not> key_update_owed t"
    and "unat (rd_seq (wr t)) + record_count limit (length bs) < 18446744073709551616"
  shows "\<exists>t' rs. write_bytes t bs limit = Some (CH_OK, t') \<and> cfg_io (cfg t') = cfg_io (cfg t) @ concat rs \<and>
    open_run (wr t) rs 0x4001 = Some (map (\<lambda>c. (c, REC_APPDATA)) (chunks limit bs), wr t') \<and> length (concat rs) = wire_len limit (length bs)"
proof -
  have "unat (rd_seq (wr t)) + length (chunks limit bs) < 18446744073709551616"
    using assms(3,7) by (simp only: length_chunks)
  from write_log [OF assms(1-6) this] obtain t' l where l: "write_bytes t bs limit = Some (CH_OK, t')"
    "seal_run (wr t) (data_calls (chunks limit bs)) = Some (l, wr t')" "map sealed_content l = map (\<lambda>c. (c, REC_APPDATA)) (chunks limit bs)"
    "cfg_io (cfg t') = cfg_io (cfg t) @ concat (map sealed_record l)" "length (concat (map sealed_record l)) = length bs + 22 * length l" by blast
  have "length c \<le> 0x4000" if "c \<in> set (chunks limit bs)" for c
    using chunks_bounds [of limit bs] assms(4) that by (auto simp: list_all_iff)
  then have "list_all (\<lambda>(type, pt, cap). type \<noteq> 0 \<and> length pt \<le> 0x4000) (data_calls (chunks limit bs))"
    by (simp add: list_all_iff REC_APPDATA_def)
  from open_sealed_run [OF l(2) this, of "0x4001"] l(3)
  have "open_run (wr t) (map sealed_record l) 0x4001 = Some (map (\<lambda>c. (c, REC_APPDATA)) (chunks limit bs), wr t')" by simp
  moreover have "length l = record_count limit (length bs)"
    using arg_cong [OF l(3), of length] length_chunks [OF assms(3), of bs] by simp
  ultimately show ?thesis using l(1,4,5) by (auto simp: wire_len_def)
qed

text \<open>
  C1: With a \<open>send\<close> that takes what it is given, \<open>ch_write\<close> delivers: it returns \<open>CH_OK\<close>, and the peer that opens the records it sent,
  in order, reads application data records whose bytes together are the caller's, none empty and none longer than the peer's record limit.
  Where a KeyUpdate was owed, one record opens before them, under the key it ends, and it is that KeyUpdate; the data opens under
  the key it starts.  The bytes on the wire number what \<open>ch_writable_len\<close> counts.
\<close>

theorem tls_write_delivers:
  assumes "session_ok t" "state t = CH_ST_CONNECTED" "takes_all (cfg t)" "0 < n" "n \<le> length p" "records_left t n"
  shows "\<exists>t' ku rs cs. tls_write t p n = Some (CH_OK, t') \<and> cfg_io (cfg t') = cfg_io (cfg t) @ concat (ku @ rs) \<and>
    open_run (wr t) ku 0x4001 = Some (if key_update_owed t then [([HS_KEY_UPDATE, 0, 0, 1, 0], REC_HANDSHAKE)] else [],
      if key_update_owed t then (wr t)\<lparr>rd_seq := rd_seq (wr t) + 1\<rparr> else wr t) \<and>
    open_run (data_dir t) rs 0x4001 = Some (map (\<lambda>c. (c, REC_APPDATA)) cs, wr t') \<and> concat cs = take n p \<and>
    list_all (\<lambda>c. c \<noteq> [] \<and> length c \<le> unat (peer_limit t)) cs \<and> length (concat (ku @ rs)) = session_wire t n"
proof -
  let ?l = "record_plaintext_max t" and ?b = "take n p"
  have l: "0 < ?l" "?l \<le> 512" using record_max [OF assms(1,2)] by simp_all
  have cs: "concat (chunks ?l ?b) = ?b" "list_all (\<lambda>c. c \<noteq> [] \<and> length c \<le> unat (peer_limit t)) (chunks ?l ?b)"
    using concat_chunks [of ?l ?b] chunks_bounds [of ?l ?b] l by (auto simp: list_all_iff record_plaintext_max_def split: if_splits)
  have b: "?b \<noteq> []" "length ?b = n" using assms(4,5) by auto
  note w = write_eq [OF assms(1,2,5)]
  show ?thesis
  proof (cases "key_update_owed t")
    case False
    have "unat (rd_seq (wr t)) + record_count ?l (length ?b) < 18446744073709551616"
      using assms(6) False b(2) by (simp add: records_left_def data_dir_def)
    from write_log_opens [OF assms(1,2) l(1,2) assms(3) False this]
    obtain t' rs where "write_bytes t ?b ?l = Some (CH_OK, t')" "cfg_io (cfg t') = cfg_io (cfg t) @ concat rs"
      "open_run (wr t) rs 0x4001 = Some (map (\<lambda>c. (c, REC_APPDATA)) (chunks ?l ?b), wr t')" "length (concat rs) = wire_len ?l (length ?b)" by blast
    then show ?thesis using cs b w False assms(4)
      by (intro exI [of _ t'] exI [of _ "[]"] exI [of _ rs] exI [of _ "chunks ?l ?b"]) (simp add: data_dir_def session_wire_def)
  next
    case True
    have seq: "rd_seq (wr t) \<noteq> - 1" using assms(6) by (simp add: records_left_def)
    from before_owed [OF assms(1-3) True seq] obtain t1 where t1: "key_update_before_record t = Some (CH_OK, t1)" "write_kept t t1"
      "\<not> key_update_owed t1" "wr t1 = data_dir t" "takes_all (cfg t1)"
      "cfg_io (cfg t1) = cfg_io (cfg t) @ record_of (wr t) [HS_KEY_UPDATE, 0, 0, 1, 0, REC_HANDSHAKE]" using True by (auto simp: data_dir_def)
    have k: "session_ok t1" "state t1 = CH_ST_CONNECTED" using write_kept_ok [OF assms(1,2) t1(2)] t1(2,3) assms(2) by (auto simp: write_kept_def)
    have "unat (rd_seq (wr t1)) + record_count ?l (length ?b) < 18446744073709551616"
      using assms(6) b(2) t1(4) by (simp add: records_left_def)
    from write_log_opens [OF k l(1,2) t1(5,3) this]
    obtain t' rs where r: "write_bytes t1 ?b ?l = Some (CH_OK, t')" "cfg_io (cfg t') = cfg_io (cfg t1) @ concat rs"
      "open_run (data_dir t) rs 0x4001 = Some (map (\<lambda>c. (c, REC_APPDATA)) (chunks ?l ?b), wr t')" "length (concat rs) = wire_len ?l (length ?b)"
      using t1(4) by auto
    have "rec_open (wr t) (record_of (wr t) [HS_KEY_UPDATE, 0, 0, 1, 0, REC_HANDSHAKE]) 0x4001 =
        Some (Some ([HS_KEY_UPDATE, 0, 0, 1, 0], REC_HANDSHAKE), (wr t)\<lparr>rd_seq := rd_seq (wr t) + 1\<rparr>)"
      using rec_open_record [OF seq, of "[HS_KEY_UPDATE, 0, 0, 1, 0] @ [REC_HANDSHAKE]" "0x4001"]
        unpadded_content [of REC_HANDSHAKE "[HS_KEY_UPDATE, 0, 0, 1, 0]" 0] by (simp add: REC_HANDSHAKE_def)
    then show ?thesis using r cs b w True t1(6) write_after_key_update [OF t1(1,3) b(1), of ?l] l assms(4)
      by (intro exI [of _ t'] exI [of _ "[record_of (wr t) [HS_KEY_UPDATE, 0, 0, 1, 0, REC_HANDSHAKE]]"] exI [of _ rs]
          exI [of _ "chunks ?l ?b"]) (simp add: session_wire_def)
  qed
qed

definition sink_tls :: "bytes ch_tls_priv" where
  "sink_tls = pinned_tls\<lparr>cfg := (cfg pinned_tls)\<lparr>cfg_send := (\<lambda>io p. (int (length p), io @ p))\<rparr>, key_update_owed := True\<rparr>"

lemma sink_ok: "session_ok sink_tls" "state sink_tls = CH_ST_CONNECTED" "takes_all (cfg sink_tls)" "records_left sink_tls 2"
proof -
  have "tls_wf sink_tls" by (simp add: tls_wf_def sink_tls_def pinned_tls_def stream_tls_def stream_cfg_def tx_zero_def)
  moreover have "session_trust sink_tls = Some (trust_hash HSPOST_TRUST_PIN [5, 6, 7])"
    by (simp add: session_trust_def sink_tls_def pinned_tls_def stream_tls_def stream_cfg_def)
  ultimately show "session_ok sink_tls"
    by (simp add: session_ok_def sink_tls_def pinned_tls_def stream_tls_def ku_ok_def HSPOST_SEND_EPOCHS_MAX_def)
  show "records_left sink_tls 2"
    by (simp add: records_left_def data_dir_def keyed_def record_count_def record_plaintext_max_def CH_TX_PT_def sink_tls_def pinned_tls_def
        stream_tls_def rec_dir_zero_def)
qed (simp_all add: sink_tls_def pinned_tls_def stream_tls_def takes_all_def)

theorem tls_write_delivers_witness:
  "\<exists>t' ku rs cs. tls_write sink_tls [7, 8] 2 = Some (CH_OK, t') \<and> cfg_io (cfg t') = concat (ku @ rs) \<and>
    open_run (data_dir sink_tls) rs 0x4001 = Some (map (\<lambda>c. (c, REC_APPDATA)) cs, wr t') \<and> concat cs = [7, 8] \<and> length (concat (ku @ rs)) = 51"
proof -
  have "cfg_io (cfg sink_tls) = []" by (simp add: sink_tls_def pinned_tls_def stream_cfg_def)
  moreover have "session_wire sink_tls 2 = 51"
    by (simp add: session_wire_def wire_len_def record_count_def record_plaintext_max_def CH_TX_PT_def sink_tls_def pinned_tls_def stream_tls_def)
  ultimately show ?thesis using tls_write_delivers [OF sink_ok(1-3) _ _ sink_ok(4), of "[7, 8]"] by auto
qed

end
