(* ===== verification/Api.thy ===== *)
theory Api
  imports Tls_Write
begin

text \<open>
  The life of a session after its handshake: any sequence of the calls of \<open>tls.h\<close>, \<open>ch_read\<close>, \<open>ch_write\<close>, \<open>ch_write_parts\<close>,
  \<open>ch_fail\<close> and \<open>ch_close\<close>, as a relation on the session, with the invariant every call keeps and what a session that has ended does.
\<close>

inductive api_call :: "'io ch_tls_priv \<Rightarrow> 'io ch_tls_priv \<Rightarrow> bool" where
  read: "tls_read t n = Some (r, t') \<Longrightarrow> api_call t t'"
| parts: "parts_ok ps \<Longrightarrow> tls_write_parts t ps (length ps) = Some (rc, t') \<Longrightarrow> api_call t t'"
| whole: "n \<le> length p \<Longrightarrow> tls_write t p n = Some (rc, t') \<Longrightarrow> api_call t t'"
| fail: "tls_fail t d = Some (rc, t') \<Longrightarrow> api_call t t'"
| close: "tls_close t = Some t' \<Longrightarrow> api_call t t'"


inductive api_run :: "'io ch_tls_priv \<Rightarrow> 'io ch_tls_priv \<Rightarrow> bool" where
  none: "api_run t t"
| call: "api_run t t1 \<Longrightarrow> api_call t1 t2 \<Longrightarrow> api_run t t2"

text \<open>An ended session: closed or failed, with nothing left to send under.\<close>

definition ended :: "'io ch_tls_priv \<Rightarrow> bool" where
  "ended t \<longleftrightarrow> (state t = CH_ST_CLOSED \<or> state t = CH_ST_FAILED) \<and> wiped t"

lemma session_state: "session_ok t \<Longrightarrow> state t = CH_ST_CONNECTED \<or> ended t"
  by (auto simp: session_ok_def ended_def split: if_splits)

lemma ended_states: "ended t \<Longrightarrow> state t \<noteq> CH_ST_CONNECTED \<and> state t \<le> CH_ST_FAILED \<and> \<not> keys t"
  by (auto simp: ended_def wiped_def state_defs)

section \<open>Every call returns and keeps the invariant\<close>

lemma read_kept_ok:
  assumes "session_ok t"
  shows "\<exists>r t'. tls_read t n = Some (r, t') \<and> session_ok t'"
proof (cases "state t = CH_ST_CONNECTED \<and> \<not> read_closed t \<and> 0 < n")
  case True
  then have "tls_read t n = read_loop t n 0" by (simp add: tls_read_def state_defs)
  then show ?thesis using read_loop_total [OF assms, of n 0] True by (auto simp: read_outcome_def)
next
  case False
  then show ?thesis using assms session_state [OF assms] ended_states [of t] by (auto simp: tls_read_def state_defs)
qed

lemma parts_kept_ok:
  assumes "session_ok t" "parts_ok ps"
  shows "\<exists>rc t'. tls_write_parts t ps (length ps) = Some (rc, t') \<and> session_ok t'"
proof (cases "state t = CH_ST_CONNECTED")
  case True
  then show ?thesis using write_parts_eq [OF assms(1) True assms(2)] write_bytes_total [OF assms(1) True] record_max [OF assms(1) True] by metis
next
  case False
  then show ?thesis using assms(1) session_state [OF assms(1)] ended_states [of t] by (auto simp: tls_write_parts_def)
qed

lemma whole_kept_ok: "session_ok t \<Longrightarrow> n \<le> length p \<Longrightarrow> \<exists>rc t'. tls_write t p n = Some (rc, t') \<and> session_ok t'"
  using parts_kept_ok [of t "[\<lparr>part_pt = p, part_len = n\<rparr>]"] by (simp add: tls_write_def parts_ok_def)

lemma fail_kept_ok:
  assumes "session_ok t"
  shows "\<exists>rc t'. tls_fail t d = Some (rc, t') \<and> session_ok t'"
proof (cases "is_error_alert d \<and> state t = CH_ST_CONNECTED")
  case True
  have wf: "tls_wf t" using assms by (simp add: session_ok_def)
  obtain rc t' where f: "tlsi_fail t d = Some (rc, t')" "state t' = CH_ST_FAILED" "wiped t'"
    "io_moved (length (cfg_buf (cfg t))) (cfg t) (cfg t')" "length (tx t') = length (tx t)" by (rule fail_total)
  then show ?thesis using session_ok_failed [OF wf _ f(3,4,5)] True by (simp add: tls_fail_def state_defs)
next
  case False
  then show ?thesis using assms session_state [OF assms] ended_states [of t] by (auto simp: tls_fail_def state_defs)
qed

lemma close_kept_ok: "session_ok t \<Longrightarrow> \<exists>t'. tls_close t = Some t' \<and> session_ok t' \<and> state t' = CH_ST_CLOSED"
  by (erule tls_close_total) blast

lemma call_kept_ok:
  assumes "api_call t t'" "session_ok t"
  shows "session_ok t'"
  using assms(1)
proof (cases rule: api_call.cases)
  case (read n r)
  then show ?thesis using read_kept_ok [OF assms(2), of n] by simp
next
  case (parts ps rc)
  then show ?thesis using parts_kept_ok [OF assms(2), of ps] by simp
next
  case (whole n p rc)
  then show ?thesis using whole_kept_ok [OF assms(2), of n p] by simp
next
  case (fail d rc)
  then show ?thesis using fail_kept_ok [OF assms(2), of d] by simp
next
  case close
  then show ?thesis using close_kept_ok [OF assms(2)] by simp
qed

lemma run_kept_ok: "api_run t t' \<Longrightarrow> session_ok t \<Longrightarrow> session_ok t'"
  by (induction rule: api_run.induct) (auto intro: call_kept_ok)

section \<open>An ended session\<close>

lemma ended_call:
  assumes "api_call t t'" "session_ok t" "ended t"
  shows "ended t' \<and> cfg t' = cfg t"
proof -
  have s: "state t \<noteq> CH_ST_CONNECTED" "state t \<le> CH_ST_FAILED" "\<not> keys t" using ended_states [OF assms(3)] by simp_all
  have c: "cfg t1 = cfg t \<and> ended t1" if "tls_close t = Some t1" for t1
  proof (rule tls_close_total [OF assms(2)])
    fix t2
    assume "tls_close t = Some t2" "state t2 = CH_ST_CLOSED" "session_ok t2" "\<not> keys t \<Longrightarrow> cfg t2 = cfg t"
    then show ?thesis using that s(3) session_state [of t2] by (auto simp: state_defs)
  qed
  from assms(1) show ?thesis
  proof (cases rule: api_call.cases)
    case (close)
    then show ?thesis using c by blast
  qed (use s assms(3) in \<open>auto simp: tls_read_def tls_write_def tls_write_parts_def tls_fail_def split: if_splits\<close>)
qed

lemma ended_run: "api_run t t' \<Longrightarrow> session_ok t \<Longrightarrow> ended t \<Longrightarrow> ended t' \<and> cfg t' = cfg t"
proof (induction rule: api_run.induct)
  case (call t t1 t2)
  then show ?case using ended_call [of t1 t2] run_kept_ok [of t t1] by simp
qed simp

section \<open>Properties\<close>

text \<open>
  C6: From the end of the handshake on, no sequence of calls leaves the invariant of the session or meets an assertion, and no
  call runs for ever: whatever the caller's reads, writes, failures and closes were and whatever bytes the peer sent between them, the session is
  connected with its offsets in its buffer, its trust known and its KeyUpdate counters in bounds, or it is ended with every key zero; and
  each call the caller may make next returns.
\<close>

theorem api_invariant:
  assumes "session_ok t" "api_run t t'"
  shows "session_ok t' \<and> (\<forall>n. \<exists>r t''. tls_read t' n = Some (r, t'')) \<and> (\<forall>ps. parts_ok ps \<longrightarrow> (\<exists>rc t''. tls_write_parts t' ps (length ps) = Some (rc, t''))) \<and>
    (\<forall>d. \<exists>rc t''. tls_fail t' d = Some (rc, t'')) \<and> (\<exists>t''. tls_close t' = Some t'')"
proof -
  have "session_ok t'" by (rule run_kept_ok [OF assms(2,1)])
  from this read_kept_ok [OF this] parts_kept_ok [OF this] fail_kept_ok [OF this] close_kept_ok [OF this] show ?thesis by blast
qed

lemma pinned_closed: "\<exists>t. tls_close pinned_tls = Some t \<and> api_run pinned_tls t \<and> state t = CH_ST_CLOSED \<and> session_ok t"
  using close_kept_ok [OF pinned_ok(1)] api_run.call [OF api_run.none api_call.close] by blast

theorem api_invariant_witness: "\<exists>t t''. tls_close pinned_tls = Some t \<and> session_ok t \<and> tls_close t = Some t''"
  using pinned_closed api_invariant [OF pinned_ok(1)] by blast

text \<open>
  C7: A session that has ended stays ended and silent.  Once it is closed or failed, no sequence of calls sends a byte, reads one or
  touches the caller's buffer again, every key and secret stays zero, and each call is refused with the code of its
  guard: a read reports the end of the data on a closed session and \<open>CH_EPROTO\<close> on a failed one, a write \<open>CH_EPROTO\<close>, \<open>ch_fail\<close>
  \<open>CH_EPROTO\<close> or, for an alert that is no error, \<open>CH_EINVAL\<close>.
\<close>

theorem ended_session_refuses:
  assumes "session_ok t" "state t \<noteq> CH_ST_CONNECTED" "api_run t t'"
  shows "cfg t' = cfg t \<and> wiped t' \<and> (state t' = CH_ST_CLOSED \<or> state t' = CH_ST_FAILED) \<and>
    tls_read t' n = Some (if n = 0 then Inl CH_EINVAL else if state t' = CH_ST_CLOSED then Inr [] else Inl CH_EPROTO, t') \<and>
    tls_write_parts t' ps k = Some (CH_EPROTO, t') \<and> tls_fail t' d = Some (if is_error_alert d then CH_EPROTO else CH_EINVAL, t')"
proof -
  have "ended t" using session_state [OF assms(1)] assms(2) by simp
  from ended_run [OF assms(3,1) this] have e: "ended t'" "cfg t' = cfg t" by simp_all
  from ended_states [OF e(1)] e show ?thesis
    by (auto simp: ended_def tls_read_def tls_write_parts_def tls_fail_def)
qed

theorem ended_session_refuses_witness:
  "\<exists>t. tls_close pinned_tls = Some t \<and> tls_read t 5 = Some (Inr [], t) \<and> tls_fail t 10 = Some (CH_EPROTO, t)"
proof -
  obtain t where t: "tls_close pinned_tls = Some t" "state t = CH_ST_CLOSED" "session_ok t" using pinned_closed by blast
  have "is_error_alert 10" by (simp add: is_error_alert_def error_alerts_def)
  then show ?thesis using t ended_session_refuses [OF t(3) _ api_run.none, where n = 5 and d = 10] by (auto simp: state_defs)
qed

end
