(* ===== verification/Hs_Parse.thy ===== *)
theory Hs_Parse
  imports Hs_Record Wire
begin

text \<open>
  The parsers of the server's handshake messages, \<open>src/handshake_parser.c\<close> and \<open>src/handshake_parser_ee.c\<close>, in the build with one
  group and one suite and without ALPN.  A message body is a byte list.  What a parser writes through its out parameters it
  returns beside its result code, also where it fails.
\<close>

section \<open>Model\<close>

subsection \<open>Constants\<close>

definition HS_CLIENT_HELLO :: u8 where "HS_CLIENT_HELLO = 1"
definition HS_SERVER_HELLO :: u8 where "HS_SERVER_HELLO = 2"
definition HS_ENCRYPTED_EXTENSIONS :: u8 where "HS_ENCRYPTED_EXTENSIONS = 8"
definition HS_CERTIFICATE :: u8 where "HS_CERTIFICATE = 11"
definition HS_CERTIFICATE_REQUEST :: u8 where "HS_CERTIFICATE_REQUEST = 13"
definition HS_CERTIFICATE_VERIFY :: u8 where "HS_CERTIFICATE_VERIFY = 15"
definition HS_FINISHED :: u8 where "HS_FINISHED = 20"

definition EXT_SUPPORTED_GROUPS :: u16 where "EXT_SUPPORTED_GROUPS = 10"
definition EXT_SIGNATURE_ALGORITHMS :: u16 where "EXT_SIGNATURE_ALGORITHMS = 13"
definition EXT_RECORD_SIZE_LIMIT :: u16 where "EXT_RECORD_SIZE_LIMIT = 28"
definition EXT_PRE_SHARED_KEY :: u16 where "EXT_PRE_SHARED_KEY = 41"
definition EXT_SUPPORTED_VERSIONS :: u16 where "EXT_SUPPORTED_VERSIONS = 43"
definition EXT_COOKIE :: u16 where "EXT_COOKIE = 44"
definition EXT_PSK_MODES :: u16 where "EXT_PSK_MODES = 45"
definition EXT_KEY_SHARE :: u16 where "EXT_KEY_SHARE = 51"

definition TLS13 :: u16 where "TLS13 = 0x0304"
definition SUITE_CHACHA20_POLY1305_SHA256 :: u16 where "SUITE_CHACHA20_POLY1305_SHA256 = 0x1303"
definition SIGALG_RSA_PSS_RSAE_SHA256 :: u16 where "SIGALG_RSA_PSS_RSAE_SHA256 = 0x0804"
definition CH_PIN_SIGALG :: u16 where "CH_PIN_SIGALG = SIGALG_RSA_PSS_RSAE_SHA256"
definition CH_GROUP_X25519 :: u16 where "CH_GROUP_X25519 = 0x001d"
definition CH_KEX_GROUP :: u16 where "CH_KEX_GROUP = CH_GROUP_X25519"
definition CH_KEX_SERVER_SHARE :: u16 where "CH_KEX_SERVER_SHARE = 32"
definition X25519_LEN :: nat where "X25519_LEN = 32"
definition HSP_COOKIE_MAX :: nat where "HSP_COOKIE_MAX = 128"
definition HSP_SEEN_PRE_SHARED_KEY :: u8 where "HSP_SEEN_PRE_SHARED_KEY = 4"

definition ALERT_HANDSHAKE_FAILURE :: u8 where "ALERT_HANDSHAKE_FAILURE = 40"
definition ALERT_DECRYPT_ERROR :: u8 where "ALERT_DECRYPT_ERROR = 51"
definition ALERT_UNSUPPORTED_EXTENSION :: u8 where "ALERT_UNSUPPORTED_EXTENSION = 110"

definition hsp_hrr_magic :: bytes where
  "hsp_hrr_magic = concat
     [[0xcf, 0x21, 0xad, 0x74, 0xe5, 0x9a, 0x61, 0x11], [0xbe, 0x1d, 0x8c, 0x02, 0x1e, 0x65, 0xb8, 0x91],
      [0xc2, 0xa2, 0x11, 0x16, 0x7a, 0xbb, 0x8c, 0x5e], [0x07, 0x9e, 0x09, 0xe2, 0xc8, 0xa8, 0x33, 0x9c]]"

subsection \<open>ServerHello\<close>

record server_hello_info =
  si_hrr :: bool
  si_version_ok :: bool
  si_have_share :: bool
  si_psk_ok :: bool
  si_seen :: u8
  si_group :: u16
  si_server_pub :: bytes
  si_cookie :: "bytes option"
  si_cookie_len :: nat

definition server_hello_ext_bit :: "u16 \<Rightarrow> u8" where
  "server_hello_ext_bit ext =
     (if ext = EXT_SUPPORTED_VERSIONS then 1
      else if ext = EXT_KEY_SHARE then 2
      else if ext = EXT_PRE_SHARED_KEY then HSP_SEEN_PRE_SHARED_KEY
      else if ext = EXT_COOKIE then 8
      else 0)"

definition parse_key_share :: "rbuf \<Rightarrow> server_hello_info \<Rightarrow> bool \<Rightarrow> rc \<times> rbuf \<times> server_hello_info" where
  "parse_key_share e info hrr =
     (if hrr then (CH_EPROTO, e, info)
      else
        let (group, e) = rb_u16 e
        in if group \<noteq> CH_KEX_GROUP then (CH_EPROTO, e, info)
           else
             let (len, e) = rb_u16 e
             in if len \<noteq> CH_KEX_SERVER_SHARE then (CH_EPROTO, e, info)
                else
                  let (pub, e) = rb_bytes e X25519_LEN
                  in case pub of
                       None \<Rightarrow> (CH_EPROTO, e, info)
                     | Some pub \<Rightarrow> (CH_OK, e, info\<lparr>si_server_pub := pub, si_group := group, si_have_share := True\<rparr>))"

definition parse_cookie :: "rbuf \<Rightarrow> server_hello_info \<Rightarrow> bool \<Rightarrow> rc \<times> rbuf \<times> server_hello_info" where
  "parse_cookie e info hrr =
     (if \<not> hrr then (CH_EPROTO, e, info)
      else
        let (len, e) = rb_u16 e;
            (cookie, e) = rb_bytes e (unat len);
            info = info\<lparr>si_cookie_len := unat len, si_cookie := cookie\<rparr>
        in if cookie = None \<or> si_cookie_len info > HSP_COOKIE_MAX then (CH_EPROTO, e, info) else (CH_OK, e, info))"

text \<open>The arm of an extension type, on the extension's data.\<close>

definition sh_arm :: "u16 \<Rightarrow> bytes \<Rightarrow> nat \<Rightarrow> server_hello_info \<Rightarrow> bool \<Rightarrow> rc \<times> server_hello_info" where
  "sh_arm ext ext_data ext_len info hrr =
     (let e = rb_init ext_data ext_len;
          (rc, e, info) =
            (if ext = EXT_SUPPORTED_VERSIONS then let (v, e) = rb_u16 e in (CH_OK, e, info\<lparr>si_version_ok := (v = TLS13)\<rparr>)
             else if ext = EXT_KEY_SHARE then parse_key_share e info hrr
             else if ext = EXT_PRE_SHARED_KEY then let (v, e) = rb_u16 e in (CH_OK, e, info\<lparr>si_psk_ok := (v = 0)\<rparr>)
             else parse_cookie e info hrr)
      in (if rc \<noteq> CH_OK then rc else if rb_err e \<or> rb_left e \<noteq> 0 then CH_EPROTO else CH_OK, info))"

definition parse_server_hello_ext :: "rbuf \<Rightarrow> server_hello_info \<Rightarrow> bool \<Rightarrow> bool \<Rightarrow> rc \<times> rbuf \<times> server_hello_info" where
  "parse_server_hello_ext r info hrr psk_mode =
     (let (ext, r) = rb_u16 r; (ext_len, r) = rb_u16 r; (ext_data, r) = rb_bytes r (unat ext_len)
      in case ext_data of
           None \<Rightarrow> (CH_EPROTO, r, info)
         | Some ext_data \<Rightarrow>
             if ext = EXT_PRE_SHARED_KEY \<and> (hrr \<or> \<not> psk_mode) then (CH_EPROTO, r, info)
             else
               let bit = server_hello_ext_bit ext
               in if bit = 0 then (CH_EPROTO, r, info)
                  else if si_seen info AND bit \<noteq> 0 then (CH_EPROTO, r, info)
                  else
                    let (rc, info) = sh_arm ext ext_data (unat ext_len) (info\<lparr>si_seen := si_seen info OR bit\<rparr>) hrr
                    in (rc, r, info))"

text \<open>Every turn of the loop that goes on reads an extension, so fewer bytes are left.\<close>

lemma rb_left_u8: "rb_left (snd (rb_u8 r)) \<le> rb_left r" "rb_left r \<noteq> 0 \<Longrightarrow> rb_left (snd (rb_u8 r)) < rb_left r"
proof -
  show "rb_left (snd (rb_u8 r)) \<le> rb_left r" by (auto simp: rb_u8_def rb_left_def rb_have_def size_sub_def)
  show "rb_left r \<noteq> 0 \<Longrightarrow> rb_left (snd (rb_u8 r)) < rb_left r" using rb_u8_left [of r "fst (rb_u8 r)" "snd (rb_u8 r)"] by simp
qed

lemma rb_left_reads: "rb_left (snd (rb_u16 r)) \<le> rb_left r" "rb_left (snd (rb_bytes r n)) \<le> rb_left r"
  "rb_left r \<noteq> 0 \<Longrightarrow> rb_left (snd (rb_u16 r)) < rb_left r"
proof -
  have u: "snd (rb_u16 r) = snd (rb_u8 (snd (rb_u8 r)))" by (simp add: rb_u16_def case_prod_beta Let_def)
  show "rb_left (snd (rb_u16 r)) \<le> rb_left r" "rb_left r \<noteq> 0 \<Longrightarrow> rb_left (snd (rb_u16 r)) < rb_left r"
    unfolding u using rb_left_u8(1) [of "snd (rb_u8 r)"] rb_left_u8 [of r] by simp_all
  show "rb_left (snd (rb_bytes r n)) \<le> rb_left r" by (auto simp: rb_bytes_def rb_left_def rb_have_def size_sub_def)
qed

lemma ext_left: "rb_left r \<noteq> 0 \<Longrightarrow> rb_left (snd (rb_bytes (snd (rb_u16 (snd (rb_u16 r)))) n)) < rb_left r"
  using rb_left_reads(3) [of r] rb_left_reads(1) [of "snd (rb_u16 r)"] rb_left_reads(2) [of "snd (rb_u16 (snd (rb_u16 r)))" n] by linarith

lemma server_hello_ext_left:
  "rb_left r \<noteq> 0 \<Longrightarrow> (rc, r', info') = parse_server_hello_ext r info hrr psk_mode \<Longrightarrow> rb_left r' < rb_left r"
  using ext_left [of r]
  by (auto simp: parse_server_hello_ext_def case_prod_beta Let_def split: option.splits if_splits)

function server_hello_exts :: "rbuf \<Rightarrow> server_hello_info \<Rightarrow> bool \<Rightarrow> rc \<times> server_hello_info" where
  "server_hello_exts r info psk_mode =
     (if rb_left r > 0 then
        let (rc, r, info) = parse_server_hello_ext r info (si_hrr info) psk_mode
        in if rc \<noteq> CH_OK then (rc, info) else server_hello_exts r info psk_mode
      else (if si_version_ok info then CH_OK else CH_EPROTO, info))"
  by pat_completeness auto

termination
  by (relation "measure (\<lambda>(r, _). rb_left r)") (auto dest: server_hello_ext_left [OF less_imp_neq [symmetric]])

declare server_hello_exts.simps [simp del]

definition hsp_parse_server_hello :: "bytes \<Rightarrow> server_hello_info \<Rightarrow> bool \<Rightarrow> rc \<times> server_hello_info" where
  "hsp_parse_server_hello body info psk_mode =
     (let r = rb_init body (length body);
          (version, r) = rb_u16 r
      in if version \<noteq> 0x0303 then (CH_EPROTO, info)
         else
           let (random, r) = rb_bytes r 32
           in case random of
                None \<Rightarrow> (CH_EPROTO, info)
              | Some random \<Rightarrow>
                  let info = info\<lparr>si_hrr := (random = hsp_hrr_magic)\<rparr>;
                      (session_id_len, r) = rb_u8 r
                  in if session_id_len \<noteq> 0 then (CH_EPROTO, info)
                     else
                       let (suite, r) = rb_u16 r
                       in if suite \<noteq> SUITE_CHACHA20_POLY1305_SHA256 then (CH_EPROTO, info)
                          else
                            let (compression, r) = rb_u8 r
                            in if compression \<noteq> 0 then (CH_EPROTO, info)
                               else
                                 let (exts_len, r) = rb_u16 r
                                 in if rb_err r \<or> unat exts_len \<noteq> rb_left r then (CH_EPROTO, info)
                                    else server_hello_exts r info psk_mode)"

subsection \<open>EncryptedExtensions\<close>

definition parse_record_size_limit :: "bytes \<Rightarrow> nat \<Rightarrow> u16 \<Rightarrow> rc \<times> u16" where
  "parse_record_size_limit ext_data ext_len lim =
     (let e = rb_init ext_data ext_len;
          (limit, e) = rb_u16 e
      in if rb_err e \<or> rb_left e \<noteq> 0 \<or> limit < 64 then (CH_EPROTO, lim)
         else let pt = limit - 1 in (CH_OK, if pt < lim then pt else lim))"

text \<open>The result code, \<open>*peer_limit\<close> and \<open>*alert\<close>.\<close>

function encrypted_exts :: "rbuf \<Rightarrow> u8 \<Rightarrow> u16 \<Rightarrow> u8 \<Rightarrow> rc \<times> u16 \<times> u8" where
  "encrypted_exts r seen lim alert =
     (if rb_left r > 0 then
        let (ext, r) = rb_u16 r; (ext_len, r) = rb_u16 r; (ext_data, r) = rb_bytes r (unat ext_len)
        in case ext_data of
             None \<Rightarrow> (CH_EPROTO, lim, alert)
           | Some ext_data \<Rightarrow>
               if ext = EXT_RECORD_SIZE_LIMIT then
                 let bit = 1; (rc, lim) = parse_record_size_limit ext_data (unat ext_len) lim
                 in if rc \<noteq> CH_OK then (CH_EPROTO, lim, alert)
                    else if seen AND bit \<noteq> 0 then (CH_EPROTO, lim, alert)
                    else encrypted_exts r (seen OR bit) lim alert
               else if ext = EXT_SUPPORTED_GROUPS then
                 let bit = 2
                 in if seen AND bit \<noteq> 0 then (CH_EPROTO, lim, alert)
                    else encrypted_exts r (seen OR bit) lim alert
               else (CH_EPROTO, lim, ALERT_UNSUPPORTED_EXTENSION)
      else (CH_OK, lim, alert))"
  by pat_completeness auto

termination
  by (relation "measure (\<lambda>(r, _). rb_left r)") (auto simp: prod_eq_iff ext_left)

declare encrypted_exts.simps [simp del]

definition hsp_parse_encrypted_exts :: "bytes \<Rightarrow> u16 \<Rightarrow> u8 \<Rightarrow> rc \<times> u16 \<times> u8" where
  "hsp_parse_encrypted_exts body lim alert =
     (let r = rb_init body (length body);
          (exts_len, r) = rb_u16 r
      in if rb_err r \<or> unat exts_len \<noteq> rb_left r then (CH_EPROTO, lim, alert)
         else encrypted_exts r 0 lim alert)"

subsection \<open>Certificate and CertificateVerify\<close>

text \<open>The result code, the list or the signature, and \<open>*alert\<close>.\<close>

definition hsp_parse_certificate :: "bytes \<Rightarrow> u8 \<Rightarrow> rc \<times> bytes option \<times> u8" where
  "hsp_parse_certificate body alert =
     (let r = rb_init body (length body);
          (context_len, r) = rb_u8 r
      in if context_len \<noteq> 0 then (CH_EPROTO, None, ALERT_ILLEGAL_PARAMETER)
         else
           let (len, r) = rb_u24 r
           in if rb_err r \<or> unat len \<noteq> rb_left r \<or> len = 0 then (CH_EPROTO, None, alert)
              else let (l, r) = rb_bytes r (unat len) in (CH_OK, l, alert))"

definition hsp_parse_certificate_verify :: "bytes \<Rightarrow> u8 \<Rightarrow> rc \<times> bytes option \<times> u8" where
  "hsp_parse_certificate_verify body alert =
     (let r = rb_init body (length body);
          (algorithm, r) = rb_u16 r
      in if algorithm \<noteq> CH_PIN_SIGALG then (CH_EAUTH, None, ALERT_HANDSHAKE_FAILURE)
         else
           let (len, r) = rb_u16 r;
               (sig, r) = rb_bytes r (unat len)
           in if sig = None \<or> rb_left r \<noteq> 0 then (CH_EPROTO, sig, alert) else (CH_OK, sig, alert))"

section \<open>Specification\<close>

text \<open>An extension on the wire, and lists of them.\<close>

definition ext_wire :: "u16 \<times> bytes \<Rightarrow> bytes" where
  "ext_wire x = be16 (fst x) @ vec16 (snd x)"

definition exts_wire :: "(u16 \<times> bytes) list \<Rightarrow> bytes" where
  "exts_wire xs = concat (map ext_wire xs)"

text \<open>
  What an extension of a ServerHello, or of a HelloRetryRequest (\<open>hrr\<close>), may be: one version, one X25519 share, one selected
  identity where a PSK was offered, one cookie of at most 128 bytes in a retry.
\<close>

definition sh_ext_ok :: "bool \<Rightarrow> bool \<Rightarrow> u16 \<times> bytes \<Rightarrow> bool" where
  "sh_ext_ok hrr psk x \<longleftrightarrow>
     fst x = 43 \<and> length (snd x) = 2 \<or>
     fst x = 51 \<and> \<not> hrr \<and> (\<exists>pub. length pub = 32 \<and> snd x = be16 0x1d @ vec16 pub) \<or>
     fst x = 41 \<and> psk \<and> \<not> hrr \<and> length (snd x) = 2 \<or>
     fst x = 44 \<and> hrr \<and> (\<exists>cookie. length cookie \<le> 128 \<and> snd x = vec16 cookie)"

definition sh_exts_ok :: "bool \<Rightarrow> bool \<Rightarrow> (u16 \<times> bytes) list \<Rightarrow> bool" where
  "sh_exts_ok hrr psk xs \<longleftrightarrow> distinct (map fst xs) \<and> list_all (sh_ext_ok hrr psk) xs"

text \<open>What the parser reports of a list of extensions.\<close>

definition sh_seen :: "(u16 \<times> bytes) list \<Rightarrow> u8" where
  "sh_seen xs = (if map_of xs 43 = None then 0 else 1) OR (if map_of xs 51 = None then 0 else 2) OR
     (if map_of xs 41 = None then 0 else 4) OR (if map_of xs 44 = None then 0 else 8)"

definition sh_info :: "bool \<Rightarrow> (u16 \<times> bytes) list \<Rightarrow> server_hello_info" where
  "sh_info hrr xs =
     \<lparr>si_hrr = hrr, si_version_ok = (map_of xs 43 = Some [3, 4]), si_have_share = (map_of xs 51 \<noteq> None),
      si_psk_ok = (map_of xs 41 = Some [0, 0]), si_seen = sh_seen xs, si_group = (if map_of xs 51 = None then 0 else 0x1d),
      si_server_pub = (case map_of xs 51 of None \<Rightarrow> replicate 32 0 | Some d \<Rightarrow> drop 4 d),
      si_cookie = map_option (drop 2) (map_of xs 44), si_cookie_len = (case map_of xs 44 of None \<Rightarrow> 0 | Some d \<Rightarrow> length d - 2)\<rparr>"

definition sh_wire :: "bytes \<Rightarrow> (u16 \<times> bytes) list \<Rightarrow> bytes" where
  "sh_wire random xs = [3, 3] @ random @ [0, 0x13, 3, 0] @ vec16 (exts_wire xs)"

section \<open>Reading extensions\<close>

lemmas ext_codes = EXT_SUPPORTED_GROUPS_def EXT_RECORD_SIZE_LIMIT_def EXT_PRE_SHARED_KEY_def EXT_SUPPORTED_VERSIONS_def EXT_COOKIE_def
  EXT_KEY_SHARE_def

lemma exts_wire_simps [simp]: "exts_wire [] = []" "exts_wire (x # xs) = ext_wire x @ exts_wire xs" "exts_wire (xs @ ys) = exts_wire xs @ exts_wire ys"
  by (simp_all add: exts_wire_def)

lemma ext_read:
  assumes "rb_wf r"
  defines "r1 \<equiv> snd (rb_u16 r)" and "ty \<equiv> fst (rb_u16 r)"
  defines "r2 \<equiv> snd (rb_u16 r1)" and "len \<equiv> unat (fst (rb_u16 r1))"
  defines "r3 \<equiv> snd (rb_bytes r2 len)" and "d \<equiv> fst (rb_bytes r2 len)"
  shows "rb_wf r3" "rb_view r = Some (ext_wire x @ rest) \<Longrightarrow> length (snd x) < 65536 \<Longrightarrow> ty = fst x \<and> len = length (snd x) \<and> d = Some (snd x) \<and> rb_view r3 = Some rest"
    "d = Some ds \<Longrightarrow> \<exists>rest. rb_view r = Some (ext_wire (ty, ds) @ rest) \<and> len = length ds \<and> length ds < 65536 \<and> rb_view r3 = Some rest"
proof -
  have r1: "rb_wf r1" using assms(1) by (simp add: r1_def rb_u16_wf)
  note v = rb_vec16_step [OF r1, folded r2_def len_def, folded r3_def d_def]
  show "rb_wf r3" by (rule v(1))
  show "ty = fst x \<and> len = length (snd x) \<and> d = Some (snd x) \<and> rb_view r3 = Some rest"
    if "rb_view r = Some (ext_wire x @ rest)" "length (snd x) < 65536"
  proof -
    have "rb_view r = Some (be16 (fst x) @ vec16 (snd x) @ rest)" using that(1) by (simp add: ext_wire_def)
    from rb_u16_step(1) [OF assms(1) this] have "ty = fst x" "rb_view r1 = Some (vec16 (snd x) @ rest)" by (simp_all add: ty_def r1_def)
    then show ?thesis using v(2) [OF _ that(2)] by blast
  qed
  assume d: "d = Some ds"
  have r2: "rb_wf r2" using r1 by (simp add: r2_def rb_u16_wf)
  from d obtain rest where "rb_view r3 = Some rest" "len = length ds"
    using rb_bytes_value [OF r2] rb_bytes_view [OF r2] by (auto simp: d_def r3_def split: option.splits if_splits)
  moreover from this v(3) obtain bs where "length bs < 65536" "rb_view r1 = Some (vec16 bs @ rest)" by blast
  moreover from this v(2) d have "bs = ds" by (metis option.inject)
  ultimately show "\<exists>rest. rb_view r = Some (ext_wire (ty, ds) @ rest) \<and> len = length ds \<and> length ds < 65536 \<and> rb_view r3 = Some rest"
    using rb_u16_step(2) [OF assms(1)] by (auto simp: r1_def ty_def ext_wire_def)
qed

lemma body_init: "rb_wf (rb_init d (length d))" "rb_view (rb_init d (length d)) = Some d"
  by (simp_all add: rb_init_wf rb_init_view)

lemma read_out: "rb_wf e \<Longrightarrow> \<not> (rb_err e \<or> rb_left e \<noteq> 0) \<longleftrightarrow> rb_view e = Some []"
  by (auto simp: rb_err_view rb_left_view split: option.splits)

lemma be16_list: "be16 v = [ucast (drop_bit 8 v), ucast v]"
  by (simp add: be16_def)

lemma be16_inject: "be16 v = be16 w \<longleftrightarrow> v = w"
  by (metis be_nat_be16 word_unat_eq_iff)

lemma body_u16:
  assumes "(v, e) = rb_u16 (rb_init d (length d))"
  shows "rb_wf e" "\<not> (rb_err e \<or> rb_left e \<noteq> 0) \<longleftrightarrow> length d = 2" "length d = 2 \<Longrightarrow> d = be16 v"
proof -
  let ?r = "rb_init d (length d)"
  have ve: "v = fst (rb_u16 ?r)" "e = snd (rb_u16 ?r)" using assms by (simp_all add: prod_eq_iff)
  note s = rb_u16_step [OF body_init(1) [of d]]
  show wf: "rb_wf e" using rb_u16_wf [OF body_init(1) [of d]] ve by simp
  have view: "rb_view e = Some [] \<longleftrightarrow> length d = 2"
    using rb_u16_view [OF body_init(1) [of d]] body_init(2) [of d] ve by auto
  then show "\<not> (rb_err e \<or> rb_left e \<noteq> 0) \<longleftrightarrow> length d = 2" using read_out [OF wf] by simp
  show "d = be16 v" if "length d = 2" using s(2) [of "[]"] body_init(2) [of d] view that ve by simp
qed

lemma map_of_snoc: "map_of (xs @ [(ty, d)]) k = (case map_of xs k of Some v \<Rightarrow> Some v | None \<Rightarrow> if k = ty then Some d else None)"
  by (induction xs) auto

lemma sh_seen_test:
  "sh_seen xs AND 1 \<noteq> 0 \<longleftrightarrow> map_of xs 43 \<noteq> None" "sh_seen xs AND 2 \<noteq> 0 \<longleftrightarrow> map_of xs 51 \<noteq> None"
  "sh_seen xs AND 4 \<noteq> 0 \<longleftrightarrow> map_of xs 41 \<noteq> None" "sh_seen xs AND 8 \<noteq> 0 \<longleftrightarrow> map_of xs 44 \<noteq> None"
  by (simp_all add: sh_seen_def)

lemma sh_seen_snoc:
  "map_of xs 43 = None \<Longrightarrow> sh_seen (xs @ [(43, d)]) = sh_seen xs OR 1" "map_of xs 51 = None \<Longrightarrow> sh_seen (xs @ [(51, d)]) = sh_seen xs OR 2"
  "map_of xs 41 = None \<Longrightarrow> sh_seen (xs @ [(41, d)]) = sh_seen xs OR 4" "map_of xs 44 = None \<Longrightarrow> sh_seen (xs @ [(44, d)]) = sh_seen xs OR 8"
  by (simp_all add: sh_seen_def map_of_snoc del: map_of_append split: option.split)

lemma key_share_exact:
  assumes "(rc, e, info') = parse_key_share (rb_init d (length d)) info False"
  shows "rc = CH_OK \<and> \<not> (rb_err e \<or> rb_left e \<noteq> 0) \<longleftrightarrow> (\<exists>pub. length pub = 32 \<and> d = be16 0x1d @ vec16 pub)"
    "rc = CH_OK \<Longrightarrow> \<not> (rb_err e \<or> rb_left e \<noteq> 0) \<Longrightarrow> info' = info\<lparr>si_server_pub := drop 4 d, si_group := 0x1d, si_have_share := True\<rparr>"
proof -
  let ?r = "rb_init d (length d)"
  define r1 g where "r1 = snd (rb_u16 ?r)" and "g = fst (rb_u16 ?r)"
  define r2 n where "r2 = snd (rb_u16 r1)" and "n = fst (rb_u16 r1)"
  define r3 p where "r3 = snd (rb_bytes r2 32)" and "p = fst (rb_bytes r2 32)"
  have k: "parse_key_share ?r info False = (if g \<noteq> 0x1d then (CH_EPROTO, r1, info) else if n \<noteq> 32 then (CH_EPROTO, r2, info) else
      case p of None \<Rightarrow> (CH_EPROTO, r3, info) | Some pub \<Rightarrow> (CH_OK, r3, info\<lparr>si_server_pub := pub, si_group := g, si_have_share := True\<rparr>))"
    by (simp add: parse_key_share_def case_prod_beta Let_def r1_def g_def r2_def n_def r3_def p_def CH_KEX_GROUP_def CH_GROUP_X25519_def
        CH_KEX_SERVER_SHARE_def X25519_LEN_def split: option.split)
  have wf: "rb_wf r1" "rb_wf r2" "rb_wf r3" by (simp_all add: r1_def r2_def r3_def body_init rb_u16_wf rb_bytes_wf)
  note s1 = rb_u16_step [OF body_init(1) [of d], folded r1_def g_def] and s2 = rb_u16_step [OF wf(1), folded r2_def n_def]
    and s3 = rb_bytes_step [OF wf(2), where n = 32, folded r3_def p_def]
  have ok: "g = 0x1d \<and> n = 32 \<and> p = Some pub \<and> rb_view r3 = Some [] \<longleftrightarrow> length pub = 32 \<and> d = be16 0x1d @ vec16 pub" for pub
  proof
    assume a: "g = 0x1d \<and> n = 32 \<and> p = Some pub \<and> rb_view r3 = Some []"
    then obtain bs where "length bs = 32" "p = Some bs" "rb_view r2 = Some bs" using s3(2) [of "[]"] by auto
    then show "length pub = 32 \<and> d = be16 0x1d @ vec16 pub" using a s1(2) [OF s2(2), of pub] body_init(2) [of d] by (simp add: vec16_def)
  next
    assume a: "length pub = 32 \<and> d = be16 0x1d @ vec16 pub"
    then have v: "rb_view ?r = Some (be16 0x1d @ be16 32 @ pub)" using body_init(2) [of d] by (simp add: vec16_def)
    from s1(1) [OF v] have 1: "g = 0x1d" "rb_view r1 = Some (be16 32 @ pub)" by simp_all
    from s2(1) [OF 1(2)] have 2: "n = 32" "rb_view r2 = Some (pub @ [])" by simp_all
    from s3(1) [OF 2(2)] a 1 2 show "g = 0x1d \<and> n = 32 \<and> p = Some pub \<and> rb_view r3 = Some []" by simp
  qed
  note out = read_out [OF wf(3)]
  show "rc = CH_OK \<and> \<not> (rb_err e \<or> rb_left e \<noteq> 0) \<longleftrightarrow> (\<exists>pub. length pub = 32 \<and> d = be16 0x1d @ vec16 pub)"
  proof -
    have "rc = CH_OK \<and> \<not> (rb_err e \<or> rb_left e \<noteq> 0) \<longleftrightarrow> (\<exists>pub. g = 0x1d \<and> n = 32 \<and> p = Some pub \<and> rb_view r3 = Some [])"
      using assms out unfolding k by (cases p) (auto split: if_splits)
    then show ?thesis unfolding ok .
  qed
  show "info' = info\<lparr>si_server_pub := drop 4 d, si_group := 0x1d, si_have_share := True\<rparr>" if "rc = CH_OK" "\<not> (rb_err e \<or> rb_left e \<noteq> 0)"
  proof -
    from assms that(1) obtain pub where p: "g = 0x1d" "n = 32" "p = Some pub" "e = r3"
      "info' = info\<lparr>si_server_pub := pub, si_group := g, si_have_share := True\<rparr>"
      unfolding k by (cases p) (auto split: if_splits)
    then have "d = be16 0x1d @ vec16 pub" using ok [of pub] out that(2) by blast
    then show ?thesis using p by (simp add: vec16_def)
  qed
qed

lemma cookie_exact:
  assumes "(rc, e, info') = parse_cookie (rb_init d (length d)) info True"
  shows "rc = CH_OK \<and> \<not> (rb_err e \<or> rb_left e \<noteq> 0) \<longleftrightarrow> (\<exists>cookie. length cookie \<le> 128 \<and> d = vec16 cookie)"
    "rc = CH_OK \<Longrightarrow> \<not> (rb_err e \<or> rb_left e \<noteq> 0) \<Longrightarrow> info' = info\<lparr>si_cookie_len := length d - 2, si_cookie := Some (drop 2 d)\<rparr>"
proof -
  let ?r = "rb_init d (length d)"
  define r1 n where "r1 = snd (rb_u16 ?r)" and "n = unat (fst (rb_u16 ?r))"
  define r2 c where "r2 = snd (rb_bytes r1 n)" and "c = fst (rb_bytes r1 n)"
  have k: "parse_cookie ?r info True = (if c = None \<or> n > 128 then CH_EPROTO else CH_OK, r2, info\<lparr>si_cookie_len := n, si_cookie := c\<rparr>)"
    by (simp add: parse_cookie_def case_prod_beta Let_def r1_def n_def r2_def c_def HSP_COOKIE_MAX_def)
  note s = rb_vec16_step [OF body_init(1) [of d], folded r1_def n_def, folded r2_def c_def]
  have ok: "c = Some bs \<and> n \<le> 128 \<and> rb_view r2 = Some [] \<longleftrightarrow> length bs \<le> 128 \<and> n = length bs \<and> d = vec16 bs" for bs
  proof
    assume a: "c = Some bs \<and> n \<le> 128 \<and> rb_view r2 = Some []"
    then obtain cs where cs: "length cs < 65536" "d = vec16 cs" using s(3) [of "[]"] body_init(2) [of d] by auto
    then show "length bs \<le> 128 \<and> n = length bs \<and> d = vec16 bs" using s(2) [of cs "[]"] body_init(2) [of d] a by auto
  next
    assume "length bs \<le> 128 \<and> n = length bs \<and> d = vec16 bs"
    then show "c = Some bs \<and> n \<le> 128 \<and> rb_view r2 = Some []" using s(2) [of bs "[]"] body_init(2) [of d] by auto
  qed
  have len: "d = vec16 bs \<Longrightarrow> length bs \<le> 128 \<Longrightarrow> n = length bs" for bs using s(2) [of bs "[]"] body_init(2) [of d] by auto
  note out = read_out [OF s(1)]
  show "rc = CH_OK \<and> \<not> (rb_err e \<or> rb_left e \<noteq> 0) \<longleftrightarrow> (\<exists>cookie. length cookie \<le> 128 \<and> d = vec16 cookie)"
  proof -
    have "rc = CH_OK \<and> \<not> (rb_err e \<or> rb_left e \<noteq> 0) \<longleftrightarrow> (\<exists>bs. c = Some bs \<and> n \<le> 128 \<and> rb_view r2 = Some [])"
      using assms out unfolding k by (auto simp: not_less split: if_splits)
    also have "\<dots> \<longleftrightarrow> (\<exists>cookie. length cookie \<le> 128 \<and> d = vec16 cookie)" unfolding ok using len by blast
    finally show ?thesis .
  qed
  show "info' = info\<lparr>si_cookie_len := length d - 2, si_cookie := Some (drop 2 d)\<rparr>" if "rc = CH_OK" "\<not> (rb_err e \<or> rb_left e \<noteq> 0)"
    using assms that out ok unfolding k by (auto simp: vec16_def not_less split: if_splits)
qed

lemma ext_codes_distinct: "EXT_KEY_SHARE \<noteq> EXT_SUPPORTED_VERSIONS" "EXT_PRE_SHARED_KEY \<noteq> EXT_SUPPORTED_VERSIONS" "EXT_COOKIE \<noteq> EXT_SUPPORTED_VERSIONS"
  "EXT_PRE_SHARED_KEY \<noteq> EXT_KEY_SHARE" "EXT_COOKIE \<noteq> EXT_KEY_SHARE" "EXT_COOKIE \<noteq> EXT_PRE_SHARED_KEY"
  by (simp_all add: ext_codes)

lemma arm_versions: "fst (sh_arm 43 d (length d) info hrr) = CH_OK \<longleftrightarrow> length d = 2"
  "length d = 2 \<Longrightarrow> snd (sh_arm 43 d (length d) info hrr) = info\<lparr>si_version_ok := (d = [3, 4])\<rparr>"
proof -
  obtain v e where r: "(v, e) = rb_u16 (rb_init d (length d))" by (metis surj_pair)
  have a: "sh_arm 43 d (length d) info hrr = (if rb_err e \<or> rb_left e \<noteq> 0 then CH_EPROTO else CH_OK, info\<lparr>si_version_ok := (v = TLS13)\<rparr>)"
    by (simp add: sh_arm_def ext_codes Let_def r [symmetric])
  note b = body_u16 [OF r]
  show "fst (sh_arm 43 d (length d) info hrr) = CH_OK \<longleftrightarrow> length d = 2" unfolding a using b(2) by auto
  have "be16 TLS13 = [3, 4]" by (simp add: be16_list TLS13_def)
  then show "snd (sh_arm 43 d (length d) info hrr) = info\<lparr>si_version_ok := (d = [3, 4])\<rparr>" if "length d = 2"
    unfolding a using b(3) [OF that] be16_inject [of v TLS13] by simp
qed

lemma arm_psk: "fst (sh_arm 41 d (length d) info hrr) = CH_OK \<longleftrightarrow> length d = 2"
  "length d = 2 \<Longrightarrow> snd (sh_arm 41 d (length d) info hrr) = info\<lparr>si_psk_ok := (d = [0, 0])\<rparr>"
proof -
  obtain v e where r: "(v, e) = rb_u16 (rb_init d (length d))" by (metis surj_pair)
  have a: "sh_arm 41 d (length d) info hrr = (if rb_err e \<or> rb_left e \<noteq> 0 then CH_EPROTO else CH_OK, info\<lparr>si_psk_ok := (v = 0)\<rparr>)"
    by (simp add: sh_arm_def ext_codes Let_def r [symmetric])
  note b = body_u16 [OF r]
  show "fst (sh_arm 41 d (length d) info hrr) = CH_OK \<longleftrightarrow> length d = 2" unfolding a using b(2) by auto
  have "be16 0 = [0, 0]" by (simp add: be16_list)
  then show "snd (sh_arm 41 d (length d) info hrr) = info\<lparr>si_psk_ok := (d = [0, 0])\<rparr>" if "length d = 2"
    unfolding a using b(3) [OF that] be16_inject [of v 0] by simp
qed

lemma arm_share: "fst (sh_arm 51 d (length d) info hrr) = CH_OK \<longleftrightarrow> \<not> hrr \<and> (\<exists>pub. length pub = 32 \<and> d = be16 0x1d @ vec16 pub)"
  "fst (sh_arm 51 d (length d) info hrr) = CH_OK \<Longrightarrow>
     snd (sh_arm 51 d (length d) info hrr) = info\<lparr>si_server_pub := drop 4 d, si_group := 0x1d, si_have_share := True\<rparr>"
proof -
  obtain rc e i where r: "(rc, e, i) = parse_key_share (rb_init d (length d)) info hrr" by (metis prod_cases3)
  have a: "sh_arm 51 d (length d) info hrr = (if rc \<noteq> CH_OK then rc else if rb_err e \<or> rb_left e \<noteq> 0 then CH_EPROTO else CH_OK, i)"
    by (simp add: sh_arm_def ext_codes Let_def r [symmetric])
  have h: "hrr \<Longrightarrow> rc = CH_EPROTO" using r by (simp add: parse_key_share_def)
  show "fst (sh_arm 51 d (length d) info hrr) = CH_OK \<longleftrightarrow> \<not> hrr \<and> (\<exists>pub. length pub = 32 \<and> d = be16 0x1d @ vec16 pub)"
    using h key_share_exact(1) [of rc e i d info] r unfolding a by (cases hrr) auto
  show "snd (sh_arm 51 d (length d) info hrr) = info\<lparr>si_server_pub := drop 4 d, si_group := 0x1d, si_have_share := True\<rparr>"
    if "fst (sh_arm 51 d (length d) info hrr) = CH_OK"
    using h key_share_exact(2) [of rc e i d info] r that unfolding a by (cases hrr) (auto split: if_splits)
qed

lemma arm_cookie: "fst (sh_arm 44 d (length d) info hrr) = CH_OK \<longleftrightarrow> hrr \<and> (\<exists>cookie. length cookie \<le> 128 \<and> d = vec16 cookie)"
  "fst (sh_arm 44 d (length d) info hrr) = CH_OK \<Longrightarrow>
     snd (sh_arm 44 d (length d) info hrr) = info\<lparr>si_cookie_len := length d - 2, si_cookie := Some (drop 2 d)\<rparr>"
proof -
  obtain rc e i where r: "(rc, e, i) = parse_cookie (rb_init d (length d)) info hrr" by (metis prod_cases3)
  have a: "sh_arm 44 d (length d) info hrr = (if rc \<noteq> CH_OK then rc else if rb_err e \<or> rb_left e \<noteq> 0 then CH_EPROTO else CH_OK, i)"
    by (simp add: sh_arm_def ext_codes Let_def r [symmetric])
  have h: "\<not> hrr \<Longrightarrow> rc = CH_EPROTO" using r by (simp add: parse_cookie_def)
  show "fst (sh_arm 44 d (length d) info hrr) = CH_OK \<longleftrightarrow> hrr \<and> (\<exists>cookie. length cookie \<le> 128 \<and> d = vec16 cookie)"
    using h cookie_exact(1) [of rc e i d info] r unfolding a by (cases hrr) auto
  show "snd (sh_arm 44 d (length d) info hrr) = info\<lparr>si_cookie_len := length d - 2, si_cookie := Some (drop 2 d)\<rparr>"
    if "fst (sh_arm 44 d (length d) info hrr) = CH_OK"
    using h cookie_exact(2) [of rc e i d info] r that unfolding a by (cases hrr) (auto split: if_splits)
qed

lemma ext_turn:
  assumes "rb_wf r"
  defines "r2 \<equiv> snd (rb_u16 (snd (rb_u16 r)))" and "ty \<equiv> fst (rb_u16 r)" and "len \<equiv> unat (fst (rb_u16 (snd (rb_u16 r))))"
  shows "parse_server_hello_ext r info hrr psk =
    (case fst (rb_bytes r2 len) of
       None \<Rightarrow> (CH_EPROTO, snd (rb_bytes r2 len), info)
     | Some d \<Rightarrow>
         if ty = EXT_PRE_SHARED_KEY \<and> (hrr \<or> \<not> psk) \<or> server_hello_ext_bit ty = 0 \<or> si_seen info AND server_hello_ext_bit ty \<noteq> 0
         then (CH_EPROTO, snd (rb_bytes r2 len), info)
         else (fst (sh_arm ty d len (info\<lparr>si_seen := si_seen info OR server_hello_ext_bit ty\<rparr>) hrr), snd (rb_bytes r2 len),
               snd (sh_arm ty d len (info\<lparr>si_seen := si_seen info OR server_hello_ext_bit ty\<rparr>) hrr)))"
  by (auto simp: parse_server_hello_ext_def case_prod_beta Let_def r2_def len_def ty_def split: option.split)

lemma bit_zero: "server_hello_ext_bit ty = 0 \<longleftrightarrow> ty \<notin> {43, 51, 41, 44}"
  by (simp add: server_hello_ext_bit_def ext_codes HSP_SEEN_PRE_SHARED_KEY_def)

lemma map_of_None: "map_of xs k = None \<longleftrightarrow> k \<notin> fst ` set xs"
  by (simp add: map_of_eq_None_iff)

lemma info_snoc:
  "map_of xs 43 = None \<Longrightarrow> sh_info hrr (xs @ [(43, d)]) = (sh_info hrr xs)\<lparr>si_seen := sh_seen xs OR 1, si_version_ok := (d = [3, 4])\<rparr>"
  "map_of xs 51 = None \<Longrightarrow> sh_info hrr (xs @ [(51, d)]) =
     (sh_info hrr xs)\<lparr>si_seen := sh_seen xs OR 2, si_server_pub := drop 4 d, si_group := 0x1d, si_have_share := True\<rparr>"
  "map_of xs 41 = None \<Longrightarrow> sh_info hrr (xs @ [(41, d)]) = (sh_info hrr xs)\<lparr>si_seen := sh_seen xs OR 4, si_psk_ok := (d = [0, 0])\<rparr>"
  "map_of xs 44 = None \<Longrightarrow> sh_info hrr (xs @ [(44, d)]) =
     (sh_info hrr xs)\<lparr>si_seen := sh_seen xs OR 8, si_cookie_len := length d - 2, si_cookie := Some (drop 2 d)\<rparr>"
  by (simp_all add: sh_info_def map_of_snoc sh_seen_snoc del: map_of_append split: option.split)

lemma ext_bits: "server_hello_ext_bit 43 = 1" "server_hello_ext_bit 51 = 2" "server_hello_ext_bit 41 = 4" "server_hello_ext_bit 44 = 8"
  by (simp_all add: server_hello_ext_bit_def ext_codes HSP_SEEN_PRE_SHARED_KEY_def)

lemma sh_step:
  assumes "(rc, i) = sh_arm ty d (length d) ((sh_info hrr xs)\<lparr>si_seen := sh_seen xs OR server_hello_ext_bit ty\<rparr>) hrr"
    and "ty \<notin> fst ` set xs" "ty \<in> {43, 51, 41, 44}" "ty = 41 \<Longrightarrow> psk \<and> \<not> hrr"
  shows "rc = CH_OK \<longleftrightarrow> sh_ext_ok hrr psk (ty, d)" "rc = CH_OK \<Longrightarrow> i = sh_info hrr (xs @ [(ty, d)])"
proof -
  let ?i = "(sh_info hrr xs)\<lparr>si_seen := sh_seen xs OR server_hello_ext_bit ty\<rparr>"
  have a: "rc = fst (sh_arm ty d (length d) ?i hrr)" "i = snd (sh_arm ty d (length d) ?i hrr)" using assms(1) by (simp_all add: prod_eq_iff)
  have m: "map_of xs ty = None" using assms(2) by (simp add: map_of_None)
  consider "ty = 43" | "ty = 51" | "ty = 41" | "ty = 44" using assms(3) by blast
  then have "(rc = CH_OK \<longleftrightarrow> sh_ext_ok hrr psk (ty, d)) \<and> (rc = CH_OK \<longrightarrow> i = sh_info hrr (xs @ [(ty, d)]))"
  proof cases
    case 1
    then show ?thesis using arm_versions [of d ?i hrr] a m by (auto simp: sh_ext_ok_def info_snoc ext_bits)
  next
    case 2
    then show ?thesis using arm_share [of d ?i hrr] a m by (auto simp: sh_ext_ok_def info_snoc ext_bits)
  next
    case 3
    then show ?thesis using arm_psk [of d ?i hrr] a m assms(4) by (auto simp: sh_ext_ok_def info_snoc ext_bits)
  next
    case 4
    then show ?thesis using arm_cookie [of d ?i hrr] a m by (auto simp: sh_ext_ok_def info_snoc ext_bits)
  qed
  then show "rc = CH_OK \<longleftrightarrow> sh_ext_ok hrr psk (ty, d)" "rc = CH_OK \<Longrightarrow> i = sh_info hrr (xs @ [(ty, d)])" by simp_all
qed

lemma sh_turn:
  assumes "rb_wf r" "(rc, r', i) = parse_server_hello_ext r (sh_info hrr xs) hrr psk"
  shows "rc = CH_OK \<longleftrightarrow> (\<exists>d rest. rb_view r = Some (ext_wire (fst (rb_u16 r), d) @ rest) \<and> length d < 65536 \<and>
      fst (rb_u16 r) \<notin> fst ` set xs \<and> sh_ext_ok hrr psk (fst (rb_u16 r), d))"
    "rc = CH_OK \<Longrightarrow> \<exists>d rest. rb_view r = Some (ext_wire (fst (rb_u16 r), d) @ rest) \<and> length d < 65536 \<and> fst (rb_u16 r) \<notin> fst ` set xs \<and>
      sh_ext_ok hrr psk (fst (rb_u16 r), d) \<and> i = sh_info hrr (xs @ [(fst (rb_u16 r), d)]) \<and> rb_view r' = Some rest"
    "rb_wf r'"
proof -
  define ty r2 len where "ty = fst (rb_u16 r)" and "r2 = snd (rb_u16 (snd (rb_u16 r)))" and "len = unat (fst (rb_u16 (snd (rb_u16 r))))"
  note e = ext_read [OF assms(1), folded r2_def len_def, folded ty_def]
  note t = ext_turn [OF assms(1), of "sh_info hrr xs" hrr psk, folded r2_def len_def, folded ty_def]
  let ?ok = "\<not> (ty = EXT_PRE_SHARED_KEY \<and> (hrr \<or> \<not> psk) \<or> server_hello_ext_bit ty = 0 \<or> sh_seen xs AND server_hello_ext_bit ty \<noteq> 0)"
  have r': "r' = snd (rb_bytes r2 len)" using assms(2) unfolding t by (auto split: option.splits if_splits)
  then show "rb_wf r'" using e(1) by simp
  have ok: "?ok \<longleftrightarrow> ty \<notin> fst ` set xs \<and> ty \<in> {43, 51, 41, 44} \<and> (ty = 41 \<longrightarrow> psk \<and> \<not> hrr)"
    using sh_seen_test [of xs] by (auto simp: server_hello_ext_bit_def ext_codes HSP_SEEN_PRE_SHARED_KEY_def map_of_None)
  have okd: "sh_ext_ok hrr psk (ty, d) \<Longrightarrow> ty \<in> {43, 51, 41, 44} \<and> (ty = 41 \<longrightarrow> psk \<and> \<not> hrr)" for d by (auto simp: sh_ext_ok_def)
  have step: "(rc = CH_OK \<longleftrightarrow> ty \<notin> fst ` set xs \<and> sh_ext_ok hrr psk (ty, d)) \<and> (rc = CH_OK \<longrightarrow> i = sh_info hrr (xs @ [(ty, d)]))"
    if d: "fst (rb_bytes r2 len) = Some d" for d
  proof (cases ?ok)
    case False
    then have "rc = CH_EPROTO" using assms(2) d unfolding t by (auto simp: sh_info_def)
    moreover have "\<not> (ty \<notin> fst ` set xs \<and> sh_ext_ok hrr psk (ty, d))" using False ok okd [of d] by blast
    ultimately show ?thesis by simp
  next
    case True
    have seen: "si_seen (sh_info hrr xs) = sh_seen xs" by (simp add: sh_info_def)
    have "len = length d" using e(3) [OF d] by blast
    then have "(rc, i) = sh_arm ty d (length d) ((sh_info hrr xs)\<lparr>si_seen := sh_seen xs OR server_hello_ext_bit ty\<rparr>) hrr"
      using assms(2) unfolding t d seen option.case if_not_P [OF True [unfolded not_not]] by (simp only: prod.inject prod.collapse)
    from sh_step [OF this, of psk] ok [THEN iffD1, OF True] show ?thesis by simp
  qed
  have none: "rc \<noteq> CH_OK" if "fst (rb_bytes r2 len) = None" using assms(2) that unfolding t by simp
  have whole: "fst (rb_bytes r2 len) = Some d \<and> rb_view r' = Some rest" if "rb_view r = Some (ext_wire (ty, d) @ rest)" "length d < 65536" for d rest
    using e(2) [of "(ty, d)" rest, simplified] that unfolding r' by blast
  show 1: "rc = CH_OK \<Longrightarrow> \<exists>d rest. rb_view r = Some (ext_wire (fst (rb_u16 r), d) @ rest) \<and> length d < 65536 \<and> fst (rb_u16 r) \<notin> fst ` set xs \<and>
      sh_ext_ok hrr psk (fst (rb_u16 r), d) \<and> i = sh_info hrr (xs @ [(fst (rb_u16 r), d)]) \<and> rb_view r' = Some rest"
  proof -
    assume rc: "rc = CH_OK"
    then obtain d where d: "fst (rb_bytes r2 len) = Some d" using none by (cases "fst (rb_bytes r2 len)") simp_all
    from e(3) [OF d] obtain rest where "rb_view r = Some (ext_wire (ty, d) @ rest)" "length d < 65536" "rb_view r' = Some rest" using r' by auto
    with step [OF d] rc show ?thesis unfolding ty_def [symmetric] by blast
  qed
  show "rc = CH_OK \<longleftrightarrow> (\<exists>d rest. rb_view r = Some (ext_wire (fst (rb_u16 r), d) @ rest) \<and> length d < 65536 \<and>
      fst (rb_u16 r) \<notin> fst ` set xs \<and> sh_ext_ok hrr psk (fst (rb_u16 r), d))"
  proof
    assume "rc = CH_OK"
    from 1 [OF this] show "\<exists>d rest. rb_view r = Some (ext_wire (fst (rb_u16 r), d) @ rest) \<and> length d < 65536 \<and>
      fst (rb_u16 r) \<notin> fst ` set xs \<and> sh_ext_ok hrr psk (fst (rb_u16 r), d)" by blast
  next
    assume "\<exists>d rest. rb_view r = Some (ext_wire (fst (rb_u16 r), d) @ rest) \<and> length d < 65536 \<and>
      fst (rb_u16 r) \<notin> fst ` set xs \<and> sh_ext_ok hrr psk (fst (rb_u16 r), d)"
    then obtain d rest where d: "rb_view r = Some (ext_wire (ty, d) @ rest)" "length d < 65536" "ty \<notin> fst ` set xs" "sh_ext_ok hrr psk (ty, d)"
      unfolding ty_def [symmetric] by blast
    from step [of d] whole [OF d(1,2)] d(3,4) show "rc = CH_OK" by simp
  qed
qed

lemma ext_wire_Nil [simp]: "ext_wire x \<noteq> []" "length (ext_wire x) = 4 + length (snd x)"
  by (simp_all add: ext_wire_def vec16_def be16_def)

lemma sh_ext_short: "sh_ext_ok hrr psk x \<Longrightarrow> length (snd x) < 65536"
  by (auto simp: sh_ext_ok_def vec16_def)

lemma sh_exts_exact:
  assumes "rb_wf r" "rb_view r = Some bs" "sh_exts_ok hrr psk xs"
  shows "server_hello_exts r (sh_info hrr xs) psk = (CH_OK, info) \<longleftrightarrow>
    (\<exists>ys. bs = exts_wire ys \<and> sh_exts_ok hrr psk (xs @ ys) \<and> map_of (xs @ ys) 43 = Some [3, 4] \<and> info = sh_info hrr (xs @ ys))"
  using assms
proof (induction "length bs" arbitrary: r bs xs rule: less_induct)
  case less
  have left: "rb_left r = length bs" using less.prems(1,2) by (simp add: rb_left_view)
  show ?case
  proof (cases "bs = []")
    case True
    have "server_hello_exts r (sh_info hrr xs) psk = (if map_of xs 43 = Some [3, 4] then CH_OK else CH_EPROTO, sh_info hrr xs)"
      using True left by (subst server_hello_exts.simps) (simp add: sh_info_def)
    moreover have "bs = exts_wire ys \<longleftrightarrow> ys = []" for ys using True by (cases ys) simp_all
    ultimately show ?thesis using less.prems(3) by (simp; blast)
  next
    case False
    obtain rc r' i where t: "(rc, r', i) = parse_server_hello_ext r (sh_info hrr xs) hrr psk" by (metis prod_cases3)
    let ?ty = "fst (rb_u16 r)"
    note turn = sh_turn [OF less.prems(1) t]
    have step: "server_hello_exts r (sh_info hrr xs) psk = (if rc \<noteq> CH_OK then (rc, i) else server_hello_exts r' i psk)"
      using left False t [symmetric] by (subst server_hello_exts.simps) (simp add: sh_info_def)
    have first: "?ty = fst y" if "bs = ext_wire y @ rest" for y rest
    proof -
      have "rb_view r = Some (be16 (fst y) @ vec16 (snd y) @ rest)" using less.prems(2) that by (simp add: ext_wire_def)
      then show ?thesis using rb_u16_step(1) [OF less.prems(1)] by blast
    qed
    show ?thesis
    proof (cases "rc = CH_OK")
      case True
      obtain d rest where d: "bs = ext_wire (?ty, d) @ rest" "length d < 65536" "?ty \<notin> fst ` set xs"
        "sh_ext_ok hrr psk (?ty, d)" "i = sh_info hrr (xs @ [(?ty, d)])" "rb_view r' = Some rest"
      proof (rule exE [OF turn(2) [OF True]], erule exE)
        fix d rest
        assume a: "rb_view r = Some (ext_wire (?ty, d) @ rest) \<and> length d < 65536 \<and> ?ty \<notin> fst ` set xs \<and>
          sh_ext_ok hrr psk (?ty, d) \<and> i = sh_info hrr (xs @ [(?ty, d)]) \<and> rb_view r' = Some rest"
        then have "bs = ext_wire (?ty, d) @ rest" using less.prems(2) by (simp only: option.inject)
        with a show thesis by (intro that [of d rest]) blast+
      qed
      have ok: "sh_exts_ok hrr psk (xs @ [(?ty, d)])" using less.prems(3) d(3,4) by (auto simp: sh_exts_ok_def)
      have lt: "length rest < length bs" using d(1) by simp
      have iff: "bs = exts_wire ys \<and> sh_exts_ok hrr psk (xs @ ys) \<longleftrightarrow>
        (\<exists>zs. ys = (?ty, d) # zs \<and> rest = exts_wire zs \<and> sh_exts_ok hrr psk ((xs @ [(?ty, d)]) @ zs))" for ys
      proof (cases ys)
        case (Cons y zs)
        have "y = (?ty, d) \<and> rest = exts_wire zs" if a: "bs = exts_wire ys" "sh_ext_ok hrr psk y"
        proof -
          have b: "bs = ext_wire y @ exts_wire zs" using a(1) Cons by simp
          note p = ext_read(2) [OF less.prems(1)]
          have v: "rb_view r = Some (ext_wire y @ exts_wire zs)" "rb_view r = Some (ext_wire (?ty, d) @ rest)" using b d(1) less.prems(2) by simp_all
          have "Some (snd y) = Some d" "Some (exts_wire zs) = Some rest" "fst y = ?ty"
            using p [OF v(1) sh_ext_short [OF a(2)]] p [OF v(2), unfolded snd_conv, OF d(2)] unfolding fst_conv snd_conv by metis+
          then show ?thesis by (simp add: prod_eq_iff)
        qed
        moreover have "sh_exts_ok hrr psk (xs @ y # zs) \<Longrightarrow> sh_ext_ok hrr psk y" by (simp add: sh_exts_ok_def)
        ultimately show ?thesis using Cons d(1) by auto
      qed (use False in auto)
      have "server_hello_exts r (sh_info hrr xs) psk = (CH_OK, info) \<longleftrightarrow>
          (\<exists>zs. rest = exts_wire zs \<and> sh_exts_ok hrr psk ((xs @ [(?ty, d)]) @ zs) \<and> map_of ((xs @ [(?ty, d)]) @ zs) 43 = Some [3, 4] \<and>
            info = sh_info hrr ((xs @ [(?ty, d)]) @ zs))"
        unfolding step d(5) less.hyps [OF lt turn(3) d(6) ok, symmetric] using True by (simp only: simp_thms if_False)
      also have "\<dots> \<longleftrightarrow> (\<exists>ys. (bs = exts_wire ys \<and> sh_exts_ok hrr psk (xs @ ys)) \<and> map_of (xs @ ys) 43 = Some [3, 4] \<and> info = sh_info hrr (xs @ ys))"
        unfolding iff append_assoc append.simps by blast
      finally show ?thesis by (simp only: conj_assoc)
    next
      case False
      have "\<not> (bs = exts_wire ys \<and> sh_exts_ok hrr psk (xs @ ys))" for ys
      proof (cases ys)
        case (Cons y zs)
        show ?thesis
        proof
          assume a: "bs = exts_wire ys \<and> sh_exts_ok hrr psk (xs @ ys)"
          then have b: "bs = ext_wire y @ exts_wire zs" "sh_ext_ok hrr psk y" "fst y \<notin> fst ` set xs" using Cons by (auto simp: sh_exts_ok_def)
          then show False using turn(1) False first [OF b(1)] less.prems(2) sh_ext_short [OF b(2)] by (metis prod.collapse)
        qed
      qed (use \<open>bs \<noteq> []\<close> in auto)
      then show ?thesis unfolding step using False by auto
    qed
  qed
qed

lemma server_hello_fields:
  assumes "length random = 32" "length exts < 65536" "body = [3, 3] @ random @ [0, 0x13, 3, 0] @ vec16 exts"
  shows "\<exists>r. rb_wf r \<and> rb_view r = Some exts \<and> hsp_parse_server_hello body info psk =
      server_hello_exts r (info\<lparr>si_hrr := (random = hsp_hrr_magic)\<rparr>) psk"
proof -
  define r0 where "r0 = rb_init body (length body)"
  define r1 where "r1 = snd (rb_u16 r0)"
  define r2 where "r2 = snd (rb_bytes r1 32)"
  define r3 where "r3 = snd (rb_u8 r2)"
  define r4 where "r4 = snd (rb_u16 r3)"
  define r5 where "r5 = snd (rb_u8 r4)"
  define r6 where "r6 = snd (rb_u16 r5)"
  have wf: "rb_wf r0" "rb_wf r1" "rb_wf r2" "rb_wf r3" "rb_wf r4" "rb_wf r5" "rb_wf r6"
    by (simp_all add: r0_def r1_def r2_def r3_def r4_def r5_def r6_def body_init rb_u16_wf rb_u8_wf rb_bytes_wf)
  have v0: "rb_view r0 = Some (be16 0x0303 @ random @ 0 # be16 0x1303 @ 0 # be16 (of_nat (length exts)) @ exts)"
    unfolding r0_def body_init(2) assms(3) by (simp add: be16_list vec16_def)
  from rb_u16_step(1) [OF wf(1) v0] have 1: "fst (rb_u16 r0) = 0x0303"
    "rb_view r1 = Some (random @ 0 # be16 0x1303 @ 0 # be16 (of_nat (length exts)) @ exts)" by (simp_all add: r1_def)
  from rb_bytes_step(1) [OF wf(2) 1(2), of 32] assms(1) have 2: "fst (rb_bytes r1 32) = Some random"
    "rb_view r2 = Some (0 # be16 0x1303 @ 0 # be16 (of_nat (length exts)) @ exts)" by (simp_all add: r2_def)
  from rb_u8_step(1) [OF wf(3) 2(2)] have 3: "fst (rb_u8 r2) = 0" "rb_view r3 = Some (be16 0x1303 @ 0 # be16 (of_nat (length exts)) @ exts)"
    by (simp_all add: r3_def)
  from rb_u16_step(1) [OF wf(4) 3(2)] have 4: "fst (rb_u16 r3) = 0x1303" "rb_view r4 = Some (0 # be16 (of_nat (length exts)) @ exts)"
    by (simp_all add: r4_def)
  from rb_u8_step(1) [OF wf(5) 4(2)] have 5: "fst (rb_u8 r4) = 0" "rb_view r5 = Some (be16 (of_nat (length exts)) @ exts)" by (simp_all add: r5_def)
  from rb_u16_step(1) [OF wf(6) 5(2)] have 6: "fst (rb_u16 r5) = of_nat (length exts)" "rb_view r6 = Some exts" by (simp_all add: r6_def)
  have "unat (fst (rb_u16 r5)) = rb_left r6" "\<not> rb_err r6" using 6 wf(7) assms(2) by (simp_all add: rb_left_view rb_err_view unat_of_nat)
  then have "hsp_parse_server_hello body info psk = server_hello_exts r6 (info\<lparr>si_hrr := (random = hsp_hrr_magic)\<rparr>) psk"
    using 1(1) 2(1) 3(1) 4(1) 5(1)
    unfolding hsp_parse_server_hello_def r0_def [symmetric] by (simp add: case_prod_beta Let_def r1_def [symmetric] r2_def [symmetric]
        r3_def [symmetric] r4_def [symmetric] r5_def [symmetric] r6_def [symmetric] SUITE_CHACHA20_POLY1305_SHA256_def)
  then show ?thesis using wf(7) 6(2) by blast
qed

lemma server_hello_shape:
  assumes "hsp_parse_server_hello body info psk = (CH_OK, i)"
  shows "\<exists>random exts. length random = 32 \<and> length exts < 65536 \<and> body = [3, 3] @ random @ [0, 0x13, 3, 0] @ vec16 exts"
proof -
  define r0 where "r0 = rb_init body (length body)"
  define r1 where "r1 = snd (rb_u16 r0)"
  define r2 where "r2 = snd (rb_bytes r1 32)"
  define r3 where "r3 = snd (rb_u8 r2)"
  define r4 where "r4 = snd (rb_u16 r3)"
  define r5 where "r5 = snd (rb_u8 r4)"
  define r6 where "r6 = snd (rb_u16 r5)"
  have wf: "rb_wf r0" "rb_wf r1" "rb_wf r2" "rb_wf r3" "rb_wf r4" "rb_wf r5" "rb_wf r6"
    by (simp_all add: r0_def r1_def r2_def r3_def r4_def r5_def r6_def body_init rb_u16_wf rb_u8_wf rb_bytes_wf)
  have c: "fst (rb_u16 r0) = 0x0303" "fst (rb_u8 r2) = 0" "fst (rb_u16 r3) = 0x1303" "fst (rb_u8 r4) = 0" "\<not> rb_err r6"
    "unat (fst (rb_u16 r5)) = rb_left r6"
    using assms unfolding hsp_parse_server_hello_def r0_def [symmetric]
    by (auto simp: case_prod_beta Let_def r1_def [symmetric] r2_def [symmetric] r3_def [symmetric] r4_def [symmetric] r5_def [symmetric]
        r6_def [symmetric] SUITE_CHACHA20_POLY1305_SHA256_def split: option.splits if_splits)
  obtain exts where e: "rb_view r6 = Some exts" using c(5) by (auto simp: rb_err_view)
  have len: "unat (fst (rb_u16 r5)) = length exts" using c(6) e wf(7) by (simp add: rb_left_view)
  then have n: "fst (rb_u16 r5) = of_nat (length exts)" "length exts < 65536" using unat_u16_less [of "fst (rb_u16 r5)"] by (simp_all flip: len)
  from rb_u16_step(2) [OF wf(6) e [unfolded r6_def]] have 5: "rb_view r5 = Some (vec16 exts)" by (simp add: n vec16_def)
  from rb_u8_step(2) [OF wf(5) 5 [unfolded r5_def]] have 4: "rb_view r4 = Some (0 # vec16 exts)" by (simp add: c)
  from rb_u16_step(2) [OF wf(4) 4 [unfolded r4_def]] have 3: "rb_view r3 = Some ([0x13, 3] @ 0 # vec16 exts)" by (simp add: c be16_list)
  from rb_u8_step(2) [OF wf(3) 3 [unfolded r3_def]] have 2: "rb_view r2 = Some ([0, 0x13, 3, 0] @ vec16 exts)" by (simp add: c)
  from rb_bytes_step(2) [OF wf(2) 2 [unfolded r2_def]] obtain random where random: "length random = 32" "rb_view r1 = Some (random @ [0, 0x13, 3, 0] @ vec16 exts)" by blast
  from rb_u16_step(2) [OF wf(1) random(2) [unfolded r1_def]] have "rb_view r0 = Some ([3, 3] @ random @ [0, 0x13, 3, 0] @ vec16 exts)"
    by (simp add: c be16_list)
  then show ?thesis using random(1) n(2) body_init(2) [of body] by (auto simp: r0_def)
qed

section \<open>ServerHello\<close>

text \<open>The information a caller passes in, zero.\<close>

definition info_zero :: server_hello_info where
  "info_zero = \<lparr>si_hrr = False, si_version_ok = False, si_have_share = False, si_psk_ok = False, si_seen = 0, si_group = 0,
     si_server_pub = replicate 32 0, si_cookie = None, si_cookie_len = 0\<rparr>"

lemma info_zero_hrr: "info_zero\<lparr>si_hrr := hrr\<rparr> = sh_info hrr []"
  by (simp add: info_zero_def sh_info_def sh_seen_def)

lemma server_hello_accepts:
  "hsp_parse_server_hello body info_zero psk = (CH_OK, info) \<longleftrightarrow>
     (\<exists>random xs. length random = 32 \<and> length (exts_wire xs) < 65536 \<and> body = sh_wire random xs \<and> sh_exts_ok (random = hsp_hrr_magic) psk xs \<and>
       map_of xs 43 = Some [3, 4] \<and> info = sh_info (random = hsp_hrr_magic) xs)"
proof
  assume a: "hsp_parse_server_hello body info_zero psk = (CH_OK, info)"
  then obtain random exts where b: "length random = 32" "length exts < 65536" "body = [3, 3] @ random @ [0, 0x13, 3, 0] @ vec16 exts"
    using server_hello_shape by blast
  from server_hello_fields [OF b, of info_zero psk] obtain r where r: "rb_wf r" "rb_view r = Some exts"
    "hsp_parse_server_hello body info_zero psk = server_hello_exts r (sh_info (random = hsp_hrr_magic) []) psk"
    unfolding info_zero_hrr by blast
  have "sh_exts_ok (random = hsp_hrr_magic) psk []" by (simp add: sh_exts_ok_def)
  from sh_exts_exact [OF r(1,2) this, of info] a r(3) b
  show "\<exists>random xs. length random = 32 \<and> length (exts_wire xs) < 65536 \<and> body = sh_wire random xs \<and> sh_exts_ok (random = hsp_hrr_magic) psk xs \<and>
       map_of xs 43 = Some [3, 4] \<and> info = sh_info (random = hsp_hrr_magic) xs"
    unfolding sh_wire_def by auto
next
  assume "\<exists>random xs. length random = 32 \<and> length (exts_wire xs) < 65536 \<and> body = sh_wire random xs \<and> sh_exts_ok (random = hsp_hrr_magic) psk xs \<and>
       map_of xs 43 = Some [3, 4] \<and> info = sh_info (random = hsp_hrr_magic) xs"
  then obtain random xs where b: "length random = 32" "length (exts_wire xs) < 65536" "body = [3, 3] @ random @ [0, 0x13, 3, 0] @ vec16 (exts_wire xs)"
    "sh_exts_ok (random = hsp_hrr_magic) psk xs" "map_of xs 43 = Some [3, 4]" "info = sh_info (random = hsp_hrr_magic) xs"
    unfolding sh_wire_def by blast
  from server_hello_fields [OF b(1-3), of info_zero psk] obtain r where r: "rb_wf r" "rb_view r = Some (exts_wire xs)"
    "hsp_parse_server_hello body info_zero psk = server_hello_exts r (sh_info (random = hsp_hrr_magic) []) psk"
    unfolding info_zero_hrr by blast
  have "sh_exts_ok (random = hsp_hrr_magic) psk []" by (simp add: sh_exts_ok_def)
  from sh_exts_exact [OF r(1,2) this, of info] b(4-6) show "hsp_parse_server_hello body info_zero psk = (CH_OK, info)"
    unfolding r(3) by (simp del: append.simps add: append_Nil) blast
qed

section \<open>EncryptedExtensions\<close>

definition ee_ext_ok :: "u16 \<times> bytes \<Rightarrow> bool" where
  "ee_ext_ok x \<longleftrightarrow> length (snd x) < 65536 \<and> (fst x = 10 \<or> fst x = 28 \<and> (\<exists>limit. 64 \<le> limit \<and> snd x = be16 limit))"

definition ee_exts_ok :: "(u16 \<times> bytes) list \<Rightarrow> bool" where
  "ee_exts_ok xs \<longleftrightarrow> distinct (map fst xs) \<and> list_all ee_ext_ok xs"

text \<open>The send limit after the message: the record size limit less the type byte, where it is lower.\<close>

definition ee_limit :: "u16 \<Rightarrow> (u16 \<times> bytes) list \<Rightarrow> u16" where
  "ee_limit lim xs = (case map_of xs 28 of None \<Rightarrow> lim | Some d \<Rightarrow> min lim (of_nat (be_nat d - 1)))"

definition ee_seen :: "(u16 \<times> bytes) list \<Rightarrow> u8" where
  "ee_seen xs = (if map_of xs 28 = None then 0 else 1) OR (if map_of xs 10 = None then 0 else 2)"

lemma ee_seen_test: "ee_seen xs AND 1 \<noteq> 0 \<longleftrightarrow> map_of xs 28 \<noteq> None" "ee_seen xs AND 2 \<noteq> 0 \<longleftrightarrow> map_of xs 10 \<noteq> None"
  by (simp_all add: ee_seen_def)

lemma ee_snoc:
  "map_of xs 28 = None \<Longrightarrow> ee_seen (xs @ [(28, d)]) = ee_seen xs OR 1" "map_of xs 10 = None \<Longrightarrow> ee_seen (xs @ [(10, d)]) = ee_seen xs OR 2"
  "ee_limit lim (xs @ [(10, d)]) = ee_limit lim xs"
  "map_of xs 28 = None \<Longrightarrow> ee_limit lim (xs @ [(28, d)]) = min (ee_limit lim xs) (of_nat (be_nat d - 1))"
  by (simp_all add: ee_seen_def ee_limit_def map_of_snoc del: map_of_append split: option.split)

lemma record_size_limit_exact:
  "fst (parse_record_size_limit d (length d) lim) = CH_OK \<longleftrightarrow> (\<exists>limit. 64 \<le> limit \<and> d = be16 limit)"
  "fst (parse_record_size_limit d (length d) lim) = CH_OK \<Longrightarrow> snd (parse_record_size_limit d (length d) lim) = min lim (of_nat (be_nat d - 1))"
proof -
  obtain v e where r: "(v, e) = rb_u16 (rb_init d (length d))" by (metis surj_pair)
  note b = body_u16 [OF r]
  have p: "parse_record_size_limit d (length d) lim =
      (if rb_err e \<or> rb_left e \<noteq> 0 \<or> v < 64 then (CH_EPROTO, lim) else (CH_OK, if v - 1 < lim then v - 1 else lim))"
    by (simp add: parse_record_size_limit_def Let_def r [symmetric])
  have ok: "fst (parse_record_size_limit d (length d) lim) = CH_OK \<longleftrightarrow> length d = 2 \<and> 64 \<le> v"
    unfolding p using b(2) by (auto simp: not_less)
  have "be16 w = d \<Longrightarrow> w = v" for w using b(3) be16_inject [of w v] by auto
  then show "fst (parse_record_size_limit d (length d) lim) = CH_OK \<longleftrightarrow> (\<exists>limit. 64 \<le> limit \<and> d = be16 limit)"
    unfolding ok using b(3) by (metis length_be16)
  assume a: "fst (parse_record_size_limit d (length d) lim) = CH_OK"
  then have "d = be16 v" "64 \<le> v" using ok b(3) by simp_all
  moreover from this(2) have "of_nat (unat v - 1) = v - 1"
    by (simp add: word_le_nat_alt of_nat_diff)
  ultimately show "snd (parse_record_size_limit d (length d) lim) = min lim (of_nat (be_nat d - 1))"
    using a unfolding p by (auto simp: be_nat_be16 min_def split: if_splits)
qed

text \<open>One turn of the loop, on the extension in front of it.\<close>

lemma ee_turn:
  assumes "rb_wf r" "rb_view r = Some bs" "bs \<noteq> []"
  obtains (bad) "\<nexists>x rest. bs = ext_wire x @ rest \<and> length (snd x) < 65536" "fst (encrypted_exts r seen lim alert) = CH_EPROTO" "snd (snd (encrypted_exts r seen lim alert)) = alert"
  | (ext) ty d rest r' where "bs = ext_wire (ty, d) @ rest" "length d < 65536" "rb_wf r'" "rb_view r' = Some rest"
      "encrypted_exts r seen lim alert =
        (if ty = 28 then
           if fst (parse_record_size_limit d (length d) lim) \<noteq> CH_OK \<or> seen AND 1 \<noteq> 0 then (CH_EPROTO, snd (parse_record_size_limit d (length d) lim), alert)
           else encrypted_exts r' (seen OR 1) (snd (parse_record_size_limit d (length d) lim)) alert
         else if ty = 10 then if seen AND 2 \<noteq> 0 then (CH_EPROTO, lim, alert) else encrypted_exts r' (seen OR 2) lim alert
         else (CH_EPROTO, lim, ALERT_UNSUPPORTED_EXTENSION))"
proof -
  define ty r2 len where "ty = fst (rb_u16 r)" and "r2 = snd (rb_u16 (snd (rb_u16 r)))" and "len = unat (fst (rb_u16 (snd (rb_u16 r))))"
  note e = ext_read [OF assms(1), folded r2_def len_def, folded ty_def]
  have left: "rb_left r > 0" using assms by (simp add: rb_left_view)
  show ?thesis
  proof (cases "fst (rb_bytes r2 len)")
    case None
    have "\<nexists>x rest. bs = ext_wire x @ rest \<and> length (snd x) < 65536" using e(2) None assms(2) by (metis option.distinct(1))
    moreover have "encrypted_exts r seen lim alert = (CH_EPROTO, lim, alert)"
      using None left by (subst encrypted_exts.simps) (simp add: case_prod_beta Let_def r2_def len_def)
    ultimately show ?thesis by (intro bad) simp_all
  next
    case (Some d)
    from e(3) [OF Some] obtain rest where d: "bs = ext_wire (ty, d) @ rest" "len = length d" "length d < 65536"
      "rb_view (snd (rb_bytes r2 len)) = Some rest" using assms(2) by auto
    have "encrypted_exts r seen lim alert =
        (if ty = 28 then
           if fst (parse_record_size_limit d len lim) \<noteq> CH_OK \<or> seen AND 1 \<noteq> 0 then (CH_EPROTO, snd (parse_record_size_limit d len lim), alert)
           else encrypted_exts (snd (rb_bytes r2 len)) (seen OR 1) (snd (parse_record_size_limit d len lim)) alert
         else if ty = 10 then if seen AND 2 \<noteq> 0 then (CH_EPROTO, lim, alert) else encrypted_exts (snd (rb_bytes r2 len)) (seen OR 2) lim alert
         else (CH_EPROTO, lim, ALERT_UNSUPPORTED_EXTENSION))"
      using Some left unfolding r2_def len_def ty_def
      by (subst encrypted_exts.simps) (simp add: case_prod_beta Let_def EXT_RECORD_SIZE_LIMIT_def EXT_SUPPORTED_GROUPS_def)
    then show ?thesis using ext [OF d(1,3) e(1) d(4)] unfolding d(2) by blast
  qed
qed

lemma ext_wire_inject:
  assumes "ext_wire x @ a = ext_wire y @ b" "length (snd x) < 65536" "length (snd y) < 65536"
  shows "x = y \<and> a = b"
proof -
  let ?n = "\<lambda>x. of_nat (length (snd x)) :: u16"
  have "be16 (fst x) @ be16 (?n x) @ snd x @ a = be16 (fst y) @ be16 (?n y) @ snd y @ b"
    using assms(1) by (simp add: ext_wire_def vec16_def)
  then have e: "be16 (fst x) = be16 (fst y)" "be16 (?n x) = be16 (?n y)" "snd x @ a = snd y @ b" by simp_all
  from e(2) have "unat (?n x) = unat (?n y)" by (simp add: be16_inject)
  then have "length (snd x) = length (snd y)" using assms(2,3) by (simp add: unat_of_nat)
  then show ?thesis using e(1,3) by (simp add: be16_inject prod_eq_iff)
qed

lemma ee_exact:
  assumes "rb_wf r" "rb_view r = Some bs" "ee_exts_ok xs"
  shows "encrypted_exts r (ee_seen xs) (ee_limit l0 xs) al = (CH_OK, l', al') \<longleftrightarrow>
    (\<exists>ys. bs = exts_wire ys \<and> ee_exts_ok (xs @ ys) \<and> l' = ee_limit l0 (xs @ ys) \<and> al' = al)"
  using assms
proof (induction "length bs" arbitrary: r bs xs rule: less_induct)
  case less
  show ?case
  proof (cases "bs = []")
    case True
    have "encrypted_exts r (ee_seen xs) (ee_limit l0 xs) al = (CH_OK, ee_limit l0 xs, al)"
      using True less.prems(1,2) by (subst encrypted_exts.simps) (simp add: rb_left_view)
    moreover have "bs = exts_wire ys \<longleftrightarrow> ys = []" for ys using True by (cases ys) simp_all
    ultimately show ?thesis using less.prems(3) by (simp; blast)
  next
    case False
    have no: "\<not> (bs = exts_wire ys \<and> ee_exts_ok (xs @ ys))" if "\<And>y zs. ys = y # zs \<Longrightarrow> bs = ext_wire y @ exts_wire zs \<Longrightarrow> ee_ext_ok y \<Longrightarrow> fst y \<notin> fst ` set xs \<Longrightarrow> False" for ys
      using False that by (cases ys) (auto simp: ee_exts_ok_def)
    from less.prems(1,2) False show ?thesis
    proof (cases rule: ee_turn [where seen = "ee_seen xs" and lim = "ee_limit l0 xs" and alert = al])
      case bad
      have "\<not> (bs = exts_wire ys \<and> ee_exts_ok (xs @ ys))" for ys
        by (rule no) (use bad(1) ee_ext_ok_def in blast)
      then show ?thesis using bad(2) by auto
    next
      case (ext ty d rest r')
      let ?p = "parse_record_size_limit d (length d) (ee_limit l0 xs)"
      show ?thesis
      proof (cases "ee_ext_ok (ty, d) \<and> ty \<notin> fst ` set xs")
        case True
        have ok: "ee_exts_ok (xs @ [(ty, d)])" using less.prems(3) True by (auto simp: ee_exts_ok_def)
        have m: "map_of xs ty = None" using True by (simp add: map_of_None)
        have lt: "length rest < length bs" using ext(1) by simp
        have step: "encrypted_exts r (ee_seen xs) (ee_limit l0 xs) al = encrypted_exts r' (ee_seen (xs @ [(ty, d)])) (ee_limit l0 (xs @ [(ty, d)])) al"
          using ext(5) True m ee_seen_test [of xs] record_size_limit_exact [of d "ee_limit l0 xs"] by (auto simp: ee_ext_ok_def ee_snoc)
        have iff: "bs = exts_wire ys \<and> ee_exts_ok (xs @ ys) \<longleftrightarrow> (\<exists>zs. ys = (ty, d) # zs \<and> rest = exts_wire zs \<and> ee_exts_ok ((xs @ [(ty, d)]) @ zs))" for ys
        proof (cases ys)
          case (Cons y zs)
          have "ee_exts_ok (xs @ y # zs) \<Longrightarrow> length (snd y) < 65536" by (simp add: ee_exts_ok_def ee_ext_ok_def)
          then show ?thesis using Cons ext(1,2) ext_wire_inject [of y "exts_wire zs" "(ty, d)" rest] by auto
        qed (use False in auto)
        have "encrypted_exts r (ee_seen xs) (ee_limit l0 xs) al = (CH_OK, l', al') \<longleftrightarrow>
            (\<exists>zs. rest = exts_wire zs \<and> ee_exts_ok ((xs @ [(ty, d)]) @ zs) \<and> l' = ee_limit l0 ((xs @ [(ty, d)]) @ zs) \<and> al' = al)"
          unfolding step by (rule less.hyps [OF lt ext(3,4) ok])
        also have "\<dots> \<longleftrightarrow> (\<exists>ys. (bs = exts_wire ys \<and> ee_exts_ok (xs @ ys)) \<and> l' = ee_limit l0 (xs @ ys) \<and> al' = al)"
          unfolding iff append_assoc append.simps by blast
        finally show ?thesis by (simp only: conj_assoc)
      next
        case bad: False
        have "fst (encrypted_exts r (ee_seen xs) (ee_limit l0 xs) al) = CH_EPROTO"
          using ext(2,5) bad ee_seen_test [of xs] record_size_limit_exact(1) [of d "ee_limit l0 xs"] by (auto simp: ee_ext_ok_def map_of_None)
        moreover have "\<not> (bs = exts_wire ys \<and> ee_exts_ok (xs @ ys))" for ys
        proof (rule no)
          fix y zs
          assume y: "bs = ext_wire y @ exts_wire zs" "ee_ext_ok y" "fst y \<notin> fst ` set xs"
          have "length (snd y) < 65536" using y(2) by (simp add: ee_ext_ok_def)
          then have "y = (ty, d)" using ext_wire_inject [of y "exts_wire zs" "(ty, d)" rest] y(1) ext(1,2) by simp
          then show False using bad y(2,3) by simp
        qed
        ultimately show ?thesis by auto
      qed
    qed
  qed
qed

lemma exts_field:
  assumes "rb_wf r" "rb_view r = Some body"
  shows "\<not> (rb_err (snd (rb_u16 r)) \<or> unat (fst (rb_u16 r)) \<noteq> rb_left (snd (rb_u16 r))) \<longleftrightarrow> (\<exists>exts. length exts < 65536 \<and> body = vec16 exts)"
    "body = vec16 exts \<Longrightarrow> rb_view (snd (rb_u16 r)) = Some exts"
proof -
  have wf: "rb_wf (snd (rb_u16 r))" using assms(1) by (simp add: rb_u16_wf)
  show v: "rb_view (snd (rb_u16 r)) = Some exts" if "body = vec16 exts" for exts
    using rb_u16_step(1) [OF assms(1), of _ exts] assms(2) that by (simp add: vec16_def)
  show "\<not> (rb_err (snd (rb_u16 r)) \<or> unat (fst (rb_u16 r)) \<noteq> rb_left (snd (rb_u16 r))) \<longleftrightarrow> (\<exists>exts. length exts < 65536 \<and> body = vec16 exts)"
  proof
    assume a: "\<not> (rb_err (snd (rb_u16 r)) \<or> unat (fst (rb_u16 r)) \<noteq> rb_left (snd (rb_u16 r)))"
    then obtain exts where e: "rb_view (snd (rb_u16 r)) = Some exts" by (auto simp: rb_err_view)
    then have len: "unat (fst (rb_u16 r)) = length exts" using a wf by (simp add: rb_left_view)
    then have "fst (rb_u16 r) = of_nat (length exts)" "length exts < 65536" using unat_u16_less [of "fst (rb_u16 r)"] by (simp_all flip: len)
    then show "\<exists>exts. length exts < 65536 \<and> body = vec16 exts" using rb_u16_step(2) [OF assms(1) e] assms(2) by (auto simp: vec16_def)
  next
    assume "\<exists>exts. length exts < 65536 \<and> body = vec16 exts"
    then obtain exts where e: "length exts < 65536" "body = vec16 exts" by blast
    moreover have "fst (rb_u16 r) = of_nat (length exts)" using rb_u16_step(1) [OF assms(1)] assms(2) e(2) by (simp add: vec16_def)
    ultimately show "\<not> (rb_err (snd (rb_u16 r)) \<or> unat (fst (rb_u16 r)) \<noteq> rb_left (snd (rb_u16 r)))"
      using v [OF e(2)] wf by (simp add: rb_err_view rb_left_view unat_of_nat)
  qed
qed

lemma vec16_inject: "vec16 as = vec16 bs \<Longrightarrow> as = bs"
  by (simp add: vec16_def)

lemma encrypted_exts_accepts:
  "hsp_parse_encrypted_exts body lim alert = (CH_OK, lim', alert') \<longleftrightarrow>
     (\<exists>xs. length (exts_wire xs) < 65536 \<and> body = vec16 (exts_wire xs) \<and> ee_exts_ok xs \<and> lim' = ee_limit lim xs \<and> alert' = alert)"
proof -
  define r where "r = rb_init body (length body)"
  have r: "rb_wf r" "rb_view r = Some body" by (simp_all add: r_def body_init)
  have wf: "rb_wf (snd (rb_u16 r))" using r(1) by (simp add: rb_u16_wf)
  have p: "hsp_parse_encrypted_exts body lim alert =
      (if rb_err (snd (rb_u16 r)) \<or> unat (fst (rb_u16 r)) \<noteq> rb_left (snd (rb_u16 r)) then (CH_EPROTO, lim, alert)
       else encrypted_exts (snd (rb_u16 r)) (ee_seen []) (ee_limit lim []) alert)"
    unfolding hsp_parse_encrypted_exts_def r_def [symmetric] by (simp add: case_prod_beta Let_def ee_seen_def ee_limit_def)
  have ok: "ee_exts_ok []" by (simp add: ee_exts_ok_def)
  show ?thesis
  proof (cases "\<exists>exts. length exts < 65536 \<and> body = vec16 exts")
    case True
    then obtain exts where e: "length exts < 65536" "body = vec16 exts" by blast
    have "hsp_parse_encrypted_exts body lim alert = encrypted_exts (snd (rb_u16 r)) (ee_seen []) (ee_limit lim []) alert"
      unfolding p using exts_field(1) [OF r] True by (simp only: if_False simp_thms)
    then show ?thesis using ee_exact [OF wf exts_field(2) [OF r e(2)] ok, of lim alert lim' alert'] e vec16_inject [of exts] by auto
  next
    case False
    then have "fst (hsp_parse_encrypted_exts body lim alert) = CH_EPROTO" unfolding p using exts_field(1) [OF r] by (auto split: if_splits)
    then show ?thesis using False by auto
  qed
qed

lemma ee_limit_pos: "ee_exts_ok xs \<Longrightarrow> 0 < lim \<Longrightarrow> 0 < ee_limit lim xs"
proof -
  assume a: "ee_exts_ok xs" "0 < lim"
  have "0 < (of_nat (be_nat d - 1) :: u16)" if "map_of xs 28 = Some d" for d
  proof -
    have "(28, d) \<in> set xs" using that by (rule map_of_SomeD)
    then obtain l where "64 \<le> l" "d = be16 l" using a(1) by (auto simp: ee_exts_ok_def ee_ext_ok_def list_all_iff)
    then have n: "be_nat d = unat l" "64 \<le> unat l" by (simp_all add: be_nat_be16 word_le_nat_alt)
    have "unat l < 65536" by simp
    then have "0 < be_nat d - 1" "be_nat d - 1 < 65536" unfolding n(1) using n(2) by linarith+
    then have "unat (of_nat (be_nat d - 1) :: u16) = be_nat d - 1" unfolding unat_of_nat by simp
    then show ?thesis unfolding word_less_nat_alt using \<open>0 < be_nat d - 1\<close> by simp
  qed
  then show ?thesis using a(2) by (auto simp: ee_limit_def split: option.split)
qed

section \<open>CertificateVerify\<close>

lemma certificate_verify_accepts:
  "hsp_parse_certificate_verify body alert = (CH_OK, Some sig, alert') \<longleftrightarrow> length sig < 65536 \<and> body = [0x08, 0x04] @ vec16 sig \<and> alert' = alert"
proof -
  define r0 where "r0 = rb_init body (length body)"
  define r1 where "r1 = snd (rb_u16 r0)"
  define len where "len = unat (fst (rb_u16 r1))"
  define r2 where "r2 = snd (rb_bytes (snd (rb_u16 r1)) len)"
  define s where "s = fst (rb_bytes (snd (rb_u16 r1)) len)"
  have v0: "rb_wf r0" "rb_view r0 = Some body" by (simp_all add: r0_def body_init)
  have wf: "rb_wf r1" using v0 by (simp add: r1_def rb_u16_wf)
  note s1 = rb_u16_step [OF v0(1), folded r1_def] and s2 = rb_vec16_step [OF wf, folded len_def, folded r2_def s_def]
  have p: "hsp_parse_certificate_verify body alert =
      (if fst (rb_u16 r0) \<noteq> 0x0804 then (CH_EAUTH, None, ALERT_HANDSHAKE_FAILURE)
       else if s = None \<or> rb_left r2 \<noteq> 0 then (CH_EPROTO, s, alert) else (CH_OK, s, alert))"
    unfolding hsp_parse_certificate_verify_def r0_def [symmetric]
    by (simp add: case_prod_beta Let_def r1_def [symmetric] len_def [symmetric] r2_def [symmetric] s_def [symmetric]
        CH_PIN_SIGALG_def SIGALG_RSA_PSS_RSAE_SHA256_def)
  have be: "be16 0x0804 = [0x08, 0x04]" by (simp add: be16_list)
  have some: "s = Some sig \<Longrightarrow> rb_left r2 = 0 \<longleftrightarrow> rb_view r2 = Some []"
    using rb_bytes_value [of "snd (rb_u16 r1)" len] rb_bytes_view [of "snd (rb_u16 r1)" len] rb_u16_wf [OF wf] s2(1)
    by (auto simp: s_def r2_def rb_left_view split: option.splits if_splits)
  show ?thesis
  proof
    assume a: "hsp_parse_certificate_verify body alert = (CH_OK, Some sig, alert')"
    then have b: "fst (rb_u16 r0) = 0x0804" "s = Some sig" "rb_left r2 = 0" "alert' = alert" unfolding p by (auto split: if_splits)
    then obtain bs where bs: "length bs < 65536" "rb_view r1 = Some (vec16 bs)" using some s2(3) [of "[]"] by auto
    then have "bs = sig" using s2(2) [of bs "[]"] b(2) by simp
    then show "length sig < 65536 \<and> body = [0x08, 0x04] @ vec16 sig \<and> alert' = alert" using bs s1(2) [OF bs(2)] b(1,4) v0(2) be by simp
  next
    assume a: "length sig < 65536 \<and> body = [0x08, 0x04] @ vec16 sig \<and> alert' = alert"
    then have v: "rb_view r0 = Some (be16 0x0804 @ vec16 sig)" using v0(2) be by simp
    from s1(1) [OF v] have "fst (rb_u16 r0) = 0x0804" "rb_view r1 = Some (vec16 sig)" by simp_all
    then show "hsp_parse_certificate_verify body alert = (CH_OK, Some sig, alert')" using s2(2) [of sig "[]"] some a unfolding p by simp
  qed
qed

text \<open>No parser returns another result code.\<close>

lemma server_hello_exts_rc: "fst (server_hello_exts r info psk) \<in> {CH_OK, CH_EPROTO}"
proof (induction "rb_left r" arbitrary: r info rule: less_induct)
  case less
  have arm: "fst (sh_arm ty d n i h) \<in> {CH_OK, CH_EPROTO}" for ty d n i h
    by (simp add: sh_arm_def parse_key_share_def parse_cookie_def case_prod_beta Let_def split: option.split)
  obtain rc r' i where t: "(rc, r', i) = parse_server_hello_ext r info (si_hrr info) psk" by (metis prod_cases3)
  then have "rc \<in> {CH_OK, CH_EPROTO}"
    using arm by (auto simp: parse_server_hello_ext_def case_prod_beta Let_def split: option.splits if_splits)
  moreover have "rb_left r \<noteq> 0 \<Longrightarrow> fst (server_hello_exts r' i psk) \<in> {CH_OK, CH_EPROTO}"
    using less server_hello_ext_left [OF _ t] by blast
  ultimately show ?case using t [symmetric] by (subst server_hello_exts.simps) auto
qed

lemma server_hello_rc: "fst (hsp_parse_server_hello body info psk) \<in> {CH_OK, CH_EPROTO}"
  using server_hello_exts_rc by (simp add: hsp_parse_server_hello_def case_prod_beta Let_def split: option.split)

lemma encrypted_exts_rc: "fst (hsp_parse_encrypted_exts body lim alert) \<in> {CH_OK, CH_EPROTO}"
proof -
  have "fst (encrypted_exts r seen lim alert) \<in> {CH_OK, CH_EPROTO}" for r seen lim alert
  proof (induction "rb_left r" arbitrary: r seen lim alert rule: less_induct)
    case less
    have "rb_left r > 0 \<Longrightarrow> fst (encrypted_exts (snd (rb_bytes (snd (rb_u16 (snd (rb_u16 r)))) n)) s l a) \<in> {CH_OK, CH_EPROTO}" for n s l a
      using less [OF ext_left] by simp
    then show ?case by (subst encrypted_exts.simps) (simp add: case_prod_beta Let_def split: option.split)
  qed
  then show ?thesis by (simp add: hsp_parse_encrypted_exts_def case_prod_beta Let_def)
qed

section \<open>Properties\<close>

text \<open>A cookie the parser reports as empty is the vector of no bytes.\<close>

lemma cookie_reported:
  assumes "sh_exts_ok hrr psk xs"
  shows "si_cookie (sh_info hrr xs) = Some [] \<longleftrightarrow> map_of xs 44 = Some (vec16 [])"
proof (cases "map_of xs 44")
  case (Some d)
  then have "sh_ext_ok hrr psk (44, d)" using assms map_of_SomeD [OF Some] by (simp add: sh_exts_ok_def list_all_iff)
  then obtain cookie where "d = vec16 cookie" by (auto simp: sh_ext_ok_def)
  then show ?thesis using Some vec16_inject [of cookie "[]"] by (auto simp: sh_info_def vec16_def)
qed (simp add: sh_info_def)

text \<open>A list of named groups as supported_groups carries it, and the extensions EncryptedExtensions may carry.\<close>

definition groups_framed :: "bytes \<Rightarrow> bool" where
  "groups_framed d \<longleftrightarrow> (\<exists>groups. d = vec16 groups \<and> length groups < 65536 \<and> 2 \<le> length groups \<and> even (length groups))"

definition ee_ext_rfc :: "u16 \<times> bytes \<Rightarrow> bool" where
  "ee_ext_rfc x \<longleftrightarrow> fst x = 10 \<and> groups_framed (snd x) \<or> fst x = 28 \<and> (\<exists>limit. 64 \<le> limit \<and> snd x = be16 limit)"

lemma exts_wire_inject:
  assumes "exts_wire xs = exts_wire ys" "list_all (\<lambda>x. length (snd x) < 65536) xs" "list_all (\<lambda>x. length (snd x) < 65536) ys"
  shows "xs = ys"
  using assms
proof (induction xs arbitrary: ys)
  case Nil
  then show ?case by (cases ys) (simp_all add: ext_wire_def be16_def)
next
  case (Cons x xs)
  then obtain y zs where ys: "ys = y # zs" by (cases ys) (auto simp: ext_wire_def be16_def)
  have "x = y \<and> exts_wire xs = exts_wire zs" by (rule ext_wire_inject) (use Cons.prems ys in simp_all)
  then show ?case using Cons.IH [of zs] Cons.prems(2,3) by (simp add: ys)
qed

lemma ee_accepts_list:
  assumes "length (exts_wire xs) < 65536" "list_all (\<lambda>x. length (snd x) < 65536) xs"
  shows "hsp_parse_encrypted_exts (vec16 (exts_wire xs)) lim alert = (CH_OK, lim', alert') \<longleftrightarrow> ee_exts_ok xs \<and> lim' = ee_limit lim xs \<and> alert' = alert"
proof -
  have "xs = ys" if "vec16 (exts_wire xs) = vec16 (exts_wire ys)" "ee_exts_ok ys" for ys
    using exts_wire_inject [OF vec16_inject [OF that(1)] assms(2)] that(2) by (auto simp: ee_exts_ok_def ee_ext_ok_def list_all_iff)
  then show ?thesis unfolding encrypted_exts_accepts using assms(1) by blast
qed

lemma ee_refuses_other:
  assumes "\<nexists>xs. length (exts_wire xs) < 65536 \<and> list_all (\<lambda>x. length (snd x) < 65536) xs \<and> body = vec16 (exts_wire xs)"
  shows "fst (hsp_parse_encrypted_exts body lim alert) \<noteq> CH_OK"
proof
  assume "fst (hsp_parse_encrypted_exts body lim alert) = CH_OK"
  then obtain lim' alert' where "hsp_parse_encrypted_exts body lim alert = (CH_OK, lim', alert')" by (cases "hsp_parse_encrypted_exts body lim alert") auto
  then show False using assms by (auto simp: encrypted_exts_accepts ee_exts_ok_def ee_ext_ok_def list_all_iff)
qed

text \<open>
  C12: A ServerHello is accepted, with no cookie of zero bytes, exactly when its bytes are the wire form of one this client may take:
  version 0x0303, 32 bytes of random, an empty session id, the one suite, no compression, and a list of extensions that fills the message,
  each of a type and form the message may carry, none twice, with supported_versions naming TLS 1.3.  The random of a HelloRetryRequest
  decides which extensions those are.  What the parser reports is what the extensions say: the share, the cookie, the selected identity.
  Whether a share or a cookie had to be there, and a cookie of zero bytes, the caller decides on what the parser reports.
\<close>

theorem hsp_parse_server_hello_exact:
  "hsp_parse_server_hello body info_zero psk = (CH_OK, info) \<and> si_cookie info \<noteq> Some [] \<longleftrightarrow>
     (\<exists>random xs. length random = 32 \<and> length (exts_wire xs) < 65536 \<and> body = sh_wire random xs \<and> sh_exts_ok (random = hsp_hrr_magic) psk xs \<and>
       map_of xs 44 \<noteq> Some (vec16 []) \<and> map_of xs 43 = Some [3, 4] \<and> info = sh_info (random = hsp_hrr_magic) xs)"
proof -
  have "si_cookie (sh_info hrr xs) \<noteq> Some [] \<longleftrightarrow> map_of xs 44 \<noteq> Some (vec16 [])" if "sh_exts_ok hrr psk xs" for hrr xs
    using cookie_reported [OF that] by simp
  then show ?thesis unfolding server_hello_accepts by blast
qed

text \<open>
  C13: Of the messages whose supported_groups, where there is one, has the form of a list of groups, EncryptedExtensions are accepted
  exactly when a list of extensions fills the message, each a supported_groups or a record_size_limit of 64 or more, neither twice.  The
  send limit becomes the smaller of its value and the peer's limit less the type byte.  A body that no list of extensions fills is refused.
  The form of the list of groups itself is not checked: see \<open>unframed_groups_accepted\<close>.
\<close>

theorem hsp_parse_encrypted_exts_exact:
  "(\<forall>xs. length (exts_wire xs) < 65536 \<and> list_all (\<lambda>x. length (snd x) < 65536) xs \<and> list_all (\<lambda>x. fst x = 10 \<longrightarrow> groups_framed (snd x)) xs \<longrightarrow>
      hsp_parse_encrypted_exts (vec16 (exts_wire xs)) lim alert = (CH_OK, lim', alert') \<longleftrightarrow>
      distinct (map fst xs) \<and> list_all ee_ext_rfc xs \<and> lim' = ee_limit lim xs \<and> alert' = alert) \<and>
   ((\<nexists>xs. length (exts_wire xs) < 65536 \<and> list_all (\<lambda>x. length (snd x) < 65536) xs \<and> body = vec16 (exts_wire xs)) \<longrightarrow>
      fst (hsp_parse_encrypted_exts body lim alert) \<noteq> CH_OK)"
proof -
  have "list_all ee_ext_rfc xs \<longleftrightarrow> list_all ee_ext_ok xs"
    if "list_all (\<lambda>x. length (snd x) < 65536) xs" "list_all (\<lambda>x. fst x = 10 \<longrightarrow> groups_framed (snd x)) xs" for xs
    using that by (induction xs) (auto simp: ee_ext_ok_def ee_ext_rfc_def)
  then show ?thesis using ee_accepts_list [of _ lim alert lim' alert'] ee_refuses_other [of body lim alert] by (auto simp: ee_exts_ok_def)
qed

theorem hsp_parse_encrypted_exts_exact_witness:
  "hsp_parse_encrypted_exts (vec16 (exts_wire [(10, [0, 2, 0, 0x1d]), (28, [2, 1])])) 0x4000 50 = (CH_OK, 0x200, 50) \<and>
   fst (hsp_parse_encrypted_exts [0] 0x4000 50) \<noteq> CH_OK"
proof -
  let ?xs = "[(10, [0, 2, 0, 0x1d]), (28, [2, 1])] :: (u16 \<times> bytes) list"
  have g: "groups_framed [0, 2, 0, 0x1d]"
    unfolding groups_framed_def by (rule exI [of _ "[0, 0x1d]"]) (simp add: vec16_def be16_def)
  have l: "[2, 1] = be16 0x201" by (simp add: be16_def)
  have "ee_ext_rfc (28, [2, 1])" unfolding ee_ext_rfc_def l by (intro disjI2 conjI exI [of _ "0x201"]) simp_all
  then have "distinct (map fst ?xs) \<and> list_all ee_ext_rfc ?xs \<and> 0x200 = ee_limit 0x4000 ?xs" using g by (simp add: ee_ext_rfc_def ee_limit_def be_nat_def)
  moreover have "length (exts_wire ?xs) < 65536" by (simp add: exts_wire_def ext_wire_def be16_def vec16_def)
  moreover have "[0] \<noteq> vec16 bs" for bs by (simp add: vec16_def be16_def)
  ultimately show ?thesis
    using hsp_parse_encrypted_exts_exact [of "0x4000" 50 "0x200" 50 "[0]"] g by (auto dest: spec [of _ ?xs])
qed

text \<open>The body of supported_groups is left unread: a message in which it is no list of groups is accepted all the same.\<close>

lemma unframed_groups_accepted: "hsp_parse_encrypted_exts (vec16 (exts_wire [(10, [7])])) lim alert = (CH_OK, lim, alert) \<and> \<not> groups_framed [7]"
proof -
  have "\<not> groups_framed [7]" by (simp add: groups_framed_def vec16_def be16_def)
  moreover have "length (exts_wire [(10, [7])]) < 65536" by (simp add: exts_wire_def ext_wire_def be16_def vec16_def)
  ultimately show ?thesis using ee_accepts_list [of "[(10, [7])]" lim alert lim alert] by (simp add: ee_exts_ok_def ee_ext_ok_def ee_limit_def)
qed

text \<open>The parser hands a HelloRetryRequest's cookie of zero bytes to its caller.\<close>

lemma empty_cookie_reported:
  "\<exists>info. hsp_parse_server_hello (sh_wire hsp_hrr_magic [(43, [3, 4]), (44, [0, 0])]) info_zero psk = (CH_OK, info) \<and> si_cookie info = Some []"
proof -
  let ?xs = "[(43, [3, 4]), (44, [0, 0])] :: (u16 \<times> bytes) list"
  have "sh_exts_ok True psk ?xs" "length (exts_wire ?xs) < 65536" "length hsp_hrr_magic = 32"
    by (simp_all add: sh_exts_ok_def sh_ext_ok_def vec16_def be16_def exts_wire_def ext_wire_def hsp_hrr_magic_def)
  then have "hsp_parse_server_hello (sh_wire hsp_hrr_magic ?xs) info_zero psk = (CH_OK, sh_info True ?xs)"
    unfolding server_hello_accepts by (intro exI [of _ hsp_hrr_magic] exI [of _ ?xs]) simp
  then show ?thesis by (simp add: sh_info_def)
qed

end
