(* ===== verification/Hello.thy ===== *)
theory Hello
  imports Post Hs_Parse
begin

text \<open>
  The ClientHello of \<open>src/handshake_message.c\<close>, in the build with one group and one suite and without the web PKI.  The writer's
  calls are those of the source, marks and patches included; the lemmas show the message they leave, and that the largest fits the staging
  array.  Reading an identity at \<open>NULL\<close> would be a fault, \<open>None\<close>.
\<close>

section \<open>Model\<close>

definition CH_KEX_CLIENT_SHARE :: nat where "CH_KEX_CLIENT_SHARE = 32"

definition CH_HELLO_MAX :: nat where
  "CH_HELLO_MAX = 137 + CH_TICKET_ID_MAX + HSP_COOKIE_MAX + CH_KEX_CLIENT_SHARE"

definition CH_BINDERS_TAIL :: "nat \<Rightarrow> nat" where "CH_BINDERS_TAIL hash_len = 3 + hash_len"

definition hs_psk_hash_len :: "'io ch_cfg \<Rightarrow> nat" where "hs_psk_hash_len c = SHA256_LEN"

definition write_pre_shared_key :: "wbuf \<Rightarrow> 'io ch_cfg \<Rightarrow> wbuf option" where
  "write_pre_shared_key w c =
     do {
       let w = wb_u16 w EXT_PRE_SHARED_KEY;
       let (psk, w) = wb_mark w 2;
       let (ids, w) = wb_mark w 2;
       let w = wb_u16 w (of_nat (cfg_psk_id_len c));
       ident \<leftarrow> cfg_psk_id c;
       let w = wb_bytes w ident (cfg_psk_id_len c);
       let age = (case cfg_ticket c of None \<Rightarrow> 0 | Some saved \<Rightarrow> ticket_obfuscated_age (st_ticket saved) (cfg_ticket_age_ms c));
       let w = wb_u16 w (ucast (drop_bit 16 age));
       let w = wb_u16 w (ucast age);
       let w = wb_patch16 w ids;
       let hash_len = hs_psk_hash_len c;
       let w = wb_u16 w (of_nat (1 + hash_len));
       let w = wb_u8 w (of_nat hash_len);
       let (binder, w) = wb_mark w hash_len;
       Some (wb_patch16 w psk)
     }"

text \<open>The extensions every hello starts with, the cookie's, and the whole message: its length and the array at \<open>out\<close>.\<close>

definition write_fixed_exts :: "wbuf \<Rightarrow> bytes \<Rightarrow> u16 \<Rightarrow> wbuf" where
  "write_fixed_exts w pub record_size_limit =
     (let w = wb_u16 w EXT_SUPPORTED_VERSIONS;
          w = wb_u16 w 3;
          w = wb_u8 w 2;
          w = wb_u16 w TLS13;
          w = wb_u16 w EXT_SUPPORTED_GROUPS;
          w = wb_u16 w 4;
          w = wb_u16 w 2;
          w = wb_u16 w CH_KEX_GROUP;
          w = wb_u16 w EXT_KEY_SHARE;
          w = wb_u16 w (of_nat (2 + 2 + 2 + CH_KEX_CLIENT_SHARE));
          w = wb_u16 w (of_nat (2 + 2 + CH_KEX_CLIENT_SHARE));
          w = wb_u16 w CH_KEX_GROUP;
          w = wb_u16 w (of_nat CH_KEX_CLIENT_SHARE);
          w = wb_bytes w pub 32;
          w = wb_u16 w EXT_PSK_MODES;
          w = wb_u16 w 2;
          w = wb_u8 w 1;
          w = wb_u8 w 1;
          w = wb_u16 w EXT_RECORD_SIZE_LIMIT;
          w = wb_u16 w 2
      in wb_u16 w record_size_limit)"

definition write_cookie :: "wbuf \<Rightarrow> bytes option \<Rightarrow> nat \<Rightarrow> wbuf" where
  "write_cookie w cookie cookie_len =
     (case cookie of
        None \<Rightarrow> w
      | Some cookie \<Rightarrow>
          let w = wb_u16 w EXT_COOKIE;
              w = wb_u16 w (of_nat (2 + cookie_len));
              w = wb_u16 w (of_nat cookie_len)
          in wb_bytes w cookie cookie_len)"

definition write_auth :: "wbuf \<Rightarrow> 'io ch_cfg \<Rightarrow> wbuf option" where
  "write_auth w c =
     (if cfg_psk c = None then
        let w = wb_u16 w EXT_SIGNATURE_ALGORITHMS;
            w = wb_u16 w 4;
            w = wb_u16 w 2
        in Some (wb_u16 w CH_PIN_SIGALG)
      else write_pre_shared_key w c)"

definition hs_build_client_hello ::
  "bytes \<Rightarrow> nat \<Rightarrow> 'io ch_cfg \<Rightarrow> bytes \<Rightarrow> bytes \<Rightarrow> u16 \<Rightarrow> bytes option \<Rightarrow> nat \<Rightarrow> (nat \<times> bytes) option" where
  "hs_build_client_hello out cap c pub random32 record_size_limit cookie cookie_len =
     do {
       let w = wb_init out cap;
       let w = wb_u8 w HS_CLIENT_HELLO;
       let (msg, w) = wb_mark w 3;
       let w = wb_u16 w 0x0303;
       let w = wb_bytes w random32 32;
       let w = wb_u8 w 0;
       let w = wb_u16 w 2;
       let w = wb_u16 w SUITE_CHACHA20_POLY1305_SHA256;
       let w = wb_u8 w 1;
       let w = wb_u8 w 0;
       let (exts, w) = wb_mark w 2;
       let w = write_fixed_exts w pub record_size_limit;
       let w = write_cookie w cookie cookie_len;
       w \<leftarrow> write_auth w c;
       let w = wb_patch16 w exts;
       let w = wb_patch24 w msg;
       Some (if wb_err w then 0 else wb_len w, wb_p w)
     }"

section \<open>Specification\<close>

definition hello_age :: "'io ch_cfg \<Rightarrow> u32" where
  "hello_age c = (case cfg_ticket c of None \<Rightarrow> 0 | Some saved \<Rightarrow> ucast (cfg_ticket_age_ms c) + tk_age_add (st_ticket saved))"

definition psk_ext :: "'io ch_cfg \<Rightarrow> bytes \<Rightarrow> bytes \<Rightarrow> bytes" where
  "psk_ext c ident binder = vec16 (vec16 (take (cfg_psk_id_len c) ident) @ be32 (hello_age c)) @ vec16 (vec8 binder)"

definition auth_exts :: "'io ch_cfg \<Rightarrow> bytes \<Rightarrow> (u16 \<times> bytes) list" where
  "auth_exts c binder = (case cfg_psk c of None \<Rightarrow> [(13, vec16 [8, 4])] | Some _ \<Rightarrow> [(41, psk_ext c (the (cfg_psk_id c)) binder)])"

definition hello_exts :: "'io ch_cfg \<Rightarrow> bytes \<Rightarrow> u16 \<Rightarrow> bytes option \<Rightarrow> bytes \<Rightarrow> (u16 \<times> bytes) list" where
  "hello_exts c pub limit cookie binder =
     [(43, vec8 [3, 4]), (10, vec16 [0, 0x1d]), (51, vec16 (be16 0x1d @ vec16 pub)), (45, vec8 [1]), (28, be16 limit)] @
     (case cookie of None \<Rightarrow> [] | Some cookie \<Rightarrow> [(44, vec16 cookie)]) @ auth_exts c binder"

definition vec24 :: "bytes \<Rightarrow> bytes" where
  "vec24 bs = be24 (of_nat (length bs)) @ bs"

definition hello_wire :: "'io ch_cfg \<Rightarrow> bytes \<Rightarrow> bytes \<Rightarrow> u16 \<Rightarrow> bytes option \<Rightarrow> bytes \<Rightarrow> bytes" where
  "hello_wire c pub random limit cookie binder =
     1 # vec24 ([3, 3] @ random @ vec8 [] @ vec16 [0x13, 3] @ vec8 [0] @ vec16 (exts_wire (hello_exts c pub limit cookie binder)))"

text \<open>What a hello is built from: 32-byte values, and an identity where a PSK is configured.\<close>

definition hello_inputs :: "'io ch_cfg \<Rightarrow> bytes \<Rightarrow> bytes \<Rightarrow> bytes option \<Rightarrow> nat \<Rightarrow> bool" where
  "hello_inputs c pub random cookie n \<longleftrightarrow> length pub = 32 \<and> length random = 32 \<and> (case cookie of None \<Rightarrow> True | Some b \<Rightarrow> length b = n) \<and>
     (case cfg_psk c of None \<Rightarrow> True | Some _ \<Rightarrow> (case cfg_psk_id c of None \<Rightarrow> False | Some ident \<Rightarrow> cfg_psk_id_len c \<le> length ident))"

section \<open>The bytes a writer holds\<close>

text \<open>The writer \<open>w\<close>, run from \<open>w0\<close>, has written \<open>out\<close>, or failed where it does not fit.\<close>

definition written :: "wbuf \<Rightarrow> wbuf \<Rightarrow> bytes \<Rightarrow> bool" where
  "written w0 w out \<longleftrightarrow> wb_kept w0 w \<and> wb_view w = (if length out \<le> wb_cap w0 then Some out else None)"

lemma written_put:
  assumes "written w0 w out" "wb_kept w w'" "wb_view w' = view_put (wb_cap w) bs (wb_view w)"
  shows "written w0 w' (out @ bs)"
  using assms wb_kept_trans [of w0 w w'] wb_kept_cap [of w0 w] by (auto simp: written_def view_put_def)

lemma written_calls:
  assumes "written w0 w out"
  shows "written w0 (wb_u8 w v8) (out @ [v8])" "written w0 (wb_u16 w v16) (out @ be16 v16)"
    "n \<le> length src \<Longrightarrow> written w0 (wb_bytes w src n) (out @ take n src)" "written w0 (snd (wb_mark w k)) (out @ replicate k 0)"
proof -
  have wf: "wb_wf w" using assms wb_kept_wf by (auto simp: written_def)
  show "written w0 (wb_u8 w v8) (out @ [v8])" "written w0 (wb_u16 w v16) (out @ be16 v16)"
    "n \<le> length src \<Longrightarrow> written w0 (wb_bytes w src n) (out @ take n src)" "written w0 (snd (wb_mark w k)) (out @ replicate k 0)"
    using wf by (auto intro!: written_put [OF assms] simp: wb_laws)
qed

lemma written_mark: "written w0 w out \<Longrightarrow> length out \<le> wb_cap w0 \<Longrightarrow> fst (wb_mark w k) = length out"
  using wb_view_length [of w out] wb_kept_wf [of w0 w] by (simp add: written_def wb_mark_off)

lemma written_patch16:
  assumes "written w0 w (out @ [x, y] @ body)" "length (out @ [x, y] @ body) \<le> wb_cap w0 \<Longrightarrow> off = length out" "wb_len w0 = 0"
  shows "written w0 (wb_patch16 w off) (out @ vec16 body)"
proof (cases "length (out @ [x, y] @ body) \<le> wb_cap w0")
  case True
  have w: "wb_kept w0 w" "wb_view w = Some (out @ [x, y] @ body)" "wb_wf w" using assms(1) True wb_kept_wf by (auto simp: written_def)
  have "off + 2 \<le> wb_len w" using wb_view_length [OF w(3,2)] assms(2) [OF True] by simp
  then have "wb_kept w0 (wb_patch16 w off)" using wb_patch16_kept [OF w(1)] assms(3) by simp
  then show ?thesis using wb_patch16_view [OF w(3,2)] assms(2) [OF True] True by (simp add: written_def vec16_def)
next
  case False
  then have "wb_view w = None" using assms(1) by (simp add: written_def)
  then have "wb_patch16 w off = w" by (auto simp: wb_patch16_def wb_view_def split: if_splits)
  then show ?thesis using assms(1) False by (simp add: written_def vec16_def)
qed

lemma written_patch24:
  assumes "written w0 w (out @ [x, y, z] @ body)" "length (out @ [x, y, z] @ body) \<le> wb_cap w0 \<Longrightarrow> off = length out" "wb_len w0 = 0"
  shows "written w0 (wb_patch24 w off) (out @ vec24 body)"
proof (cases "length (out @ [x, y, z] @ body) \<le> wb_cap w0")
  case True
  have w: "wb_kept w0 w" "wb_view w = Some (out @ [x, y, z] @ body)" "wb_wf w" using assms(1) True wb_kept_wf by (auto simp: written_def)
  have "off + 3 \<le> wb_len w" using wb_view_length [OF w(3,2)] assms(2) [OF True] by simp
  then have "wb_kept w0 (wb_patch24 w off)" using wb_patch24_kept [OF w(1)] assms(3) by simp
  then show ?thesis using wb_patch24_view [OF w(3,2)] assms(2) [OF True] True by (simp add: written_def vec24_def)
next
  case False
  then have "wb_view w = None" using assms(1) by (simp add: written_def)
  then have "wb_patch24 w off = w" by (auto simp: wb_patch24_def wb_view_def split: if_splits)
  then show ?thesis using assms(1) False by (simp add: written_def vec24_def be24_def)
qed

section \<open>The hello\<close>

lemmas hello_codes = ext_codes EXT_SIGNATURE_ALGORITHMS_def EXT_PSK_MODES_def TLS13_def CH_KEX_GROUP_def CH_GROUP_X25519_def
  CH_KEX_CLIENT_SHARE_def SUITE_CHACHA20_POLY1305_SHA256_def CH_PIN_SIGALG_def SIGALG_RSA_PSS_RSAE_SHA256_def

lemma low_bytes: "(0x0304 :: u8) = 4" "(0x0303 :: u8) = 3" "(0x1303 :: u8) = 3" "(0x0804 :: u8) = 4"
  by simp_all

lemma fixed_exts_written:
  assumes "written w0 w out" "length pub = 32"
  shows "written w0 (write_fixed_exts w pub lim) (out @ exts_wire [(43, vec8 [3, 4]), (10, vec16 [0, 0x1d]), (51, vec16 (be16 0x1d @ vec16 pub)),
    (45, vec8 [1]), (28, be16 lim)])"
proof -
  have n: "32 \<le> length pub" using assms(2) by simp
  note a1 = written_calls(2) [OF assms(1), of EXT_SUPPORTED_VERSIONS]
  note a2 = written_calls(2) [OF a1, of 3]
  note a3 = written_calls(1) [OF a2, of 2]
  note a4 = written_calls(2) [OF a3, of TLS13]
  note a5 = written_calls(2) [OF a4, of EXT_SUPPORTED_GROUPS]
  note a6 = written_calls(2) [OF a5, of 4]
  note a7 = written_calls(2) [OF a6, of 2]
  note a8 = written_calls(2) [OF a7, of CH_KEX_GROUP]
  note a9 = written_calls(2) [OF a8, of EXT_KEY_SHARE]
  note a10 = written_calls(2) [OF a9, of "of_nat (2 + 2 + 2 + CH_KEX_CLIENT_SHARE)"]
  note a11 = written_calls(2) [OF a10, of "of_nat (2 + 2 + CH_KEX_CLIENT_SHARE)"]
  note a12 = written_calls(2) [OF a11, of CH_KEX_GROUP]
  note a13 = written_calls(2) [OF a12, of "of_nat CH_KEX_CLIENT_SHARE"]
  note a14 = written_calls(3) [OF a13, of 32 pub]
  note a15 = written_calls(2) [OF a14 [OF n], of EXT_PSK_MODES]
  note a16 = written_calls(2) [OF a15, of 2]
  note a17 = written_calls(1) [OF a16, of 1]
  note a18 = written_calls(1) [OF a17, of 1]
  note a19 = written_calls(2) [OF a18, of EXT_RECORD_SIZE_LIMIT]
  note a20 = written_calls(2) [OF a19, of 2]
  note a21 = written_calls(2) [OF a20, of lim]
  show ?thesis using a21 assms(2) unfolding write_fixed_exts_def Let_def
    by (simp add: exts_wire_def ext_wire_def vec16_def vec8_def be16_list hello_codes low_bytes)
qed

lemma cookie_written:
  assumes "written w0 w out" "case cookie of None \<Rightarrow> True | Some b \<Rightarrow> length b = n"
  shows "written w0 (write_cookie w cookie n) (out @ exts_wire (case cookie of None \<Rightarrow> [] | Some c \<Rightarrow> [(44, vec16 c)]))"
proof (cases cookie)
  case (Some c)
  then have n: "n = length c" using assms(2) by simp
  note a1 = written_calls(2) [OF assms(1), of EXT_COOKIE]
  note a2 = written_calls(2) [OF a1, of "of_nat (2 + n)"]
  note a3 = written_calls(2) [OF a2, of "of_nat n"]
  have "written w0 (wb_bytes (wb_u16 (wb_u16 (wb_u16 w EXT_COOKIE) (of_nat (2 + n))) (of_nat n)) c n) (out @ ext_wire (44, vec16 c))"
    using written_calls(3) [OF a3, of n c] n by (simp add: ext_wire_def vec16_def EXT_COOKIE_def)
  then show ?thesis using Some by (simp add: write_cookie_def Let_def exts_wire_def)
qed (simp add: write_cookie_def assms(1))

lemma be32_halves: "be16 (ucast (drop_bit 16 v)) @ be16 (ucast v) = be32 v"
  unfolding be16_def be32_def be24_def by (auto simp: bit_simps intro!: bit_word_eqI)

lemma psk_written:
  assumes "written w0 w out" "cfg_psk_id c = Some ident" "cfg_psk_id_len c \<le> length ident" "wb_len w0 = 0"
  shows "\<exists>w'. write_pre_shared_key w c = Some w' \<and> written w0 w' (out @ ext_wire (41, psk_ext c ident (replicate 32 0)))"
proof -
  let ?n = "cfg_psk_id_len c" and ?age = "hello_age c"
  define w1 where "w1 = wb_u16 w EXT_PRE_SHARED_KEY"
  define w2 where "w2 = snd (wb_mark w1 2)"
  define w3 where "w3 = snd (wb_mark w2 2)"
  define w4 where "w4 = wb_bytes (wb_u16 w3 (of_nat ?n)) ident ?n"
  define w5 where "w5 = wb_u16 (wb_u16 w4 (ucast (drop_bit 16 ?age))) (ucast ?age)"
  define w6 where "w6 = wb_patch16 w5 (fst (wb_mark w2 2))"
  define w7 where "w7 = wb_u8 (wb_u16 w6 33) 32"
  define w8 where "w8 = snd (wb_mark w7 32)"
  have a1: "written w0 w1 (out @ be16 41)" using written_calls(2) [OF assms(1)] by (simp add: w1_def EXT_PRE_SHARED_KEY_def)
  have a2: "written w0 w2 ((out @ be16 41) @ [0, 0])" using written_calls(4) [OF a1, of 2] by (simp add: w2_def numeral_2_eq_2)
  have a3: "written w0 w3 (((out @ be16 41) @ [0, 0]) @ [0, 0])" using written_calls(4) [OF a2, of 2] by (simp add: w3_def numeral_2_eq_2)
  have a4: "written w0 w4 (((out @ be16 41) @ [0, 0]) @ [0, 0] @ vec16 (take ?n ident))"
    using written_calls(3) [OF written_calls(2) [OF a3, of "of_nat ?n"] assms(3)] assms(3) by (simp add: w4_def vec16_def min_absorb2)
  have a5: "written w0 w5 (((out @ be16 41) @ [0, 0]) @ [0, 0] @ vec16 (take ?n ident) @ be32 ?age)"
    using written_calls(2) [OF written_calls(2) [OF a4, of "ucast (drop_bit 16 ?age)"], of "ucast ?age"] be32_halves [of ?age] by (simp add: w5_def)
  have "written w0 w6 (((out @ be16 41) @ [0, 0]) @ vec16 (vec16 (take ?n ident) @ be32 ?age))" unfolding w6_def
    by (rule written_patch16 [OF a5 _ assms(4)], rule written_mark [OF a2]) simp
  then have a6: "written w0 w6 ((out @ be16 41) @ [0, 0] @ vec16 (vec16 (take ?n ident) @ be32 ?age))" by simp
  have a7: "written w0 w7 ((out @ be16 41) @ [0, 0] @ vec16 (vec16 (take ?n ident) @ be32 ?age) @ be16 33 @ [32])"
    using written_calls(1) [OF written_calls(2) [OF a6, of 33], of 32] by (simp add: w7_def)
  have a8: "written w0 w8 ((out @ be16 41) @ [0, 0] @ psk_ext c ident (replicate 32 0))"
    using written_calls(4) [OF a7, of 32] unfolding w8_def by (simp add: psk_ext_def vec16_def vec8_def)
  have "written w0 (wb_patch16 w8 (fst (wb_mark w1 2))) ((out @ be16 41) @ vec16 (psk_ext c ident (replicate 32 0)))"
    by (rule written_patch16 [OF a8 _ assms(4)], rule written_mark [OF a1]) simp
  moreover have "(case cfg_ticket c of None \<Rightarrow> 0 | Some saved \<Rightarrow> ticket_obfuscated_age (st_ticket saved) (cfg_ticket_age_ms c)) = ?age"
    by (simp add: hello_age_def ticket_obfuscated_age_def split: option.split)
  then have "write_pre_shared_key w c = Some (wb_patch16 w8 (fst (wb_mark w1 2)))"
    using assms(2) by (simp add: write_pre_shared_key_def case_prod_beta Let_def hs_psk_hash_len_def SHA256_LEN_def w1_def w2_def w3_def w4_def
        w5_def w6_def w7_def w8_def)
  ultimately show ?thesis by (simp add: ext_wire_def)
qed

lemma auth_written:
  assumes "written w0 w out" "hello_inputs c pub random cookie n" "wb_len w0 = 0"
  shows "\<exists>w'. write_auth w c = Some w' \<and> written w0 w' (out @ exts_wire (auth_exts c (replicate 32 0)))"
proof (cases "cfg_psk c")
  case None
  note a1 = written_calls(2) [OF assms(1), of EXT_SIGNATURE_ALGORITHMS]
  note a2 = written_calls(2) [OF a1, of 4]
  note a3 = written_calls(2) [OF a2, of 2]
  note a4 = written_calls(2) [OF a3, of CH_PIN_SIGALG]
  show ?thesis using None a4 by (simp add: write_auth_def auth_exts_def Let_def exts_wire_def ext_wire_def vec16_def be16_list hello_codes low_bytes)
next
  case (Some psk)
  then obtain ident where i: "cfg_psk_id c = Some ident" "cfg_psk_id_len c \<le> length ident" using assms(2) by (auto simp: hello_inputs_def split: option.splits)
  show ?thesis using psk_written [OF assms(1) i assms(3)] Some i(1) by (simp add: write_auth_def auth_exts_def exts_wire_def)
qed

lemma hello_written:
  fixes lim :: u16
  assumes "hello_inputs c pub random cookie n" "cap \<le> length out"
  defines "m \<equiv> hello_wire c pub random lim cookie (replicate 32 0)"
  shows "\<exists>p. hs_build_client_hello out cap c pub random lim cookie n = Some (if length m \<le> cap then length m else 0, p) \<and>
    length p = length out \<and> (length m \<le> cap \<longrightarrow> take (length m) p = m)"
proof -
  define w0 where "w0 = wb_init out cap"
  have w0: "written w0 w0 []" "wb_len w0 = 0" "wb_cap w0 = cap" "length (wb_p w0) = length out"
    using assms(2) wb_kept_refl [OF wb_init_wf] by (simp_all add: written_def w0_def wb_init_view, simp_all add: wb_init_def)
  define w1 where "w1 = wb_u8 w0 HS_CLIENT_HELLO"
  define w2 where "w2 = snd (wb_mark w1 3)"
  define w3 where "w3 = wb_u8 (wb_bytes (wb_u16 w2 0x0303) random 32) 0"
  define w4 where "w4 = wb_u8 (wb_u8 (wb_u16 (wb_u16 w3 2) SUITE_CHACHA20_POLY1305_SHA256) 1) 0"
  define w5 where "w5 = snd (wb_mark w4 2)"
  define w6 where "w6 = write_cookie (write_fixed_exts w5 pub lim) cookie n"
  let ?h = "[3, 3] @ random @ vec8 [] @ vec16 [0x13, 3] @ vec8 [0]" and ?x = "exts_wire (hello_exts c pub lim cookie (replicate 32 0))"
  have in32: "length pub = 32" "32 \<le> length random" "take 32 random = random" "case cookie of None \<Rightarrow> True | Some b \<Rightarrow> length b = n"
    using assms(1) by (simp_all add: hello_inputs_def)
  have a1: "written w0 w1 [1]" using written_calls(1) [OF w0(1)] by (simp add: w1_def HS_CLIENT_HELLO_def)
  have a2: "written w0 w2 ([1] @ [0, 0, 0])" using written_calls(4) [OF a1, of 3] by (simp add: w2_def numeral_3_eq_3)
  have a3: "written w0 w3 ([1] @ [0, 0, 0] @ [3, 3] @ random @ vec8 [])"
    using written_calls(1) [OF written_calls(3) [OF written_calls(2) [OF a2, of "0x0303"] in32(2)], of 0] in32(3)
    by (simp add: w3_def be16_list vec8_def low_bytes)
  have a4: "written w0 w4 ([1] @ [0, 0, 0] @ ?h)"
    using written_calls(1) [OF written_calls(1) [OF written_calls(2) [OF written_calls(2) [OF a3, of 2], of SUITE_CHACHA20_POLY1305_SHA256], of 1], of 0]
    by (simp add: w4_def be16_list vec8_def vec16_def low_bytes SUITE_CHACHA20_POLY1305_SHA256_def)
  have a5: "written w0 w5 (([1] @ [0, 0, 0] @ ?h) @ [0, 0])" using written_calls(4) [OF a4, of 2] by (simp add: w5_def numeral_2_eq_2)
  note a6 = cookie_written [OF fixed_exts_written [OF a5 in32(1), of lim] in32(4), folded w6_def]
  from auth_written [OF a6 assms(1) w0(2)] obtain w7 where w7: "write_auth w6 c = Some w7"
    "written w0 w7 (([1] @ [0, 0, 0] @ ?h) @ [0, 0] @ ?x)" by (auto simp: hello_exts_def)
  define w8 where "w8 = wb_patch16 w7 (fst (wb_mark w4 2))"
  have "written w0 w8 (([1] @ [0, 0, 0] @ ?h) @ vec16 ?x)" unfolding w8_def
    by (rule written_patch16 [OF w7(2) _ w0(2)], rule written_mark [OF a4]) simp
  then have a8: "written w0 w8 ([1] @ [0, 0, 0] @ (?h @ vec16 ?x))" by simp
  have "written w0 (wb_patch24 w8 (fst (wb_mark w1 3))) ([1] @ vec24 (?h @ vec16 ?x))"
    by (rule written_patch24 [OF a8 _ w0(2)], rule written_mark [OF a1]) simp
  then have a9: "written w0 (wb_patch24 w8 (fst (wb_mark w1 3))) m" unfolding m_def hello_wire_def by simp
  let ?w = "wb_patch24 w8 (fst (wb_mark w1 3))"
  have b: "hs_build_client_hello out cap c pub random lim cookie n = Some (if wb_err ?w then 0 else wb_len ?w, wb_p ?w)"
    using w7(1) by (simp add: hs_build_client_hello_def case_prod_beta Let_def w0_def [symmetric] w1_def [symmetric] w2_def [symmetric]
        w3_def [symmetric] w4_def [symmetric] w5_def [symmetric] w6_def [symmetric] w8_def [symmetric])
  have k: "wb_kept w0 ?w" "wb_view ?w = (if length m \<le> cap then Some m else None)" using a9 w0(3) by (simp_all add: written_def)
  have "wb_wf ?w" "length (wb_p ?w) = length out" using k(1) w0(4) by (simp_all add: wb_kept_def)
  then show ?thesis using k(2) wb_view_length [of ?w m] unfolding b by (auto simp: wb_view_def split: if_splits)
qed

lemma length_vec24 [simp]: "length (vec24 bs) = 3 + length bs"
  by (simp add: vec24_def be24_def)

lemma hello_length:
  assumes "hello_inputs c pub random cookie n" "length binder = 32"
  shows "length (hello_wire c pub random lim cookie binder) =
    116 + (case cookie of None \<Rightarrow> 0 | Some b \<Rightarrow> 6 + length b) + (case cfg_psk c of None \<Rightarrow> 8 | Some _ \<Rightarrow> 47 + cfg_psk_id_len c)"
  using assms
  by (auto simp: hello_wire_def hello_exts_def auth_exts_def hello_inputs_def psk_ext_def vec_lengths min_absorb2 split: option.splits)

lemma hello_fits:
  assumes "hello_inputs c pub random cookie n" "length binder = 32" "cookie \<noteq> None \<Longrightarrow> n \<le> 128" "cfg_psk c \<noteq> None \<Longrightarrow> cfg_psk_id_len c \<le> 320"
  shows "0 < length (hello_wire c pub random lim cookie binder)" "length (hello_wire c pub random lim cookie binder) \<le> CH_HELLO_MAX"
  using assms(1,3,4) unfolding hello_length [OF assms(1,2)]
  by (auto simp: CH_HELLO_MAX_def CH_TICKET_ID_MAX_def HSP_COOKIE_MAX_def CH_KEX_CLIENT_SHARE_def hello_inputs_def split: option.splits)

text \<open>The binder is the tail of the hello, behind a part that does not depend on it.\<close>

lemma hello_binder:
  assumes "cfg_psk c \<noteq> None" "length b = 32" "length b' = 32"
  shows "\<exists>a. hello_wire c pub random lim cookie b = a @ be16 33 @ 32 # b \<and> hello_wire c pub random lim cookie b' = a @ be16 33 @ 32 # b'"
proof -
  obtain a1 where a1: "\<And>b. length b = 32 \<Longrightarrow> exts_wire (hello_exts c pub lim cookie b) = a1 @ be16 33 @ 32 # b"
  proof -
    let ?i = "the (cfg_psk_id c)"
    let ?p = "vec16 (vec16 (take (cfg_psk_id_len c) ?i) @ be32 (hello_age c))"
    let ?e = "[(43, vec8 [3, 4]), (10, vec16 [0, 0x1d]), (51, vec16 (be16 0x1d @ vec16 pub)), (45, vec8 [1]), (28, be16 lim)] @
      (case cookie of None \<Rightarrow> [] | Some cookie \<Rightarrow> [(44, vec16 cookie)])"
    show thesis
      by (rule that [of "exts_wire ?e @ be16 41 @ be16 (of_nat (length ?p + 35)) @ ?p"])
        (use assms(1) in \<open>auto simp: hello_exts_def auth_exts_def ext_wire_def psk_ext_def vec16_def vec8_def\<close>)
  qed
  then show ?thesis using assms(2,3)
    by (intro exI [of _ "1 # be24 (of_nat (46 + (length random + length a1))) @ [3, 3] @ random @ vec8 [] @ vec16 [0x13, 3] @ vec8 [0] @
          be16 (of_nat (length a1 + 35)) @ a1"]) (simp add: hello_wire_def vec24_def vec16_def vec8_def)
qed


text \<open>
  C14: The ClientHello is exactly the wire form: version, random, the one suite and the extensions supported_versions, supported_groups,
  key_share, psk_key_exchange_modes, record_size_limit, the cookie of a HelloRetryRequest where there is one, and last either the signature
  algorithm of the pinned key or the PSK with room for its binder.  It fits the staging array of the largest cookie and identity, so no
  hello a configuration allows is refused for its size, and nothing outside the array is written.
\<close>

theorem hs_build_client_hello_exact:
  assumes "hello_inputs c pub random cookie n" "cookie \<noteq> None \<Longrightarrow> n \<le> HSP_COOKIE_MAX" "cfg_psk c \<noteq> None \<Longrightarrow> cfg_psk_id_len c \<le> CH_TICKET_ID_MAX"
    and "CH_HELLO_MAX \<le> cap" "cap \<le> length out"
  shows "\<exists>p. hs_build_client_hello out cap c pub random lim cookie n =
      Some (length (hello_wire c pub random lim cookie (replicate 32 0)), hello_wire c pub random lim cookie (replicate 32 0) @ p) \<and>
    length (hello_wire c pub random lim cookie (replicate 32 0)) + length p = length out"
proof -
  let ?m = "hello_wire c pub random lim cookie (replicate 32 0)"
  have "length ?m \<le> cap"
    using hello_fits(2) [OF assms(1), of "replicate 32 0" lim] assms(2-4) by (simp add: HSP_COOKIE_MAX_def CH_TICKET_ID_MAX_def)
  with hello_written [OF assms(1,5), of lim] obtain q where
    q: "hs_build_client_hello out cap c pub random lim cookie n = Some (length ?m, q)" "length q = length out" "take (length ?m) q = ?m" by auto
  then have "q = ?m @ drop (length ?m) q" by (metis append_take_drop_id)
  moreover have "length ?m \<le> length q" using \<open>length ?m \<le> cap\<close> assms(5) q(2) by simp
  ultimately show ?thesis using q(1,2) by (metis length_append)
qed

theorem hs_build_client_hello_exact_witness:
  "let c = (stream_cfg [] 600)\<lparr>cfg_psk := Some (replicate 32 7), cfg_psk_id := Some [9, 8], cfg_psk_id_len := 2\<rparr>;
       m = hello_wire c (replicate 32 1) (replicate 32 2) 16385 (Some [5]) (replicate 32 0)
   in \<exists>p. hs_build_client_hello (replicate 617 0) 617 c (replicate 32 1) (replicate 32 2) 16385 (Some [5]) 1 = Some (length m, m @ p) \<and>
     length m + length p = 617"
  using hs_build_client_hello_exact [of "(stream_cfg [] 600)\<lparr>cfg_psk := Some (replicate 32 7), cfg_psk_id := Some [9, 8], cfg_psk_id_len := 2\<rparr>"
      "replicate 32 1" "replicate 32 2" "Some [5]" 1 617 "replicate 617 0" 16385]
  by (simp add: hello_inputs_def HSP_COOKIE_MAX_def CH_TICKET_ID_MAX_def CH_HELLO_MAX_def CH_KEX_CLIENT_SHARE_def Let_def)

end
