(* ===== verification/Spec2Isabelle.thy ===== *)
theory Spec2Isabelle
  imports Ct Buf Pem Rec_Layer Sha512 Webpki_Time Webpki_Name Api Hello
begin

text \<open>
  \<^bold>\<open>Chapulin in Isabelle/HOL.\<close>  Chapulin is a TLS 1.3 library in C for devices.  A build is chosen by macros: the role (client or
  server), the trust (raw pinned keys, a pinned CA, the web PKI), the transport (blocking TCP, nonblocking TCP, QUIC), the key exchange
  and the cipher suites.  This development models the default device build, a client with pinned RSA keys or a PSK over blocking
  TCP with X25519 and ChaCha20-Poly1305, in the portable code that runs on every CPU.  Code that other builds add to the same functions
  is left out; each theory says where.

  \<^bold>\<open>The parts and how they interact.\<close>  A session (\<open>ch_tls_priv\<close>) holds the caller's configuration with its buffer and its
  \<open>send\<close> and \<open>recv\<close> callbacks, a read and a write direction, the traffic secrets, the transcript and the staging array of the
  send path.  Reading a record goes through the caller's \<open>recv\<close> (\<open>io.c\<close>), the record layer (\<open>record.c\<close>) and the AEAD
  (\<open>aead.c\<close> over \<open>chacha20.c\<close> and \<open>poly1305.c\<close>); what it opens to is application data, an alert, or handshake messages, which
  \<open>handshake_record.c\<close> joins across records during the handshake and \<open>handshake_post.c\<close> handles after it.  Writing goes the
  other way through \<open>tls_write.c\<close>.  Keys come from \<open>keysched.c\<close> over \<open>hkdf.c\<close> and \<open>sha256.c\<close>.  The certificate side
  reads PEM, DER, dates and host names.

  \<^bold>\<open>The theories, from the bottom.\<close>
  \<^item> \<open>Prelude\<close>: the integer types, \<open>size_t\<close> subtraction, the result codes of \<open>include/chapulin/result.h\<close>, the fact collections and
    the lemmas on words and byte lists that the components share.
  \<^item> \<open>Ct\<close>: \<open>ct.c\<close>, \<open>ct_wipe.c\<close>, \<open>softmul.c\<close> and the multiplies of \<open>ct.h\<close>: the compare decides equality, the wipe zeroes exactly
    its bytes, every decomposed multiply is the product.
  \<^item> \<open>Buf\<close>, \<open>Wire\<close>: \<open>buf.c\<close>.  The views \<open>rb_view\<close> and \<open>wb_view\<close> abstract a reader and a writer to byte lists; the locales
    \<open>byte_reader\<close> and \<open>byte_writer\<close> derive the multi-byte calls from the one-byte law.  \<open>Wire\<close> adds the fields and vectors of messages.
  \<^item> \<open>Pem\<close>: \<open>base64.c\<close>, \<open>pem.c\<close>, \<open>pem_blocks.c\<close>: the decoder inverts the encoding exactly and never reads or writes out of bounds.
  \<^item> \<open>Chacha20\<close>, \<open>Poly1305\<close>, \<open>Aead\<close>: the cipher is its keystream, also where input and output overlap; the five-limb tag
    is the polynomial modulo \<open>2^130 - 5\<close>; seal and open are inverse and open accepts the one right tag.  Locales: \<open>stream_cipher\<close>,
    \<open>aead\<close>.
  \<^item> \<open>Streaming\<close>, \<open>Block_Hash\<close>, \<open>Sha256\<close>, \<open>Sha512\<close>: the buffering that the three hash files write once each, over the word type.
    The locales \<open>absorber\<close>, \<open>streaming\<close> and \<open>block_hash\<close> show that any split into updates gives the digest of the whole message.
  \<^item> \<open>Hkdf\<close>, \<open>Keysched\<close>: HMAC, HKDF and its labels, the key schedule, the transcript (\<open>transcript.h\<close>) and the
    generator (\<open>drbg.c\<close>), against RFC definitions.
  \<^item> \<open>Rec_Layer\<close>: \<open>record.c\<close>.  Every record is sealed under the RFC's nonce for its sequence number, no nonce repeats, a stream of records opens to what was sealed, and nothing else opens.
  \<^item> \<open>Session\<close>: the records \<open>ch_cfg\<close> and \<open>ch_tls_priv\<close> (\<open>cfg.h\<close>, \<open>session.h\<close>), the loops of \<open>io.c\<close>, and the alert, wipe and failure
    funnel of \<open>session.c\<close>.  The caller's callbacks are functions of the caller's state \<open>'io\<close>, kept in the configuration.  \<open>recv_ok\<close> is
    the contract of \<open>recv\<close> (a count it returns is a count of bytes it wrote) and \<open>received\<close> the bytes its calls delivered; the
    properties on reading tie what they return to these bytes.
  \<^item> \<open>Hs_Record\<close>: \<open>handshake_record.c\<close>: the blocking reader of messages, the fed reader of the other transports, and the transcript
    restart after a HelloRetryRequest.
  \<^item> \<open>Hs_Parse\<close>, \<open>Hello\<close>: \<open>handshake_parser.c\<close>, \<open>handshake_parser_ee.c\<close> and \<open>handshake_message.c\<close>: the parsers accept exactly the wire forms
    this client may take, but for a cookie of zero bytes and the form of a list of groups, which they leave unchecked, and the ClientHello
    is its wire form and fits the staging array.
  \<^item> \<open>Post\<close>: \<open>handshake_post.c\<close>: tickets, KeyUpdate, and runs of messages across records.
  \<^item> \<open>Tls\<close>, \<open>Tls_Write\<close>, \<open>Api\<close>: \<open>tls.c\<close> and \<open>tls_write.c\<close>: the rules of a configuration, \<open>ch_read\<close>, \<open>ch_write\<close>,
    \<open>ch_write_parts\<close>, \<open>ch_writable_len\<close>, \<open>ch_fail\<close> and \<open>ch_close\<close>, and any sequence of them.  \<open>session_ok\<close> is the invariant of a
    session from the end of its handshake on.
  \<^item> \<open>Der\<close>, \<open>Webpki_Time\<close>, \<open>Webpki_Name\<close>: \<open>x509_der.c\<close>, \<open>webpki_time.c\<close> and \<open>webpki_name.c\<close>: the readers accept exactly the
    canonical encodings, dates order as instants, and names match by the rules of the code's contract.

  \<^bold>\<open>Conventions.\<close>  A struct is a record and a call that changes it returns it updated.  A buffer is a byte list, a pointer that
  may be \<open>NULL\<close> an option, an \<open>int\<close> result an \<open>rc\<close>.  A function that can stop in \<open>CH_ASSERT\<close> returns an option whose
  \<open>None\<close> is that stop.  Machine integers are words of their width; \<open>size_t\<close> values are naturals, with the wrap of 64 bits
  written out in subtraction, and in the sums and products of \<open>Tls_Write\<close>.  A local with indeterminate contents is an arbitrary value that the
  lemmas quantify over.

  \<^bold>\<open>Termination and fuel.\<close>  No definition takes fuel.  Loops with a bound are recursive functions with a termination proof.  A loop
  whose end depends on the peer or the caller (reading a message, draining a run of tickets, writing parts) is a \<open>partial_function\<close>
  whose \<open>None\<close> is not returning; that each returns is proved: \<open>hsr_next_msg_returns\<close>, \<open>api_invariant\<close>.

  \<^bold>\<open>What the properties show.\<close>  Bytes written arrive: \<open>tls_write_delivers\<close>, \<open>rec_stream_roundtrip\<close>,
  \<open>rec_open_authentic\<close>.  What is read is what the peer's records carry, in order: \<open>tls_read_authentic\<close>, \<open>hsr_next_msg_stream\<close>.  A session keeps its invariant, every call returns, and an ended session is silent with its keys zero:
  \<open>api_invariant\<close>, \<open>ended_session_refuses\<close>.  Optimised routines equal their references: \<open>poly1305_tag\<close>, \<open>sha256_digest\<close>, \<open>sha2_digests\<close>,
  \<open>webpki_pack_seconds_calendar\<close>, \<open>multiplies_exact\<close>, and the secrets are those of the RFC's key schedule: \<open>key_schedule\<close>.  Parsers accept exactly their wire forms: \<open>handle_ticket_exact\<close>,
  \<open>pem_decode_one_exact\<close>, \<open>x509_read_spki_exact\<close>, \<open>webpki_match_san_exact\<close> and others.

  \<^bold>\<open>Not modelled.\<close>
  \<^item> The handshake up to Finished (\<open>handshake.c\<close>, \<open>handshake_flight.c\<close>, \<open>handshake_auth.c\<close>) with X25519 and
    RSA verification.  The lemmas on a connected session start from \<open>session_ok\<close>.
  \<^item> The other builds: the server, QUIC, nonblocking TCP, the web PKI chain, the pinned CA, AES-GCM, ML-KEM and ML-DSA, P-256 and P-384.
  \<^item> The CPU kernels in intrinsics and assembly, whose meaning is the instruction set's, and the compiler barriers of \<open>ct.h\<close>.  Timing is
    not a property of these definitions.
  \<^item> Files and entry points that only forward (\<open>tls_entry.c\<close>, \<open>session_report.c\<close>, \<open>pem_files.c\<close>), and the C++ and Zig bindings.
\<close>

end
